(* ===== verification/Prelude.thy ===== *)
theory Prelude
  imports "HOL-Library.Word" "HOL-Library.Monad_Syntax"
begin

text \<open>
  Shared vocabulary of the development: the machine integers of the source, byte buffers with
  bounds-checked \<open>memcpy\<close>, and the generic facts on lists and options the components use.

  A C++ buffer is a \<open>byte list\<close> of its exact size.  \<open>buf_read buf off n\<close> are the \<open>n\<close> bytes at
  \<open>buf + off\<close>; \<open>memcpy buf off src\<close> copies \<open>src\<close> to \<open>buf + off\<close> and is \<open>None\<close> when the copy would
  leave the buffer, which is undefined behaviour in the source.  A component whose operations
  return \<open>Some\<close> therefore never writes out of bounds.
\<close>

unbundle bit_operations_syntax

type_synonym byte = "8 word"
type_synonym u16 = "16 word"
type_synonym u32 = "32 word"
type_synonym u64 = "64 word"

named_theorems mem_simps "reads and writes of byte buffers"
named_theorems wire_simps "evaluation of wire formats"

text \<open>\<open>assert(b)\<close>: a failing assertion aborts the process.\<close>

definition assertion :: "bool \<Rightarrow> unit option" where
  "assertion b = (if b then Some () else None)"

section \<open>Byte buffers\<close>

definition buf_read :: "'a list \<Rightarrow> nat \<Rightarrow> nat \<Rightarrow> 'a list" where
  "buf_read buf off n = take n (drop off buf)"

definition buf_write :: "'a list \<Rightarrow> nat \<Rightarrow> 'a list \<Rightarrow> 'a list" where
  "buf_write buf off src = take off buf @ src @ drop (off + length src) buf"

definition memcpy :: "'a list \<Rightarrow> nat \<Rightarrow> 'a list \<Rightarrow> 'a list option" where
  "memcpy buf off src =
     (if off + length src \<le> length buf then Some (buf_write buf off src) else None)"

lemma length_buf_read [simp]: "off + n \<le> length buf \<Longrightarrow> length (buf_read buf off n) = n"
  by (simp add: buf_read_def)

lemma length_buf_write [simp]:
  "off + length src \<le> length buf \<Longrightarrow> length (buf_write buf off src) = length buf"
  by (simp add: buf_write_def)

lemma memcpy_in_range [mem_simps]:
  "off + length src \<le> length buf \<Longrightarrow> memcpy buf off src = Some (buf_write buf off src)"
  by (simp add: memcpy_def)

lemma memcpy_out_of_range: "length buf < off + length src \<Longrightarrow> memcpy buf off src = None"
  by (simp add: memcpy_def)

lemma memcpy_eq_Some_iff:
  "memcpy buf off src = Some b \<longleftrightarrow> off + length src \<le> length buf \<and> b = buf_write buf off src"
  by (auto simp: memcpy_def)

lemma buf_write_empty [simp]: "buf_write buf off [] = buf"
  by (simp add: buf_write_def)

lemma buf_write_adjacent [mem_simps]:
  assumes "off + length xs + length ys \<le> length buf"
  shows "buf_write (buf_write buf off xs) (off + length xs) ys = buf_write buf off (xs @ ys)"
  using assms by (simp add: buf_write_def ac_simps)

lemma buf_write_0: "length src \<le> length buf \<Longrightarrow> buf_write buf 0 src = src @ drop (length src) buf"
  by (simp add: buf_write_def)

lemma take_buf_write:
  assumes "off + length src \<le> length buf"
  shows "take (off + length src) (buf_write buf off src) = take off buf @ src"
  using assms by (simp add: buf_write_def)

lemma drop_buf_write:
  assumes "off + length src \<le> length buf"
  shows "drop (off + length src) (buf_write buf off src) = drop (off + length src) buf"
  using assms by (simp add: buf_write_def)

lemma read_write_same:
  "off + length src \<le> length buf \<Longrightarrow> buf_read (buf_write buf off src) off (length src) = src"
  by (simp add: buf_read_def buf_write_def)

lemma read_write_before:
  assumes "off + length src \<le> length buf" "p + n \<le> off"
  shows "buf_read (buf_write buf off src) p n = buf_read buf p n"
proof -
  have "drop p (buf_write buf off src)
      = drop p (take off buf) @ src @ drop (off + length src) buf"
    using assms by (simp add: buf_write_def)
  moreover have "n \<le> length (drop p (take off buf))"
    using assms by simp
  ultimately show ?thesis
    using assms by (simp add: buf_read_def drop_take min_def)
qed

lemma read_write_after:
  assumes "off + length src \<le> length buf" "off + length src \<le> p"
  shows "buf_read (buf_write buf off src) p n = buf_read buf p n"
  using assms by (simp add: buf_read_def buf_write_def)

lemma buf_read_append_left [simp]:
  "off + n \<le> length xs \<Longrightarrow> buf_read (xs @ ys) off n = buf_read xs off n"
  by (simp add: buf_read_def)

lemma buf_read_append_right:
  "length xs \<le> off \<Longrightarrow> buf_read (xs @ ys) off n = buf_read ys (off - length xs) n"
  by (simp add: buf_read_def)

lemma buf_read_all [simp]: "buf_read xs 0 (length xs) = xs"
  by (simp add: buf_read_def)

lemma buf_read_0: "buf_read xs 0 n = take n xs"
  by (simp add: buf_read_def)

text \<open>Writing field after field: the bytes behind the written prefix are replaced.\<close>

lemma memcpy_append:
  "length xs = off \<Longrightarrow> length ys \<le> length rest \<Longrightarrow>
   memcpy (xs @ rest) off ys = Some ((xs @ ys) @ drop (length ys) rest)"
  by (auto simp: memcpy_def buf_write_def)

section \<open>Lists\<close>

lemma take_append_exact: "length xs = n \<Longrightarrow> take n (xs @ ys) = xs"
  by simp

lemma drop_append_exact: "length xs = n \<Longrightarrow> drop n (xs @ ys) = ys"
  by simp

lemma list_all_upt_nth: "list_all P [0..<n] \<Longrightarrow> i < n \<Longrightarrow> P i"
  by (simp add: list_all_iff)

section \<open>Words\<close>

lemma unat_u16_less [simp]: "unat (x :: u16) < 65536"
  using unsigned_less [of x] by simp

lemma unat_u32_less [simp]: "unat (x :: u32) < 4294967296"
  using unsigned_less [of x] by simp

lemma xor_cancel_left: "(a :: 'a::len word) XOR b = a XOR c \<longleftrightarrow> b = c"
  by (auto simp: bit_eq_iff bit_xor_iff)

lemma xor_cancel_right: "(b :: 'a::len word) XOR a = c XOR a \<longleftrightarrow> b = c"
  by (auto simp: bit_eq_iff bit_xor_iff)

lemma unat_of_nat_u32 [simp]: "n < 4294967296 \<Longrightarrow> unat (of_nat n :: u32) = n"
  by (simp add: unat_of_nat)

end
