(* ===== verification/ByteOrder.thy ===== *)
theory ByteOrder
  imports Prelude
begin

text \<open>
  The byte-order macros of \<open>corpc_define.h\<close> and the idiom every codec of the library uses:
  \<open>tmp = htobe32(x); memcpy(buf + off, &tmp, 4)\<close> to store a field and
  \<open>memcpy(&x, buf + off, 4); x = be32toh(x)\<close> to load one.  The host's byte order, which the
  source reads from \<open>__BYTE_ORDER__\<close>, is a parameter; the wire format is shown not to depend on it.
\<close>

datatype endian = LittleEndian | BigEndian

section \<open>The macros\<close>

definition bswap16 :: "u16 \<Rightarrow> u16" where
  "bswap16 x = push_bit 8 x OR drop_bit 8 x"

definition bswap32 :: "u32 \<Rightarrow> u32" where
  "bswap32 x =
     drop_bit 24 x
     OR drop_bit 8 (x AND push_bit 16 0xff)
     OR push_bit 8 (x AND push_bit 8 0xff)
     OR push_bit 24 x"

definition bswap64 :: "u64 \<Rightarrow> u64" where
  "bswap64 x =
     drop_bit 56 x
     OR (drop_bit 40 x AND push_bit 8 0xff)
     OR (drop_bit 24 x AND push_bit 16 0xff)
     OR (drop_bit 8 x AND push_bit 24 0xff)
     OR (push_bit 8 x AND push_bit 32 0xff)
     OR (push_bit 24 x AND push_bit 40 0xff)
     OR (push_bit 40 x AND push_bit 48 0xff)
     OR push_bit 56 x"

fun htobe16 :: "endian \<Rightarrow> u16 \<Rightarrow> u16" where
  "htobe16 LittleEndian x = bswap16 x"
| "htobe16 BigEndian x = x"

fun htobe32 :: "endian \<Rightarrow> u32 \<Rightarrow> u32" where
  "htobe32 LittleEndian x = bswap32 x"
| "htobe32 BigEndian x = x"

fun htobe64 :: "endian \<Rightarrow> u64 \<Rightarrow> u64" where
  "htobe64 LittleEndian x = bswap64 x"
| "htobe64 BigEndian x = x"

fun be16toh :: "endian \<Rightarrow> u16 \<Rightarrow> u16" where
  "be16toh LittleEndian x = bswap16 x"
| "be16toh BigEndian x = x"

fun be32toh :: "endian \<Rightarrow> u32 \<Rightarrow> u32" where
  "be32toh LittleEndian x = bswap32 x"
| "be32toh BigEndian x = x"

fun be64toh :: "endian \<Rightarrow> u64 \<Rightarrow> u64" where
  "be64toh LittleEndian x = bswap64 x"
| "be64toh BigEndian x = x"

section \<open>Objects in memory\<close>

text \<open>The bytes of an unsigned integer object, lowest address first, and the value of such bytes.\<close>

definition le_bytes :: "nat \<Rightarrow> 'a::len word \<Rightarrow> byte list" where
  "le_bytes n x = map (\<lambda>i. ucast (drop_bit (8 * i) x)) [0..<n]"

definition be_bytes :: "nat \<Rightarrow> 'a::len word \<Rightarrow> byte list" where
  "be_bytes n x = rev (le_bytes n x)"

definition of_le_bytes :: "byte list \<Rightarrow> 'a::len word" where
  "of_le_bytes bs = foldr (\<lambda>b acc. ucast b OR push_bit 8 acc) bs 0"

definition of_be_bytes :: "byte list \<Rightarrow> 'a::len word" where
  "of_be_bytes bs = of_le_bytes (rev bs)"

fun host_bytes :: "endian \<Rightarrow> nat \<Rightarrow> 'a::len word \<Rightarrow> byte list" where
  "host_bytes LittleEndian n x = le_bytes n x"
| "host_bytes BigEndian n x = be_bytes n x"

fun of_host_bytes :: "endian \<Rightarrow> byte list \<Rightarrow> 'a::len word" where
  "of_host_bytes LittleEndian bs = of_le_bytes bs"
| "of_host_bytes BigEndian bs = of_be_bytes bs"

text \<open>The store and load idiom of the codecs.\<close>

definition put16 :: "endian \<Rightarrow> byte list \<Rightarrow> nat \<Rightarrow> u16 \<Rightarrow> byte list option" where
  "put16 e buf off x = memcpy buf off (host_bytes e 2 (htobe16 e x))"

definition put32 :: "endian \<Rightarrow> byte list \<Rightarrow> nat \<Rightarrow> u32 \<Rightarrow> byte list option" where
  "put32 e buf off x = memcpy buf off (host_bytes e 4 (htobe32 e x))"

definition put64 :: "endian \<Rightarrow> byte list \<Rightarrow> nat \<Rightarrow> u64 \<Rightarrow> byte list option" where
  "put64 e buf off x = memcpy buf off (host_bytes e 8 (htobe64 e x))"

definition get16 :: "endian \<Rightarrow> byte list \<Rightarrow> nat \<Rightarrow> u16" where
  "get16 e buf off = be16toh e (of_host_bytes e (buf_read buf off 2))"

definition get32 :: "endian \<Rightarrow> byte list \<Rightarrow> nat \<Rightarrow> u32" where
  "get32 e buf off = be32toh e (of_host_bytes e (buf_read buf off 4))"

definition get64 :: "endian \<Rightarrow> byte list \<Rightarrow> nat \<Rightarrow> u64" where
  "get64 e buf off = be64toh e (of_host_bytes e (buf_read buf off 8))"

section \<open>Byte order does not show on the wire\<close>

lemma length_le_bytes [simp]: "length (le_bytes n x) = n"
  by (simp add: le_bytes_def)

lemma length_be_bytes [simp]: "length (be_bytes n x) = n"
  by (simp add: be_bytes_def)

lemma length_host_bytes [simp]: "length (host_bytes e n x) = n"
  by (cases e) simp_all

lemma nat_less_8_cases: "(n::nat) < 8 \<longleftrightarrow> n = 0 \<or> n = 1 \<or> n = 2 \<or> n = 3 \<or> n = 4 \<or> n = 5 \<or> n = 6 \<or> n = 7"
  by auto

lemma le_bytes_2: "le_bytes 2 x = [ucast x, ucast (drop_bit 8 x)]"
  by (simp add: le_bytes_def upt_rec)

lemma le_bytes_4: "le_bytes 4 x = [ucast x, ucast (drop_bit 8 x), ucast (drop_bit 16 x), ucast (drop_bit 24 x)]"
  by (simp add: le_bytes_def upt_rec)

lemma le_bytes_8:
  "le_bytes 8 x = [ucast x, ucast (drop_bit 8 x), ucast (drop_bit 16 x), ucast (drop_bit 24 x),
     ucast (drop_bit 32 x), ucast (drop_bit 40 x), ucast (drop_bit 48 x), ucast (drop_bit 56 x)]"
  by (simp add: le_bytes_def upt_rec)

lemma bswap16_bytes: "le_bytes 2 (bswap16 x) = be_bytes 2 x"
  by (simp add: be_bytes_def le_bytes_2 bswap16_def)
     (auto intro!: bit_word_eqI simp: bit_simps)

lemma bswap32_bytes: "le_bytes 4 (bswap32 x) = be_bytes 4 x"
  by (simp add: be_bytes_def le_bytes_4 bswap32_def, intro conjI)
     (auto intro!: bit_word_eqI simp: bit_simps nat_less_8_cases)

lemma bswap64_byte:
  "ucast (bswap64 x) = (ucast (drop_bit 56 x) :: byte)"
  "ucast (drop_bit 8 (bswap64 x)) = (ucast (drop_bit 48 x) :: byte)"
  "ucast (drop_bit 16 (bswap64 x)) = (ucast (drop_bit 40 x) :: byte)"
  "ucast (drop_bit 24 (bswap64 x)) = (ucast (drop_bit 32 x) :: byte)"
  "ucast (drop_bit 32 (bswap64 x)) = (ucast (drop_bit 24 x) :: byte)"
  "ucast (drop_bit 40 (bswap64 x)) = (ucast (drop_bit 16 x) :: byte)"
  "ucast (drop_bit 48 (bswap64 x)) = (ucast (drop_bit 8 x) :: byte)"
  "ucast (drop_bit 56 (bswap64 x)) = (ucast x :: byte)"
  by (rule bit_word_eqI; simp add: bswap64_def bit_simps nat_less_8_cases; elim disjE; simp)+

lemma bswap64_bytes: "le_bytes 8 (bswap64 x) = be_bytes 8 x"
  by (simp add: be_bytes_def le_bytes_8 bswap64_byte)

lemma of_le_bytes_Nil [simp]: "of_le_bytes [] = 0"
  by (simp add: of_le_bytes_def)

lemma of_le_bytes_Cons: "of_le_bytes (b # bs) = (ucast b OR push_bit 8 (of_le_bytes bs))"
  by (simp add: of_le_bytes_def)

lemma bit_of_le_bytes:
  "bit (of_le_bytes bs :: 'a::len word) i \<longleftrightarrow>
     i < LENGTH('a) \<and> i < 8 * length bs \<and> bit (bs ! (i div 8)) (i mod 8)"
proof (induction bs arbitrary: i)
  case Nil
  then show ?case by simp
next
  case (Cons b bs)
  show ?case
  proof (cases "i < 8")
    case True
    then show ?thesis by (auto simp: of_le_bytes_Cons bit_simps)
  next
    case False
    then have "i div 8 = Suc ((i - 8) div 8)" "i mod 8 = (i - 8) mod 8"
      by (simp_all add: le_div_geq le_mod_geq)
    with False show ?thesis
      by (auto simp: of_le_bytes_Cons bit_simps Cons.IH dest: bit_imp_le_length)
  qed
qed

lemma bit_le_bytes_nth:
  "k < n \<Longrightarrow> bit (le_bytes n (x :: 'a::len word) ! k) j \<longleftrightarrow> j < 8 \<and> bit x (8 * k + j)"
  by (auto simp: le_bytes_def bit_simps)

lemma of_le_le_bytes:
  "LENGTH('a) \<le> 8 * n \<Longrightarrow> of_le_bytes (le_bytes n x) = (x :: 'a::len word)"
  by (rule bit_word_eqI) (simp add: bit_of_le_bytes bit_le_bytes_nth less_mult_imp_div_less)

lemma le_of_le_bytes:
  assumes "8 * length bs \<le> LENGTH('a)"
  shows "le_bytes (length bs) (of_le_bytes bs :: 'a::len word) = bs"
proof (rule nth_equalityI)
  fix k assume "k < length (le_bytes (length bs) (of_le_bytes bs :: 'a word))"
  then have k: "k < length bs" by simp
  show "le_bytes (length bs) (of_le_bytes bs :: 'a word) ! k = bs ! k"
  proof (rule bit_word_eqI)
    fix j assume "j < LENGTH(8)"
    then have "j < 8" by simp
    with k assms show "bit (le_bytes (length bs) (of_le_bytes bs :: 'a word) ! k) j = bit (bs ! k) j"
      by (simp add: bit_le_bytes_nth bit_of_le_bytes)
  qed
qed simp
lemma host_htobe16 [wire_simps]: "host_bytes e 2 (htobe16 e x) = be_bytes 2 x"
  by (cases e) (simp_all add: bswap16_bytes)

lemma host_htobe32 [wire_simps]: "host_bytes e 4 (htobe32 e x) = be_bytes 4 x"
  by (cases e) (simp_all add: bswap32_bytes)

lemma host_htobe64 [wire_simps]: "host_bytes e 8 (htobe64 e x) = be_bytes 8 x"
  by (cases e) (simp_all add: bswap64_bytes)

lemma of_be_be_bytes:
  "LENGTH('a) \<le> 8 * n \<Longrightarrow> of_be_bytes (be_bytes n x) = (x :: 'a::len word)"
  by (simp add: of_be_bytes_def be_bytes_def of_le_le_bytes)

lemma bswap_of_le:
  assumes bs: "length bs = n" "8 * n = LENGTH('a::len)"
    and swap: "\<And>x :: 'a word. le_bytes n (f x) = be_bytes n x"
  shows "f (of_le_bytes bs) = (of_be_bytes bs :: 'a word)"
proof -
  have "le_bytes n (f (of_le_bytes bs)) = rev bs"
    using le_of_le_bytes [of bs, where 'a = 'a] bs by (simp add: swap be_bytes_def)
  then have "of_le_bytes (rev bs) = f (of_le_bytes bs)"
    using of_le_le_bytes [of n "f (of_le_bytes bs)"] bs by simp
  then show ?thesis by (simp add: of_be_bytes_def)
qed

lemma be16toh_host: "length bs = 2 \<Longrightarrow> be16toh e (of_host_bytes e bs) = of_be_bytes bs"
  by (cases e) (simp_all add: bswap_of_le bswap16_bytes)

lemma be32toh_host: "length bs = 4 \<Longrightarrow> be32toh e (of_host_bytes e bs) = of_be_bytes bs"
  by (cases e) (simp_all add: bswap_of_le bswap32_bytes)

lemma be64toh_host: "length bs = 8 \<Longrightarrow> be64toh e (of_host_bytes e bs) = of_be_bytes bs"
  by (cases e) (simp_all add: bswap_of_le bswap64_bytes)

lemma put16_eq [wire_simps]: "put16 e buf off x = memcpy buf off (be_bytes 2 x)"
  by (simp add: put16_def host_htobe16)

lemma put32_eq [wire_simps]: "put32 e buf off x = memcpy buf off (be_bytes 4 x)"
  by (simp add: put32_def host_htobe32)

lemma put64_eq [wire_simps]: "put64 e buf off x = memcpy buf off (be_bytes 8 x)"
  by (simp add: put64_def host_htobe64)

lemma get16_eq: "off + 2 \<le> length buf \<Longrightarrow> get16 e buf off = of_be_bytes (buf_read buf off 2)"
  by (simp add: get16_def be16toh_host)

lemma get32_eq: "off + 4 \<le> length buf \<Longrightarrow> get32 e buf off = of_be_bytes (buf_read buf off 4)"
  by (simp add: get32_def be32toh_host)

lemma get64_eq: "off + 8 \<le> length buf \<Longrightarrow> get64 e buf off = of_be_bytes (buf_read buf off 8)"
  by (simp add: get64_def be64toh_host)

text \<open>Loading a field that was stored, possibly on a host of the other byte order.\<close>

lemma get16_field [wire_simps]:
  "length pre = off \<Longrightarrow> get16 e (pre @ be_bytes 2 x @ post) off = x"
  by (simp add: get16_eq buf_read_def of_be_be_bytes)

lemma get32_field [wire_simps]:
  "length pre = off \<Longrightarrow> get32 e (pre @ be_bytes 4 x @ post) off = x"
  by (simp add: get32_eq buf_read_def of_be_be_bytes)

lemma get64_field [wire_simps]:
  "length pre = off \<Longrightarrow> get64 e (pre @ be_bytes 8 x @ post) off = x"
  by (simp add: get64_eq buf_read_def of_be_be_bytes)

section \<open>Properties\<close>

lemma get_after_put:
  assumes "memcpy buf off (be_bytes n x) = Some b"
  shows "buf_read b off n = be_bytes n x" "length b = length buf" "off + n \<le> length b"
    "take off b = take off buf" "drop (off + n) b = drop (off + n) buf"
  using assms read_write_same [of off "be_bytes n x" buf] drop_buf_write [of off "be_bytes n x" buf]
  by (auto simp: memcpy_eq_Some_iff buf_write_def)

text \<open>
  C33: a 16, 32 or 64 bit field stored by one host and loaded by another host of any byte order has
  the same value, the store changes no byte outside the field, and the bytes on the wire do not
  depend on the storing host.
\<close>

theorem wire_field_roundtrip:
  assumes "put16 e buf off x16 = Some b2" "put32 e buf off x32 = Some b4" "put64 e buf off x64 = Some b8"
  shows "get16 e' b2 off = x16 \<and> put16 e' buf off x16 = Some b2
       \<and> take off b2 = take off buf \<and> drop (off + 2) b2 = drop (off + 2) buf
     \<and> get32 e' b4 off = x32 \<and> put32 e' buf off x32 = Some b4
       \<and> take off b4 = take off buf \<and> drop (off + 4) b4 = drop (off + 4) buf
     \<and> get64 e' b8 off = x64 \<and> put64 e' buf off x64 = Some b8
       \<and> take off b8 = take off buf \<and> drop (off + 8) b8 = drop (off + 8) buf"
proof -
  note stored = assms [unfolded put16_eq put32_eq put64_eq]
  show ?thesis
    using stored get_after_put [OF stored(1)] get_after_put [OF stored(2)] get_after_put [OF stored(3)]
    by (simp add: put16_eq put32_eq put64_eq get16_eq get32_eq get64_eq of_be_be_bytes)
qed

theorem wire_field_roundtrip_witness:
  "get16 BigEndian [9, 0x12, 0x34, 0, 0, 0, 0, 0, 0, 7] 1 = 0x1234
   \<and> get32 BigEndian [9, 0x12, 0x34, 0x56, 0x78, 0, 0, 0, 0, 7] 1 = 0x12345678
   \<and> get64 BigEndian [9, 1, 2, 3, 4, 5, 6, 7, 8, 7] 1 = 0x0102030405060708"
proof -
  let ?buf = "[9, 0, 0, 0, 0, 0, 0, 0, 0, 7]"
  have w: "put16 LittleEndian ?buf 1 0x1234 = Some [9, 0x12, 0x34, 0, 0, 0, 0, 0, 0, 7]"
    "put32 LittleEndian ?buf 1 0x12345678 = Some [9, 0x12, 0x34, 0x56, 0x78, 0, 0, 0, 0, 7]"
    "put64 LittleEndian ?buf 1 0x0102030405060708 = Some [9, 1, 2, 3, 4, 5, 6, 7, 8, 7]"
    by (simp_all add: put16_eq put32_eq put64_eq memcpy_def buf_write_def be_bytes_def le_bytes_2 le_bytes_4 le_bytes_8)
  from wire_field_roundtrip [OF w, of BigEndian] show ?thesis by simp
qed

end
