(* ===== verification/Pipeline.thy ===== *)
theory Pipeline
  imports ByteOrder
begin

text \<open>
  The pipelines of \<open>corpc_io.h/.cpp\<close>: \<open>TcpPipeline::upflow\<close> cuts a byte stream into messages,
  \<open>UdpPipeline::upflow\<close> takes one message per datagram, and \<open>MessagePipeline::downflow\<close> and
  \<open>UdpPipeline::downflow\<close> serialise the waiting messages of a connection into the send buffer.

  The code calls the codec through \<open>decodeFun_\<close> and \<open>encodeFun_\<close>; both are arguments here.  The
  pointer and size a codec is given are a slice of a buffer: \<open>decodeFun_\<close> takes the slice
  \<open>bodyBuf_[0 .. bodySize_)\<close> and returns it as it leaves it (decryption works in place), with the
  new connection state and the task or null.  \<open>encodeFun_\<close> takes the slice \<open>buf[size .. space)\<close>.
  The laws of the two interfaces are the locales \<open>decoder\<close> and \<open>encoder\<close>.  \<open>None\<close> is undefined
  behaviour (a copy that leaves its buffer), a failing assertion or a loop that does not end.
\<close>

section \<open>State\<close>

datatype SIZE_TYPE = TWO_BYTES | FOUR_BYTES

record MessagePipeline =
  headSize :: nat
  maxBodySize :: nat
  headBuf :: "byte list"
  bodyBuf :: "byte list"
  bodySize :: nat
  downflowBuf :: "byte list"
  downflowBufSentNum :: nat

record TcpPipeline = MessagePipeline +
  headNum :: nat
  bodyNum :: nat
  bodySizeOffset :: nat
  bodySizeType :: SIZE_TYPE

definition new_MessagePipeline :: "nat \<Rightarrow> nat \<Rightarrow> MessagePipeline" where
  "new_MessagePipeline hsize maxBody =
     \<lparr>headSize = hsize, maxBodySize = maxBody, headBuf = replicate hsize 0, bodyBuf = replicate maxBody 0,
      bodySize = 0, downflowBuf = [], downflowBufSentNum = 0\<rparr>"

definition new_TcpPipeline :: "nat \<Rightarrow> nat \<Rightarrow> nat \<Rightarrow> SIZE_TYPE \<Rightarrow> TcpPipeline" where
  "new_TcpPipeline hsize maxBody off typ =
     \<lparr>headSize = hsize, maxBodySize = maxBody, headBuf = replicate hsize 0, bodyBuf = replicate maxBody 0,
      bodySize = 0, downflowBuf = [], downflowBufSentNum = 0,
      headNum = 0, bodyNum = 0, bodySizeOffset = off, bodySizeType = typ\<rparr>"

type_synonym ('c, 't) decode_fun = "'c \<Rightarrow> byte list \<Rightarrow> byte list \<Rightarrow> ('c \<times> byte list \<times> 't option) option"

section \<open>TcpPipeline::upflow\<close>

text \<open>
  The two copy steps.  The result says whether the part is complete; when it is not, the chunk is
  used up and the loop breaks.
\<close>

definition tcp_fill_head :: "TcpPipeline \<Rightarrow> byte list \<Rightarrow> nat \<Rightarrow> (TcpPipeline \<times> nat \<times> bool) option" where
  "tcp_fill_head p buf offset =
     (if headNum p < headSize p then
        let needNum = headSize p - headNum p in
        if length buf - offset \<ge> needNum then do {
          hb \<leftarrow> memcpy (headBuf p) (headNum p) (buf_read buf offset needNum);
          Some (p\<lparr>headBuf := hb, headNum := headSize p\<rparr>, offset + needNum, True)
        } else do {
          hb \<leftarrow> memcpy (headBuf p) (headNum p) (buf_read buf offset (length buf - offset));
          Some (p\<lparr>headBuf := hb, headNum := headNum p + (length buf - offset)\<rparr>, offset, False)
        }
      else Some (p, offset, True))"

definition read_body_size :: "endian \<Rightarrow> SIZE_TYPE \<Rightarrow> byte list \<Rightarrow> nat \<Rightarrow> nat option" where
  "read_body_size e typ hb off =
     (case typ of
        TWO_BYTES \<Rightarrow> if off + 2 \<le> length hb then Some (unat (get16 e hb off)) else None
      | FOUR_BYTES \<Rightarrow> if off + 4 \<le> length hb then Some (unat (get32 e hb off)) else None)"

definition tcp_body_size :: "endian \<Rightarrow> TcpPipeline \<Rightarrow> (TcpPipeline \<times> bool) option" where
  "tcp_body_size e p =
     (if bodySize p = 0 then do {
        n \<leftarrow> read_body_size e (bodySizeType p) (headBuf p) (bodySizeOffset p);
        Some (p\<lparr>bodySize := n\<rparr>, n \<le> maxBodySize p)
      }
      else Some (p, True))"

definition tcp_fill_body :: "TcpPipeline \<Rightarrow> byte list \<Rightarrow> nat \<Rightarrow> (TcpPipeline \<times> nat \<times> bool) option" where
  "tcp_fill_body p buf offset =
     (if bodyNum p < bodySize p then
        let needNum = bodySize p - bodyNum p in
        if length buf - offset \<ge> needNum then do {
          bb \<leftarrow> memcpy (bodyBuf p) (bodyNum p) (buf_read buf offset needNum);
          Some (p\<lparr>bodyBuf := bb, bodyNum := bodySize p\<rparr>, offset + needNum, True)
        } else do {
          bb \<leftarrow> memcpy (bodyBuf p) (bodyNum p) (buf_read buf offset (length buf - offset));
          Some (p\<lparr>bodyBuf := bb, bodyNum := bodyNum p + (length buf - offset)\<rparr>, offset, False)
        }
      else Some (p, offset, True))"

text \<open>The call of \<open>decodeFun_\<close> on the two buffers.\<close>

definition decode_body ::
  "('c, 't) decode_fun \<Rightarrow> 'p MessagePipeline_scheme \<Rightarrow> 'c \<Rightarrow> ('p MessagePipeline_scheme \<times> 'c \<times> 't option) option" where
  "decode_body dec p c =
     (if bodySize p \<le> length (bodyBuf p) then do {
        (c, bd, task) \<leftarrow> dec c (headBuf p) (take (bodySize p) (bodyBuf p));
        Some (p\<lparr>bodyBuf := bd @ drop (bodySize p) (bodyBuf p)\<rparr>, c, task)
      }
      else None)"

definition addTask :: "'t list \<Rightarrow> 't option \<Rightarrow> 't list" where
  "addTask q task = (case task of None \<Rightarrow> q | Some t \<Rightarrow> q @ [t])"

partial_function (option) tcp_upflow_loop ::
  "endian \<Rightarrow> ('c, 't) decode_fun \<Rightarrow> ('c \<Rightarrow> bool) \<Rightarrow> byte list \<Rightarrow> nat \<Rightarrow> TcpPipeline \<Rightarrow> 'c \<Rightarrow> 't list \<Rightarrow>
   (TcpPipeline \<times> 'c \<times> 't list \<times> bool) option"
where
  "tcp_upflow_loop e dec isDecodeError buf offset p c q =
     (if length buf > offset then do {
        (p, offset, full) \<leftarrow> tcp_fill_head p buf offset;
        (if \<not> full then Some (p, c, q, True)
         else do {
           (p, fits) \<leftarrow> tcp_body_size e p;
           (if \<not> fits then Some (p, c, q, False)
            else do {
              (p, offset, full) \<leftarrow> tcp_fill_body p buf offset;
              (if \<not> full then Some (p, c, q, True)
               else do {
                 (p, c, task) \<leftarrow> decode_body dec p c;
                 (if isDecodeError c then Some (p, c, q, False)
                  else tcp_upflow_loop e dec isDecodeError buf offset
                         (p\<lparr>headNum := 0, bodyNum := 0, bodySize := 0\<rparr>) c (addTask q task))
               })
            })
         })
      }
      else Some (p, c, q, True))"

definition tcp_upflow ::
  "endian \<Rightarrow> ('c, 't) decode_fun \<Rightarrow> ('c \<Rightarrow> bool) \<Rightarrow> byte list \<Rightarrow> TcpPipeline \<Rightarrow> 'c \<Rightarrow> 't list \<Rightarrow>
   (TcpPipeline \<times> 'c \<times> 't list \<times> bool) option" where
  "tcp_upflow e dec isDecodeError buf p c q = tcp_upflow_loop e dec isDecodeError buf 0 p c q"

section \<open>UdpPipeline::upflow\<close>

definition CORPC_UDP_HANDSHAKE_SIZE :: nat where "CORPC_UDP_HANDSHAKE_SIZE = 4"
definition CORPC_MSG_TYPE_UDP_HANDSHAKE_1 :: u32 where "CORPC_MSG_TYPE_UDP_HANDSHAKE_1 = -111"
definition CORPC_MSG_TYPE_UDP_HANDSHAKE_2 :: u32 where "CORPC_MSG_TYPE_UDP_HANDSHAKE_2 = -112"
definition CORPC_MSG_TYPE_UDP_HANDSHAKE_3 :: u32 where "CORPC_MSG_TYPE_UDP_HANDSHAKE_3 = -113"
definition CORPC_MSG_TYPE_UDP_HANDSHAKE_4 :: u32 where "CORPC_MSG_TYPE_UDP_HANDSHAKE_4 = -114"

text \<open>\<open>::write\<close> on the connection's socket is an argument: the bytes written and its return value.\<close>

definition udp_answer_handshake ::
  "endian \<Rightarrow> ('c \<Rightarrow> byte list \<Rightarrow> int \<times> 'c) \<Rightarrow> byte list \<Rightarrow> 'c \<Rightarrow> ('c \<times> bool) option" where
  "udp_answer_handshake e sys_write buf c =
     (if get32 e buf 0 = CORPC_MSG_TYPE_UDP_HANDSHAKE_3 then do {
        shakemsg4buf \<leftarrow> put32 e (replicate CORPC_UDP_HANDSHAKE_SIZE 0) 0 CORPC_MSG_TYPE_UDP_HANDSHAKE_4;
        let (ret, c) = sys_write c shakemsg4buf;
        Some (c, ret = int CORPC_UDP_HANDSHAKE_SIZE)
      }
      else Some (c, True))"

definition udp_upflow ::
  "endian \<Rightarrow> ('c, 't) decode_fun \<Rightarrow> ('c \<Rightarrow> bool) \<Rightarrow> ('c \<Rightarrow> byte list \<Rightarrow> int \<times> 'c) \<Rightarrow>
   byte list \<Rightarrow> MessagePipeline \<Rightarrow> 'c \<Rightarrow> 't list \<Rightarrow> (MessagePipeline \<times> 'c \<times> 't list \<times> bool) option" where
  "udp_upflow e dec isDecodeError sys_write buf p c q =
     (if length buf = CORPC_UDP_HANDSHAKE_SIZE then do {
        (c, ok) \<leftarrow> udp_answer_handshake e sys_write buf c;
        Some (p, c, q, ok)
      }
      else if length buf < headSize p then Some (p, c, q, False)
      else do {
        hb \<leftarrow> memcpy (headBuf p) 0 (buf_read buf 0 (headSize p));
        let n = length buf - headSize p;
        bb \<leftarrow> (if n \<noteq> 0 then memcpy (bodyBuf p) 0 (buf_read buf (headSize p) n) else Some (bodyBuf p));
        (p, c, task) \<leftarrow> decode_body dec (p\<lparr>headBuf := hb, bodySize := n, bodyBuf := bb\<rparr>) c;
        (if isDecodeError c then Some (p, c, q, False) else Some (p, c, addTask q task, True))
      })"

section \<open>Downflow\<close>

text \<open>
  \<open>encodeFun_(connection, data, buf, space, size, downflowBuf, downflowBufSentNum)\<close>: the slice of
  \<open>space\<close> bytes, the overflow buffer and its counter go in; the return value, the slice as written,
  \<open>size\<close> (0 when the codec leaves it alone), the overflow buffer and the counter come out.
\<close>

type_synonym ('c, 'd) encode_fun =
  "'c \<Rightarrow> 'd \<Rightarrow> byte list \<Rightarrow> byte list \<Rightarrow> nat \<Rightarrow> (bool \<times> byte list \<times> nat \<times> byte list \<times> nat) option"

fun downflow_loop ::
  "('c, 'd) encode_fun \<Rightarrow> 'c \<Rightarrow> 'p MessagePipeline_scheme \<Rightarrow> 'd list \<Rightarrow> byte list \<Rightarrow> nat \<Rightarrow>
   ('p MessagePipeline_scheme \<times> 'd list \<times> byte list \<times> nat \<times> bool) option" where
  "downflow_loop enc c p [] buf sz = Some (p, [], buf, sz, True)"
| "downflow_loop enc c p (d # ds) buf sz = do {
     (ok, sl, tmp, df, sent) \<leftarrow> enc c d (drop sz buf) (downflowBuf p) (downflowBufSentNum p);
     let p = p\<lparr>downflowBuf := df, downflowBufSentNum := sent\<rparr>;
     let buf = take sz buf @ sl;
     (if \<not> ok then Some (p, d # ds, buf, sz, False)
      else if tmp = 0 then Some (p, d # ds, buf, sz, True)
      else downflow_loop enc c p ds buf (sz + tmp))
   }"

text \<open>The first part of \<open>MessagePipeline::downflow\<close>: what is left of a message that did not fit.\<close>

definition downflow_rest ::
  "'p MessagePipeline_scheme \<Rightarrow> byte list \<Rightarrow> ('p MessagePipeline_scheme \<times> byte list \<times> nat) option" where
  "downflow_rest p buf = do {
     let dlen = length (downflowBuf p);
     let sent = downflowBufSentNum p;
     assertion (dlen > sent);
     (if length buf \<ge> dlen - sent then do {
        buf \<leftarrow> memcpy buf 0 (buf_read (downflowBuf p) sent (dlen - sent));
        Some (p\<lparr>downflowBuf := [], downflowBufSentNum := 0\<rparr>, buf, dlen - sent)
      } else do {
        let space = length buf;
        buf \<leftarrow> memcpy buf 0 (buf_read (downflowBuf p) sent space);
        Some (p\<lparr>downflowBufSentNum := sent + space\<rparr>, buf, space)
      })
   }"

definition downflow ::
  "('c, 'd) encode_fun \<Rightarrow> 'c \<Rightarrow> 'p MessagePipeline_scheme \<Rightarrow> 'd list \<Rightarrow> byte list \<Rightarrow>
   ('p MessagePipeline_scheme \<times> 'd list \<times> byte list \<times> nat \<times> bool) option" where
  "downflow enc c p datas buf =
     (if length (downflowBuf p) > 0 then do {
        (p, buf, sz) \<leftarrow> downflow_rest p buf;
        (if length buf = sz then Some (p, datas, buf, sz, True)
         else downflow_loop enc c p datas buf sz)
      }
      else downflow_loop enc c p datas buf 0)"

definition udp_downflow ::
  "('c, 'd) encode_fun \<Rightarrow> 'c \<Rightarrow> MessagePipeline \<Rightarrow> 'd list \<Rightarrow> byte list \<Rightarrow>
   (MessagePipeline \<times> 'd list \<times> byte list \<times> nat \<times> bool) option" where
  "udp_downflow enc c p datas buf =
     (case datas of
        [] \<Rightarrow> Some (p, [], buf, 0, True)
      | d # ds \<Rightarrow> do {
          (ok, buf, tmp, df, sent) \<leftarrow> enc c d buf (downflowBuf p) (downflowBufSentNum p);
          let p = p\<lparr>downflowBuf := df, downflowBufSentNum := sent\<rparr>;
          (if \<not> ok then Some (p, datas, buf, 0, False)
           else if length (downflowBuf p) > 0 then Some (p, datas, buf, 0, False)
           else Some (p, ds, buf, tmp, True))
        })"

section \<open>What a byte stream means\<close>

text \<open>
  The framing parameters of a pipeline, and the messages in a byte stream: \<open>drain\<close> cuts off one
  frame after the other and hands it to the codec until the bytes left are not a whole frame
  (\<open>Waiting\<close> for more) or the frame is too large or not decodable (\<open>Closed\<close>).
\<close>

record framing =
  fr_head :: nat
  fr_max :: nat
  fr_off :: nat
  fr_type :: SIZE_TYPE

definition size_bytes :: "SIZE_TYPE \<Rightarrow> nat" where
  "size_bytes typ = (case typ of TWO_BYTES \<Rightarrow> 2 | FOUR_BYTES \<Rightarrow> 4)"

definition wf_framing :: "framing \<Rightarrow> bool" where
  "wf_framing fr \<longleftrightarrow> 0 < fr_head fr \<and> fr_off fr + size_bytes (fr_type fr) \<le> fr_head fr"

definition frame_size :: "endian \<Rightarrow> framing \<Rightarrow> byte list \<Rightarrow> nat" where
  "frame_size e fr hb = (case fr_type fr of TWO_BYTES \<Rightarrow> unat (get16 e hb (fr_off fr))
                                          | FOUR_BYTES \<Rightarrow> unat (get32 e hb (fr_off fr)))"

datatype ('c, 't) drained = Waiting "byte list" 'c "'t list" | Closed 'c "'t list"

function drain ::
  "endian \<Rightarrow> framing \<Rightarrow> ('c, 't) decode_fun \<Rightarrow> ('c \<Rightarrow> bool) \<Rightarrow> byte list \<Rightarrow> 'c \<Rightarrow> 't list \<Rightarrow> ('c, 't) drained option"
where
  "drain e fr dec err bytes c q =
     (if fr_head fr = 0 then None
      else if length bytes < fr_head fr then Some (Waiting bytes c q)
      else let hb = take (fr_head fr) bytes; n = frame_size e fr hb in
        if fr_max fr < n then Some (Closed c q)
        else if length bytes < fr_head fr + n then Some (Waiting bytes c q)
        else (case dec c hb (take n (drop (fr_head fr) bytes)) of
            None \<Rightarrow> None
          | Some (c, _, task) \<Rightarrow>
              if err c then Some (Closed c q)
              else drain e fr dec err (drop (fr_head fr + n) bytes) c (addTask q task)))"
  by pat_completeness auto
termination
  by (relation "measure (\<lambda>(e, fr, dec, err, bytes, c, q). length bytes)") auto

declare drain.simps [simp del]

text \<open>
  The pipeline object holds the pending bytes of an incomplete frame: its head buffer up to
  \<open>headNum_\<close>, then its body buffer up to \<open>bodyNum_\<close>.
\<close>

definition tcp_config :: "framing \<Rightarrow> TcpPipeline \<Rightarrow> bool" where
  "tcp_config fr p \<longleftrightarrow>
     headSize p = fr_head fr \<and> maxBodySize p = fr_max fr \<and> bodySizeOffset p = fr_off fr
     \<and> bodySizeType p = fr_type fr \<and> length (headBuf p) = fr_head fr \<and> length (bodyBuf p) = fr_max fr"

definition tcp_pending :: "endian \<Rightarrow> framing \<Rightarrow> TcpPipeline \<Rightarrow> byte list \<Rightarrow> bool" where
  "tcp_pending e fr p pend \<longleftrightarrow>
     tcp_config fr p \<and> pend = take (headNum p) (headBuf p) @ take (bodyNum p) (bodyBuf p)
     \<and> (headNum p < fr_head fr \<and> bodyNum p = 0 \<and> bodySize p = 0
        \<or> headNum p = fr_head fr \<and> bodySize p = frame_size e fr (headBuf p)
          \<and> bodySize p \<le> fr_max fr \<and> bodyNum p < bodySize p)"

definition upflow_agrees ::
  "endian \<Rightarrow> framing \<Rightarrow> (TcpPipeline \<times> 'c \<times> 't list \<times> bool) option \<Rightarrow> ('c, 't) drained option \<Rightarrow> bool" where
  "upflow_agrees e fr res d \<longleftrightarrow>
     (case d of
        None \<Rightarrow> res = None
      | Some (Waiting pend c q) \<Rightarrow> (\<exists>p. res = Some (p, c, q, True) \<and> tcp_pending e fr p pend)
      | Some (Closed c q) \<Rightarrow> (\<exists>p. res = Some (p, c, q, False)))"

lemma new_TcpPipeline_pending:
  "0 < hsize \<Longrightarrow>
   tcp_pending e \<lparr>fr_head = hsize, fr_max = mx, fr_off = off, fr_type = typ\<rparr> (new_TcpPipeline hsize mx off typ) []"
  by (simp add: tcp_pending_def tcp_config_def new_TcpPipeline_def)

lemma read_body_size_frame:
  "wf_framing fr \<Longrightarrow> tcp_config fr p \<Longrightarrow>
   read_body_size e (bodySizeType p) (headBuf p) (bodySizeOffset p) = Some (frame_size e fr (headBuf p))"
  by (auto simp: wf_framing_def tcp_config_def read_body_size_def frame_size_def size_bytes_def
      split: SIZE_TYPE.splits)

text \<open>Reading fields of a head that is the beginning of a longer list of bytes.\<close>

lemma fill_head_partial:
  assumes "tcp_config fr p" "headNum p < fr_head fr" "offset \<le> length buf"
    "length buf - offset < fr_head fr - headNum p"
  shows "\<exists>p'. tcp_fill_head p buf offset = Some (p', offset, False) \<and> tcp_config fr p'
     \<and> take (headNum p') (headBuf p') = take (headNum p) (headBuf p) @ drop offset buf
     \<and> headNum p' < fr_head fr \<and> bodyNum p' = bodyNum p \<and> bodySize p' = bodySize p"
  using assms
  by (auto simp: tcp_fill_head_def tcp_config_def mem_simps buf_read_def take_buf_write Let_def)
     (simp add: buf_write_def)

lemma fill_head_complete:
  assumes "tcp_config fr p" "headNum p < fr_head fr" "offset \<le> length buf"
    "fr_head fr - headNum p \<le> length buf - offset"
  shows "\<exists>p'. tcp_fill_head p buf offset = Some (p', offset + (fr_head fr - headNum p), True) \<and> tcp_config fr p'
     \<and> headBuf p' = take (headNum p) (headBuf p) @ take (fr_head fr - headNum p) (drop offset buf)
     \<and> headNum p' = fr_head fr \<and> bodyNum p' = bodyNum p \<and> bodySize p' = bodySize p \<and> bodyBuf p' = bodyBuf p"
  using assms
  by (auto simp: tcp_fill_head_def tcp_config_def mem_simps buf_read_def Let_def)
     (simp add: buf_write_def)

lemma fill_body_partial:
  assumes "tcp_config fr p" "bodySize p \<le> fr_max fr" "offset \<le> length buf"
    "length buf - offset < bodySize p - bodyNum p"
  shows "\<exists>p'. tcp_fill_body p buf offset = Some (p', offset, False) \<and> tcp_config fr p'
     \<and> take (bodyNum p') (bodyBuf p') = take (bodyNum p) (bodyBuf p) @ drop offset buf
     \<and> bodyNum p' < bodySize p \<and> headNum p' = headNum p \<and> headBuf p' = headBuf p \<and> bodySize p' = bodySize p"
  using assms
  by (auto simp: tcp_fill_body_def tcp_config_def mem_simps buf_read_def take_buf_write Let_def)
     (simp add: buf_write_def)

lemma fill_body_complete:
  assumes "tcp_config fr p" "bodySize p \<le> fr_max fr" "offset \<le> length buf" "bodyNum p \<le> bodySize p"
    "bodySize p - bodyNum p \<le> length buf - offset"
  shows "\<exists>p'. tcp_fill_body p buf offset = Some (p', offset + (bodySize p - bodyNum p), True) \<and> tcp_config fr p'
     \<and> take (bodySize p) (bodyBuf p')
         = take (bodyNum p) (bodyBuf p) @ take (bodySize p - bodyNum p) (drop offset buf)
     \<and> headBuf p' = headBuf p \<and> bodySize p' = bodySize p"
proof (cases "bodyNum p = bodySize p")
  case True
  with assms show ?thesis by (auto simp: tcp_fill_body_def)
next
  case False
  with assms show ?thesis
    by (auto simp: tcp_fill_body_def tcp_config_def mem_simps buf_read_def Let_def)
       (simp add: buf_write_def)
qed

lemma frame_size_take:
  "wf_framing fr \<Longrightarrow> length hb = fr_head fr \<Longrightarrow> frame_size e fr (take (fr_head fr) (hb @ rest)) = frame_size e fr hb"
  by simp

lemma drain_pending:
  assumes "wf_framing fr" "tcp_pending e fr p pend"
  shows "drain e fr dec err pend c q = Some (Waiting pend c q)"
  using assms by (subst drain.simps) (auto simp: tcp_pending_def tcp_config_def wf_framing_def Let_def)

lemma drain_frame:
  assumes "0 < fr_head fr" "length hb = fr_head fr" "n = frame_size e fr hb" "n \<le> fr_max fr" "length bd = n"
  shows "drain e fr dec err (hb @ bd @ rest) c q =
     (case dec c hb bd of
        None \<Rightarrow> None
      | Some (c, _, task) \<Rightarrow>
          if err c then Some (Closed c q) else drain e fr dec err rest c (addTask q task))"
  using assms by (subst drain.simps) (auto simp: Let_def split: option.split)

text \<open>
  What the pipelines rely on: a codec leaves the size of the body alone.  It may rely in turn on a
  property \<open>conn_ok\<close> of the connection, which it keeps.
\<close>

locale decoder =
  fixes dec :: "('c, 't) decode_fun" and conn_ok :: "'c \<Rightarrow> bool"
  assumes decode_length: "conn_ok c \<Longrightarrow> dec c hb bd = Some (c', bd', task) \<Longrightarrow> length bd' = length bd"
    and decode_conn: "conn_ok c \<Longrightarrow> dec c hb bd = Some (c', bd', task) \<Longrightarrow> conn_ok c'"
begin

lemma decode_body_config:
  assumes "tcp_config fr p" "bodySize p \<le> fr_max fr" "conn_ok c"
    "dec c (headBuf p) (take (bodySize p) (bodyBuf p)) = Some (c', bd, task)"
  shows "\<exists>p'. decode_body dec p c = Some (p', c', task) \<and> tcp_config fr p'"
  using assms decode_length [OF assms(3,4)] by (auto simp: decode_body_def tcp_config_def)

lemma body_stage:
  assumes fr: "wf_framing fr" and p: "tcp_config fr p" "headNum p = fr_head fr"
      "bodySize p = frame_size e fr (headBuf p)" "bodySize p \<le> fr_max fr" "bodyNum p \<le> bodySize p"
    and buf: "offset \<le> length buf" and c: "conn_ok c"
    and later: "\<And>p1 c q. tcp_pending e fr p1 [] \<Longrightarrow> conn_ok c \<Longrightarrow> bodySize p - bodyNum p \<le> length buf - offset \<Longrightarrow>
      upflow_agrees e fr (tcp_upflow_loop e dec err buf (offset + (bodySize p - bodyNum p)) p1 c q)
        (drain e fr dec err (drop (offset + (bodySize p - bodyNum p)) buf) c q)"
  shows "upflow_agrees e fr
     (do { (p, offset, full) \<leftarrow> tcp_fill_body p buf offset;
           (if \<not> full then Some (p, c, q, True)
            else do {
              (p, c, task) \<leftarrow> decode_body dec p c;
              (if err c then Some (p, c, q, False)
               else tcp_upflow_loop e dec err buf offset
                      (p\<lparr>headNum := 0, bodyNum := 0, bodySize := 0\<rparr>) c (addTask q task))
            }) })
     (drain e fr dec err (headBuf p @ take (bodyNum p) (bodyBuf p) @ drop offset buf) c q)"
proof -
  let ?need = "bodySize p - bodyNum p"
  let ?bytes = "headBuf p @ take (bodyNum p) (bodyBuf p) @ drop offset buf"
  have hb: "length (headBuf p) = fr_head fr" "length (take (bodyNum p) (bodyBuf p)) = bodyNum p" "0 < fr_head fr"
    using p fr by (auto simp: tcp_config_def wf_framing_def)
  show ?thesis
  proof (cases "?need \<le> length buf - offset")
    case False
    then obtain p1 where p1: "tcp_fill_body p buf offset = Some (p1, offset, False)" "tcp_config fr p1"
        "take (bodyNum p1) (bodyBuf p1) = take (bodyNum p) (bodyBuf p) @ drop offset buf"
        "bodyNum p1 < bodySize p" "headNum p1 = headNum p" "headBuf p1 = headBuf p" "bodySize p1 = bodySize p"
      using fill_body_partial [OF p(1,4) buf] by auto
    have pend: "tcp_pending e fr p1 ?bytes" using p p1 hb by (auto simp: tcp_pending_def)
    with p1(1) show ?thesis by (simp add: upflow_agrees_def drain_pending [OF fr pend])
  next
    case True
    then obtain p1 where p1: "tcp_fill_body p buf offset = Some (p1, offset + ?need, True)" "tcp_config fr p1"
        "take (bodySize p) (bodyBuf p1) = take (bodyNum p) (bodyBuf p) @ take ?need (drop offset buf)"
        "headBuf p1 = headBuf p" "bodySize p1 = bodySize p"
      using fill_body_complete [OF p(1,4) buf p(5)] by auto
    have "drop offset buf = take ?need (drop offset buf) @ drop (offset + ?need) buf"
      by (metis add.commute append_take_drop_id drop_drop)
    then have bytes: "?bytes = headBuf p @ take (bodySize p) (bodyBuf p1) @ drop (offset + ?need) buf"
      using p1(3) by simp
    have "length (take (bodySize p) (bodyBuf p1)) = bodySize p"
      using p1(2) p(4) by (simp add: tcp_config_def)
    note dr = drain_frame [OF hb(3,1) p(3,4) this, of dec err "drop (offset + ?need) buf" c q, folded bytes]
    show ?thesis
    proof (cases "dec c (headBuf p) (take (bodySize p) (bodyBuf p1))")
      case None
      then have "decode_body dec p1 c = None" using p1(4,5) by (simp add: decode_body_def)
      with None p1(1) show ?thesis by (simp add: dr upflow_agrees_def)
    next
      case (Some r)
      then obtain c1 bd task where r: "dec c (headBuf p) (take (bodySize p) (bodyBuf p1)) = Some (c1, bd, task)"
        by (cases r) auto
      then obtain p2 where p2: "decode_body dec p1 c = Some (p2, c1, task)" "tcp_config fr p2"
        using decode_body_config [OF p1(2) _ c] p1(4,5) p(4) by auto
      have "tcp_pending e fr (p2\<lparr>headNum := 0, bodyNum := 0, bodySize := 0\<rparr>) []"
        using p2(2) hb(3) by (simp add: tcp_pending_def tcp_config_def)
      from later [OF this decode_conn [OF c r]] True p1(1) p2(1) r show ?thesis
        by (simp add: dr upflow_agrees_def)
    qed
  qed
qed

lemma tcp_upflow_loop_drains:
  "wf_framing fr \<Longrightarrow> tcp_pending e fr p pend \<Longrightarrow> offset \<le> length buf \<Longrightarrow> conn_ok c \<Longrightarrow>
   upflow_agrees e fr (tcp_upflow_loop e dec err buf offset p c q)
     (drain e fr dec err (pend @ drop offset buf) c q)"
proof (induction "length buf - offset" arbitrary: offset p c q pend rule: less_induct)
  case less
  note fr = less.prems(1) and off = less.prems(3)
  note pend = less.prems(2) and c = less.prems(4)
  show ?case
  proof (cases "offset < length buf")
    case False
    then show ?thesis
      using pend off by (subst tcp_upflow_loop.simps) (simp add: upflow_agrees_def drain_pending [OF fr pend])
  next
    case more: True
    have cfg: "tcp_config fr p" using pend by (simp add: tcp_pending_def)
    have later: "upflow_agrees e fr (tcp_upflow_loop e dec err buf offset' p1 c q)
          (drain e fr dec err (drop offset' buf) c q)"
      if "tcp_pending e fr p1 []" "conn_ok c" "offset < offset'" "offset' \<le> length buf" for p1 c q offset'
      using less.hyps [of offset' p1 "[]" c q] that more fr by simp
    consider (partial) "headNum p < fr_head fr" "length buf - offset < fr_head fr - headNum p"
      | (complete) "headNum p < fr_head fr" "fr_head fr - headNum p \<le> length buf - offset"
      | (body) "headNum p = fr_head fr" using pend by (auto simp: tcp_pending_def) (meson not_le)
    then show ?thesis
    proof cases
      case partial
      obtain p1 where p1: "tcp_fill_head p buf offset = Some (p1, offset, False)" "tcp_config fr p1"
          "take (headNum p1) (headBuf p1) = take (headNum p) (headBuf p) @ drop offset buf"
          "headNum p1 < fr_head fr" "bodyNum p1 = bodyNum p" "bodySize p1 = bodySize p"
        using fill_head_partial [OF cfg partial(1) off partial(2)] by auto
      have "tcp_pending e fr p1 (pend @ drop offset buf)"
        using pend p1 partial(1) by (auto simp: tcp_pending_def)
      then show ?thesis
        using p1(1) more by (subst tcp_upflow_loop.simps) (simp add: upflow_agrees_def drain_pending [OF fr])
    next
      case complete
      let ?o = "offset + (fr_head fr - headNum p)"
      obtain p1 where p1: "tcp_fill_head p buf offset = Some (p1, ?o, True)" "tcp_config fr p1"
          "headBuf p1 = take (headNum p) (headBuf p) @ take (fr_head fr - headNum p) (drop offset buf)"
          "headNum p1 = fr_head fr" "bodyNum p1 = bodyNum p" "bodySize p1 = bodySize p"
        using fill_head_complete [OF cfg complete(1) off complete(2)] by auto
      let ?n = "frame_size e fr (headBuf p1)"
      let ?p2 = "p1\<lparr>bodySize := ?n\<rparr>"
      have z: "bodyNum p1 = 0" "bodySize p1 = 0" using pend p1 complete(1) by (auto simp: tcp_pending_def)
      have bytes: "pend @ drop offset buf = headBuf p1 @ drop ?o buf"
        using pend complete(1) p1(3)
        by (auto simp: tcp_pending_def) (metis add.commute append_take_drop_id drop_drop diff_add_assoc less_imp_le)
      have sz: "tcp_body_size e p1 = Some (?p2, ?n \<le> fr_max fr)"
        using z p1(2) read_body_size_frame [OF fr p1(2), of e] by (simp add: tcp_body_size_def tcp_config_def)
      show ?thesis
      proof (cases "?n \<le> fr_max fr")
        case False
        moreover have "drain e fr dec err (headBuf p1 @ drop ?o buf) c q = Some (Closed c q)"
          using False p1(2) fr by (subst drain.simps) (simp add: tcp_config_def wf_framing_def Let_def)
        ultimately show ?thesis
          using p1(1) sz more bytes by (subst tcp_upflow_loop.simps) (simp add: upflow_agrees_def)
      next
        case True
        have cfg2: "tcp_config fr ?p2" using p1(2) by (simp add: tcp_config_def)
        from True body_stage [OF fr cfg2, of e ?o buf c err q] p1 z c complete more off later
        show ?thesis unfolding bytes
          by (subst tcp_upflow_loop.simps) (simp add: sz p1(1))
      qed
    next
      case body
      have st: "bodySize p = frame_size e fr (headBuf p)" "bodySize p \<le> fr_max fr" "bodyNum p < bodySize p"
          "pend = headBuf p @ take (bodyNum p) (bodyBuf p)"
        using pend body by (auto simp: tcp_pending_def tcp_config_def)
      have "tcp_fill_head p buf offset = Some (p, offset, True)" "tcp_body_size e p = Some (p, True)"
        using body cfg st by (auto simp: tcp_fill_head_def tcp_body_size_def tcp_config_def)
      with body_stage [OF fr cfg body st(1,2) less_imp_le [OF st(3)] off c, of err q] more st(3) later show ?thesis
        by (subst tcp_upflow_loop.simps) (simp add: st(4))
    qed
  qed
qed

lemma tcp_upflow_drains:
  assumes "wf_framing fr" "tcp_pending e fr p pend" "conn_ok c"
  shows "upflow_agrees e fr (tcp_upflow e dec err buf p c q) (drain e fr dec err (pend @ buf) c q)"
  using tcp_upflow_loop_drains [OF assms(1,2) _ assms(3), of 0 buf err q] by (simp add: tcp_upflow_def)

end

section \<open>Chunks\<close>

text \<open>The receiving routine calls \<open>upflow\<close> for every chunk it reads and stops at the first failure.\<close>

fun tcp_upflow_all ::
  "endian \<Rightarrow> ('c, 't) decode_fun \<Rightarrow> ('c \<Rightarrow> bool) \<Rightarrow> byte list list \<Rightarrow> TcpPipeline \<Rightarrow> 'c \<Rightarrow> 't list \<Rightarrow>
   (TcpPipeline \<times> 'c \<times> 't list \<times> bool) option" where
  "tcp_upflow_all e dec err [] p c q = Some (p, c, q, True)"
| "tcp_upflow_all e dec err (chunk # chunks) p c q = do {
     (p, c, q, ok) \<leftarrow> tcp_upflow e dec err chunk p c q;
     (if ok then tcp_upflow_all e dec err chunks p c q else Some (p, c, q, False))
   }"

lemma drain_append:
  assumes "fr_head fr > 0"
  shows "drain e fr dec err (xs @ ys) c q =
     (case drain e fr dec err xs c q of
        None \<Rightarrow> None
      | Some (Waiting pend c q) \<Rightarrow> drain e fr dec err (pend @ ys) c q
      | Some (Closed c q) \<Rightarrow> Some (Closed c q))"
  using assms
proof (induction e fr dec err xs c q rule: drain.induct)
  case (1 e fr dec err xs c q)
  let ?n = "frame_size e fr (take (fr_head fr) xs)"
  show ?case
  proof (cases "length xs < fr_head fr \<or> fr_max fr \<ge> ?n \<and> length xs < fr_head fr + ?n")
    case True
    then have "drain e fr dec err xs c q = Some (Waiting xs c q)"
      using "1.prems" by (subst drain.simps) (auto simp: Let_def)
    then show ?thesis by simp
  next
    case False
    show ?thesis
    proof (cases "fr_max fr < ?n")
      case True
      with False have "drain e fr dec err zs c q = Some (Closed c q)" if "zs = xs \<or> zs = xs @ ys" for zs
        using "1.prems" that by (subst drain.simps) (auto simp: Let_def)
      then show ?thesis by simp
    next
      case small: False
      have split: "xs = take (fr_head fr) xs @ take ?n (drop (fr_head fr) xs) @ drop (fr_head fr + ?n) xs"
        by (metis add.commute append_take_drop_id drop_drop)
      have fr: "drain e fr dec err (take (fr_head fr) xs @ take ?n (drop (fr_head fr) xs) @ rest) c q =
         (case dec c (take (fr_head fr) xs) (take ?n (drop (fr_head fr) xs)) of
            None \<Rightarrow> None
          | Some (c, _, task) \<Rightarrow>
              if err c then Some (Closed c q) else drain e fr dec err rest c (addTask q task))" for rest
        using False small "1.prems" by (intro drain_frame) auto
      show ?thesis
      proof (cases "dec c (take (fr_head fr) xs) (take ?n (drop (fr_head fr) xs))")
        case None
        with fr [of "drop (fr_head fr + ?n) xs"] fr [of "drop (fr_head fr + ?n) xs @ ys"] show ?thesis
          by (simp flip: split) (metis append.assoc split)
      next
        case (Some r)
        then obtain c1 bd task where r: "dec c (take (fr_head fr) xs) (take ?n (drop (fr_head fr) xs)) = Some (c1, bd, task)"
          by (cases r) auto
        have "drain e fr dec err xs c q = (if err c1 then Some (Closed c1 q)
            else drain e fr dec err (drop (fr_head fr + ?n) xs) c1 (addTask q task))"
          using fr [of "drop (fr_head fr + ?n) xs"] r by (simp flip: split)
        moreover have "drain e fr dec err (xs @ ys) c q = (if err c1 then Some (Closed c1 q)
            else drain e fr dec err (drop (fr_head fr + ?n) xs @ ys) c1 (addTask q task))"
          using fr [of "drop (fr_head fr + ?n) xs @ ys"] r by simp (metis append.assoc split)
        moreover have "\<not> err c1 \<Longrightarrow> drain e fr dec err (drop (fr_head fr + ?n) xs @ ys) c1 (addTask q task) =
           (case drain e fr dec err (drop (fr_head fr + ?n) xs) c1 (addTask q task) of
              None \<Rightarrow> None
            | Some (Waiting pend c q) \<Rightarrow> drain e fr dec err (pend @ ys) c q
            | Some (Closed c q) \<Rightarrow> Some (Closed c q))"
          using False small "1.prems" r by (intro "1.IH") auto
        ultimately show ?thesis by simp
      qed
    qed
  qed
qed

context decoder
begin

lemma drain_conn_ok:
  "conn_ok c \<Longrightarrow> drain e fr dec err bytes c q = Some (Waiting pend c' q') \<Longrightarrow> conn_ok c'"
proof (induction bytes arbitrary: c q rule: measure_induct_rule [of length])
  case (less bytes)
  let ?n = "frame_size e fr (take (fr_head fr) bytes)"
  show ?case
  proof (cases "fr_head fr = 0 \<or> length bytes < fr_head fr \<or> fr_max fr < ?n \<or> length bytes < fr_head fr + ?n")
    case True
    with less.prems show ?thesis by (subst (asm) drain.simps) (auto simp: Let_def split: if_splits)
  next
    case False
    with less.prems obtain c1 bd task where
      "dec c (take (fr_head fr) bytes) (take ?n (drop (fr_head fr) bytes)) = Some (c1, bd, task)"
      "drain e fr dec err (drop (fr_head fr + ?n) bytes) c1 (addTask q task) = Some (Waiting pend c' q')"
      by (subst (asm) drain.simps) (auto simp: Let_def split: if_splits option.splits)
    with False less.IH [of "drop (fr_head fr + ?n) bytes" c1] decode_conn [OF less.prems(1)] show ?thesis by auto
  qed
qed

lemma tcp_upflow_all_drains:
  assumes "wf_framing fr" "tcp_pending e fr p pend" "conn_ok c"
  shows "upflow_agrees e fr (tcp_upflow_all e dec err chunks p c q)
           (drain e fr dec err (pend @ concat chunks) c q)"
  using assms
proof (induction chunks arbitrary: p pend c q)
  case Nil
  then show ?case by (simp add: drain_pending [OF Nil(1,2)] upflow_agrees_def)
next
  case (Cons chunk chunks)
  have pos: "fr_head fr > 0" using Cons.prems(1) by (simp add: wf_framing_def)
  have step: "upflow_agrees e fr (tcp_upflow e dec err chunk p c q) (drain e fr dec err (pend @ chunk) c q)"
    using Cons.prems by (rule tcp_upflow_drains)
  have total: "drain e fr dec err (pend @ concat (chunk # chunks)) c q =
     (case drain e fr dec err (pend @ chunk) c q of
        None \<Rightarrow> None
      | Some (Waiting pend c q) \<Rightarrow> drain e fr dec err (pend @ concat chunks) c q
      | Some (Closed c q) \<Rightarrow> Some (Closed c q))"
    using drain_append [OF pos, of e dec err "pend @ chunk" "concat chunks" c q] by simp
  show ?case
  proof (cases "drain e fr dec err (pend @ chunk) c q")
    case None
    with step show ?thesis unfolding total by (simp add: upflow_agrees_def)
  next
    case (Some d)
    show ?thesis
    proof (cases d)
      case (Waiting pend1 c1 q1)
      with Some step obtain p1 where p1: "tcp_upflow e dec err chunk p c q = Some (p1, c1, q1, True)"
          "tcp_pending e fr p1 pend1"
        by (auto simp: upflow_agrees_def)
      with Cons.IH [OF Cons.prems(1) p1(2), of c1 q1] drain_conn_ok [OF Cons.prems(3)] Some Waiting show ?thesis unfolding total by simp
    next
      case (Closed c1 q1)
      with Some step show ?thesis unfolding total by (auto simp: upflow_agrees_def)
    qed
  qed
qed

end

section \<open>The stream a sender writes\<close>

text \<open>
  What the pipelines rely on of an encoder: the bytes \<open>wire c d\<close> of one message start with a head of
  fixed size; a slice too small for the head is left alone, and otherwise the slice receives as much
  of the bytes as fits, the rest going to the overflow buffer, which is empty before.  \<open>valid c d\<close> restricts the messages to
  the ones the library itself builds.
\<close>

locale encoder =
  fixes enc :: "('c, 'd) encode_fun" and wire :: "'c \<Rightarrow> 'd \<Rightarrow> byte list option" and hsize :: nat
    and valid :: "'c \<Rightarrow> 'd \<Rightarrow> bool"
  assumes hsize_pos: "0 < hsize"
    and wire_head: "valid c d \<Longrightarrow> wire c d = Some w \<Longrightarrow> hsize \<le> length w"
    and enc_wait: "valid c d \<Longrightarrow> length buf < hsize \<Longrightarrow> enc c d buf df sent = Some (True, buf, 0, df, sent)"
    and enc_fail: "valid c d \<Longrightarrow> hsize \<le> length buf \<Longrightarrow> wire c d = None \<Longrightarrow>
      enc c d buf df sent = Some (False, buf, 0, df, sent)"
    and enc_fits: "valid c d \<Longrightarrow> hsize \<le> length buf \<Longrightarrow> wire c d = Some w \<Longrightarrow> length w \<le> length buf \<Longrightarrow>
      enc c d buf df sent = Some (True, w @ drop (length w) buf, length w, df, sent)"
    and enc_split: "valid c d \<Longrightarrow> hsize \<le> length buf \<Longrightarrow> wire c d = Some w \<Longrightarrow> length buf < length w \<Longrightarrow>
      \<exists>df' sent'. enc c d buf [] 0 = Some (True, take (length buf) w, length buf, df', sent')
        \<and> sent' < length df' \<and> drop sent' df' = drop (length buf) w"

text \<open>The overflow buffer is empty or has bytes left to send.\<close>

definition overflow_ok :: "'p MessagePipeline_scheme \<Rightarrow> bool" where
  "overflow_ok p \<longleftrightarrow> (downflowBuf p = [] \<and> downflowBufSentNum p = 0) \<or> downflowBufSentNum p < length (downflowBuf p)"

definition unsent :: "'p MessagePipeline_scheme \<Rightarrow> byte list" where
  "unsent p = drop (downflowBufSentNum p) (downflowBuf p)"

definition frames :: "('c \<Rightarrow> 'd \<Rightarrow> byte list option) \<Rightarrow> 'c \<Rightarrow> 'd list \<Rightarrow> byte list" where
  "frames wire c ds = concat (map (\<lambda>d. the (wire c d)) ds)"

text \<open>
  One call of \<open>downflow\<close>: \<open>sent\<close> are the messages it took off the queue.  Unless the front message
  cannot be encoded, the call makes progress.
\<close>

definition downflow_streams ::
  "('c \<Rightarrow> 'd \<Rightarrow> byte list option) \<Rightarrow> nat \<Rightarrow> 'c \<Rightarrow> byte list \<Rightarrow> 'd list \<Rightarrow> byte list \<Rightarrow>
   ('p MessagePipeline_scheme \<times> 'd list \<times> byte list \<times> nat \<times> bool) option \<Rightarrow> bool" where
  "downflow_streams wire hsize c before datas buf res \<longleftrightarrow>
     (\<exists>p datas' buf' n ok sent. res = Some (p, datas', buf', n, ok) \<and> length buf' = length buf \<and> n \<le> length buf
       \<and> overflow_ok p \<and> (unsent p \<noteq> [] \<longrightarrow> n = length buf) \<and> datas = sent @ datas'
       \<and> (\<forall>d\<in>set sent. wire c d \<noteq> None)
       \<and> before @ frames wire c sent = take n buf' @ unsent p
       \<and> (if ok then datas' = [] \<or> length buf < n + hsize
          else datas' \<noteq> [] \<and> wire c (hd datas') = None))"

lemma unsent_Nil_iff: "overflow_ok p \<Longrightarrow> unsent p = [] \<longleftrightarrow> downflowBuf p = [] \<and> downflowBufSentNum p = 0"
  by (auto simp: overflow_ok_def unsent_def)

lemma downflow_streams_stop:
  assumes "overflow_ok p" "unsent p \<noteq> [] \<longrightarrow> sz = length buf" "sz \<le> length buf"
    "if ok then datas = [] \<or> length buf < sz + hsize else datas \<noteq> [] \<and> wire c (hd datas) = None"
  shows "downflow_streams wire hsize c (take sz buf @ unsent p) datas buf (Some (p, datas, buf, sz, ok))"
proof -
  have "datas = [] @ datas" "\<forall>d\<in>set []. wire c d \<noteq> None"
    "(take sz buf @ unsent p) @ frames wire c [] = take sz buf @ unsent p"
    by (simp_all add: frames_def)
  with assms show ?thesis unfolding downflow_streams_def by blast
qed

lemma downflow_streams_Cons:
  assumes "downflow_streams wire hsize c (x @ w) ds buf' res" "wire c d = Some w" "length buf' = length buf"
  shows "downflow_streams wire hsize c x (d # ds) buf res"
proof -
  obtain p datas' buf1 n ok sent where r: "res = Some (p, datas', buf1, n, ok)" "length buf1 = length buf"
      "n \<le> length buf" "overflow_ok p" "unsent p \<noteq> [] \<longrightarrow> n = length buf" "ds = sent @ datas'"
      "\<forall>d\<in>set sent. wire c d \<noteq> None" "(x @ w) @ frames wire c sent = take n buf1 @ unsent p"
      "if ok then datas' = [] \<or> length buf < n + hsize else datas' \<noteq> [] \<and> wire c (hd datas') = None"
    using assms(1) unfolding downflow_streams_def assms(3) by blast
  then have "d # ds = (d # sent) @ datas'" "\<forall>d\<in>set (d # sent). wire c d \<noteq> None"
    "x @ frames wire c (d # sent) = take n buf1 @ unsent p"
    using assms(2) by (simp_all add: frames_def)
  with r show ?thesis unfolding downflow_streams_def by blast
qed

context encoder
begin

lemma downflow_loop_streams:
  "\<forall>d\<in>set datas. valid c d \<Longrightarrow> overflow_ok p \<Longrightarrow> unsent p \<noteq> [] \<longrightarrow> sz = length buf \<Longrightarrow> sz \<le> length buf \<Longrightarrow>
   downflow_streams wire hsize c (take sz buf @ unsent p) datas buf (downflow_loop enc c p datas buf sz)"
proof (induction datas arbitrary: p buf sz)
  case Nil
  then show ?case by (simp add: downflow_streams_stop)
next
  case (Cons d ds)
  have v: "valid c d" using Cons.prems by simp
  show ?case
  proof (cases "length buf - sz < hsize")
    case True
    then have "enc c d (drop sz buf) df k = Some (True, drop sz buf, 0, df, k)" for df k
      using enc_wait [OF v] by simp
    then have "downflow_loop enc c p (d # ds) buf sz = Some (p, d # ds, buf, sz, True)" by (simp add: Let_def)
    with True Cons.prems show ?thesis by (simp only:) (rule downflow_streams_stop, auto)
  next
    case False
    then have empty: "downflowBuf p = []" "downflowBufSentNum p = 0" "unsent p = []"
      using Cons.prems hsize_pos by (auto simp: unsent_Nil_iff [symmetric] unsent_def overflow_ok_def)
    have same: "p\<lparr>downflowBuf := [], downflowBufSentNum := 0\<rparr> = p" using empty(1,2) by (cases p) simp
    show ?thesis
    proof (cases "wire c d")
      case None
      then have "enc c d (drop sz buf) df k = Some (False, drop sz buf, 0, df, k)" for df k
        using enc_fail [OF v] False by simp
      then have "downflow_loop enc c p (d # ds) buf sz = Some (p, d # ds, buf, sz, False)"
        using empty by (simp add: Let_def same)
      with None Cons.prems show ?thesis by (simp only:) (rule downflow_streams_stop, auto)
    next
      case (Some w)
      have w: "hsize \<le> length w" using wire_head [OF v Some] .
      show ?thesis
      proof (cases "length w \<le> length buf - sz")
        case True
        let ?buf = "take sz buf @ w @ drop (length w) (drop sz buf)"
        have "enc c d (drop sz buf) df k = Some (True, w @ drop (length w) (drop sz buf), length w, df, k)" for df k
          using enc_fits [OF v _ Some, of "drop sz buf"] False True by simp
        then have run: "downflow_loop enc c p (d # ds) buf sz = downflow_loop enc c p ds ?buf (sz + length w)"
          using w hsize_pos empty by (auto simp: Let_def same)
        have str: "downflow_streams wire hsize c (take (sz + length w) ?buf @ unsent p) ds ?buf
            (downflow_loop enc c p ds ?buf (sz + length w))"
          using Cons.prems empty True by (intro Cons.IH) auto
        have eq: "take (sz + length w) ?buf @ unsent p = take sz buf @ w" and len: "length ?buf = length buf"
          using True Cons.prems(4) empty by simp_all
        show ?thesis unfolding run empty append_Nil2
          using str [unfolded eq] Some len by (rule downflow_streams_Cons)
      next
        case no_fit: False
        obtain df' sent' where e: "enc c d (drop sz buf) (downflowBuf p) (downflowBufSentNum p)
              = Some (True, take (length (drop sz buf)) w, length (drop sz buf), df', sent')"
            "sent' < length df'" "drop sent' df' = drop (length (drop sz buf)) w"
          using enc_split [OF v _ Some, of "drop sz buf"] False no_fit empty by auto
        let ?p = "p\<lparr>downflowBuf := df', downflowBufSentNum := sent'\<rparr>"
        let ?buf = "take sz buf @ take (length buf - sz) w"
        have p: "overflow_ok ?p" "unsent ?p = drop (length buf - sz) w"
          using e by (simp_all add: overflow_ok_def unsent_def)
        have buf: "length ?buf = length buf" using no_fit Cons.prems(4) by simp
        have run: "downflow_loop enc c p (d # ds) buf sz = downflow_loop enc c ?p ds ?buf (length buf)"
          using e(1) False hsize_pos Cons.prems(4) by (auto simp: Let_def)
        have str: "downflow_streams wire hsize c (take (length buf) ?buf @ unsent ?p) ds ?buf
            (downflow_loop enc c ?p ds ?buf (length buf))"
          using Cons.prems p buf by (intro Cons.IH) auto
        have eq: "take (length buf) ?buf @ unsent ?p = take sz buf @ w"
          using buf p Cons.prems(4) by (simp add: min_absorb2)
        show ?thesis unfolding run empty append_Nil2
          using str [unfolded eq] Some buf by (rule downflow_streams_Cons)
      qed
    qed
  qed
qed

lemma downflow_streams_unsent:
  assumes valid: "\<forall>d\<in>set datas. valid c d" and p: "overflow_ok p"
  shows "downflow_streams wire hsize c (unsent p) datas buf (downflow enc c p datas buf)"
proof (cases "downflowBuf p = []")
  case True
  with p have "unsent p = []" by (simp add: unsent_def)
  with downflow_loop_streams [OF valid p, of 0 buf] True show ?thesis by (simp add: downflow_def)
next
  case False
  let ?k = "downflowBufSentNum p"
  have k: "?k < length (downflowBuf p)" using p False by (simp add: overflow_ok_def)
  have len: "length (unsent p) = length (downflowBuf p) - ?k" by (simp add: unsent_def)
  show ?thesis
  proof (cases "length (unsent p) \<le> length buf")
    case True
    let ?p = "p\<lparr>downflowBuf := [], downflowBufSentNum := 0\<rparr>"
    let ?buf = "unsent p @ drop (length (unsent p)) buf"
    have p': "overflow_ok ?p" "unsent ?p = []" by (simp_all add: overflow_ok_def unsent_def)
    have rest: "downflow_rest p buf = Some (?p, ?buf, length (unsent p))"
      using k True by (simp add: downflow_rest_def assertion_def Let_def len memcpy_def buf_write_def unsent_def buf_read_def)
    have buf: "length ?buf = length buf" "take (length (unsent p)) ?buf = unsent p" using True by simp_all
    have "downflow_streams wire hsize c (unsent p) datas ?buf (downflow enc c p datas buf)"
    proof (cases "length buf = length (unsent p)")
      case full: True
      then have "downflow enc c p datas buf = Some (?p, datas, ?buf, length (unsent p), True)"
        using False rest by (simp add: downflow_def)
      with downflow_streams_stop [OF p'(1), of "length (unsent p)" ?buf True datas hsize wire c] p'(2) full hsize_pos
      show ?thesis by simp
    next
      case False
      then have "downflow enc c p datas buf = downflow_loop enc c ?p datas ?buf (length (unsent p))"
        using \<open>downflowBuf p \<noteq> []\<close> rest True by (simp add: downflow_def)
      with downflow_loop_streams [OF valid p'(1), of "length (unsent p)" ?buf] p'(2) buf True show ?thesis by simp
    qed
    then show ?thesis unfolding downflow_streams_def buf(1) .
  next
    case small: False
    let ?p = "p\<lparr>downflowBufSentNum := ?k + length buf\<rparr>"
    let ?buf = "take (length buf) (unsent p)"
    have p': "overflow_ok ?p" "unsent p = ?buf @ unsent ?p"
      using k small by (auto simp: overflow_ok_def unsent_def less_diff_conv add.commute)
        (metis add.commute append_take_drop_id drop_drop)
    have buf: "length ?buf = length buf" using small by simp
    have "downflow_rest p buf = Some (?p, ?buf, length buf)"
      using k small by (simp add: downflow_rest_def assertion_def Let_def len memcpy_def buf_write_def unsent_def buf_read_def)
    then have "downflow enc c p datas buf = Some (?p, datas, ?buf, length buf, True)"
      using False buf by (simp add: downflow_def)
    moreover have "downflow_streams wire hsize c (take (length buf) ?buf @ unsent ?p) datas ?buf
        (Some (?p, datas, ?buf, length buf, True))"
      using p'(1) buf hsize_pos by (intro downflow_streams_stop) auto
    moreover have "take (length buf) ?buf @ unsent ?p = unsent p" using p'(2) by simp
    ultimately show ?thesis unfolding downflow_streams_def buf by simp
  qed
qed

end

subsection \<open>Calls in sequence\<close>

text \<open>
  The sending routine calls \<open>downflow\<close> again and again and writes what it produced; it stops when a
  message cannot be encoded.  The connection may change from call to call (its \<open>recvSerial_\<close> does),
  so every call brings its own.
\<close>

fun downflow_all ::
  "('c, 'd) encode_fun \<Rightarrow> 'p MessagePipeline_scheme \<Rightarrow> 'd list \<Rightarrow> ('c \<times> byte list) list \<Rightarrow>
   ('p MessagePipeline_scheme \<times> 'd list \<times> byte list list \<times> bool) option" where
  "downflow_all enc p datas [] = Some (p, datas, [], True)"
| "downflow_all enc p datas ((c, buf) # calls) = do {
     (p, datas, buf, n, ok) \<leftarrow> downflow enc c p datas buf;
     (if ok then do {
        (p, datas, outs, ok) \<leftarrow> downflow_all enc p datas calls;
        Some (p, datas, take n buf # outs, ok)
      }
      else Some (p, datas, [], False))
   }"

definition stamped :: "('c \<Rightarrow> 'd \<Rightarrow> byte list option) \<Rightarrow> ('c \<times> 'd) list \<Rightarrow> byte list" where
  "stamped wire cds = concat (map (\<lambda>(c, d). the (wire c d)) cds)"

lemma stamped_simps [simp]:
  "stamped wire [] = []" "stamped wire ((c, d) # cds) = the (wire c d) @ stamped wire cds"
  "stamped wire (cds @ cds') = stamped wire cds @ stamped wire cds'"
  "stamped wire (map (Pair c) ds) = frames wire c ds"
  by (simp_all add: stamped_def frames_def o_def)

context encoder
begin

text \<open>
  When every message can be encoded, nothing is lost, duplicated or reordered; and as soon as the
  number of calls reaches the number of bytes, everything is sent.
\<close>

lemma frames_length:
  "\<forall>d\<in>set ds. length (the (wire c d)) = len d \<Longrightarrow> length (frames wire c ds) = (\<Sum>d\<leftarrow>ds. len d)"
  by (induction ds) (simp_all add: frames_def)

lemma downflow_progress:
  assumes d: "\<forall>d\<in>set datas. valid c d \<and> wire c d \<noteq> None \<and> length (the (wire c d)) = len d \<and> 0 < len d"
    and buf: "hsize \<le> length buf" and p: "overflow_ok p"
  obtains p' buf' n sent datas' where "downflow enc c p datas buf = Some (p', datas', buf', n, True)"
    "overflow_ok p'" "datas = sent @ datas'" "unsent p @ frames wire c sent = take n buf' @ unsent p'"
    "length (unsent p') + (\<Sum>d\<leftarrow>datas'. len d) \<le> length (unsent p) + (\<Sum>d\<leftarrow>datas. len d) - 1"
proof -
  obtain p' datas' buf' n ok sent where r: "downflow enc c p datas buf = Some (p', datas', buf', n, ok)"
      "length buf' = length buf" "n \<le> length buf" "overflow_ok p'" "unsent p' \<noteq> [] \<longrightarrow> n = length buf"
      "datas = sent @ datas'" "unsent p @ frames wire c sent = take n buf' @ unsent p'"
      "if ok then datas' = [] \<or> length buf < n + hsize else datas' \<noteq> [] \<and> wire c (hd datas') = None"
    using downflow_streams_unsent [OF _ p, of datas c buf] d unfolding downflow_streams_def by blast
  have "hd datas' \<in> set datas" if "datas' \<noteq> []" using that r(6) by simp
  with r(8) d have ok: "ok" by (auto split: if_splits)
  have len: "length (unsent p) + (\<Sum>d\<leftarrow>sent. len d) = n + length (unsent p')"
  proof -
    have "length (frames wire c sent) = (\<Sum>d\<leftarrow>sent. len d)" using d r(6) by (intro frames_length) auto
    with arg_cong [OF r(7), of length] r(2,3) show ?thesis by simp
  qed
  have "n = 0 \<Longrightarrow> length (unsent p) + (\<Sum>d\<leftarrow>datas. len d) = 0"
  proof -
    assume n: "n = 0"
    then have "unsent p' = []" using r(5) buf hsize_pos by auto
    with n len have z: "unsent p = []" "(\<Sum>d\<leftarrow>sent. len d) = 0" by auto
    then have "sent = []" using d r(6) by (cases sent) auto
    moreover have "datas' = []" using r(8) ok n buf by simp
    ultimately show ?thesis using z r(6) by simp
  qed
  moreover have "(\<Sum>d\<leftarrow>datas. len d) = (\<Sum>d\<leftarrow>sent. len d) + (\<Sum>d\<leftarrow>datas'. len d)" using r(6) by simp
  ultimately have "length (unsent p') + (\<Sum>d\<leftarrow>datas'. len d) \<le> length (unsent p) + (\<Sum>d\<leftarrow>datas. len d) - 1"
    using len by linarith
  with that r ok show thesis by simp
qed

lemma downflow_all_streams:
  assumes "\<And>c buf d. (c, buf) \<in> set calls \<Longrightarrow> d \<in> set datas \<Longrightarrow>
      valid c d \<and> wire c d \<noteq> None \<and> length (the (wire c d)) = len d"
    and "\<And>d. d \<in> set datas \<Longrightarrow> 0 < len d"
    and "\<And>c buf. (c, buf) \<in> set calls \<Longrightarrow> hsize \<le> length buf" and "overflow_ok p"
  shows "\<exists>p' datas' outs cds. downflow_all enc p datas calls = Some (p', datas', outs, True)
     \<and> overflow_ok p' \<and> datas = map snd cds @ datas' \<and> fst ` set cds \<subseteq> fst ` set calls
     \<and> unsent p @ stamped wire cds = concat outs @ unsent p'
     \<and> (length (unsent p) + (\<Sum>d\<leftarrow>datas. len d) \<le> length calls \<longrightarrow> datas' = [] \<and> unsent p' = [])"
  using assms
proof (induction calls arbitrary: p datas)
  case Nil
  have "datas = []" if "(\<Sum>d\<leftarrow>datas. len d) = 0" using that Nil.prems(2) [of "hd datas"] by (cases datas) auto
  with Nil.prems(4) show ?case by (intro exI [of _ p] exI [of _ datas] exI [of _ "[]"]) auto
next
  case (Cons call calls)
  obtain c buf where call: "call = (c, buf)" by force
  have d: "\<forall>d\<in>set datas. valid c d \<and> wire c d \<noteq> None \<and> length (the (wire c d)) = len d \<and> 0 < len d"
    using Cons.prems(1) [of c buf] Cons.prems(2) call by simp
  have buf: "hsize \<le> length buf" using Cons.prems(3) [of c buf] call by simp
  obtain p1 buf1 n sent datas1 where r: "downflow enc c p datas buf = Some (p1, datas1, buf1, n, True)"
    "overflow_ok p1" "datas = sent @ datas1" "unsent p @ frames wire c sent = take n buf1 @ unsent p1"
    "length (unsent p1) + (\<Sum>d\<leftarrow>datas1. len d) \<le> length (unsent p) + (\<Sum>d\<leftarrow>datas. len d) - 1"
    by (rule downflow_progress [OF d buf Cons.prems(4)])
  obtain p' datas' outs cds where q: "downflow_all enc p1 datas1 calls = Some (p', datas', outs, True)"
      "overflow_ok p'" "datas1 = map snd cds @ datas'" "fst ` set cds \<subseteq> fst ` set calls"
      "unsent p1 @ stamped wire cds = concat outs @ unsent p'"
      "length (unsent p1) + (\<Sum>d\<leftarrow>datas1. len d) \<le> length calls \<longrightarrow> datas' = [] \<and> unsent p' = []"
  proof -
    have "\<exists>p' datas' outs cds. downflow_all enc p1 datas1 calls = Some (p', datas', outs, True)
      \<and> overflow_ok p' \<and> datas1 = map snd cds @ datas' \<and> fst ` set cds \<subseteq> fst ` set calls
      \<and> unsent p1 @ stamped wire cds = concat outs @ unsent p'
      \<and> (length (unsent p1) + (\<Sum>d\<leftarrow>datas1. len d) \<le> length calls \<longrightarrow> datas' = [] \<and> unsent p' = [])"
    proof (rule Cons.IH [OF _ _ _ r(2)])
      fix c' buf' d' assume "(c', buf') \<in> set calls" "d' \<in> set datas1"
      then show "valid c' d' \<and> wire c' d' \<noteq> None \<and> length (the (wire c' d')) = len d'"
        using Cons.prems(1) [of c' buf' d'] r(3) by simp
    qed (use Cons.prems(2,3) r(3) in auto)
    then show thesis using that by blast
  qed
  have "downflow_all enc p datas (call # calls) = Some (p', datas', take n buf1 # outs, True)"
    using r(1) q(1) call by simp
  moreover have "datas = map snd (map (Pair c) sent @ cds) @ datas'" using r(3) q(3) by (simp add: o_def)
  moreover have "fst ` set (map (Pair c) sent @ cds) \<subseteq> fst ` set (call # calls)"
    using q(4) call by auto
  moreover have "unsent p @ stamped wire (map (Pair c) sent @ cds) = concat (take n buf1 # outs) @ unsent p'"
  proof -
    have "unsent p @ stamped wire (map (Pair c) sent @ cds) = (unsent p @ frames wire c sent) @ stamped wire cds" by simp
    also have "\<dots> = take n buf1 @ unsent p1 @ stamped wire cds" unfolding r(4) by simp
    finally show ?thesis using q(5) by simp
  qed
  moreover have "length (unsent p) + (\<Sum>d\<leftarrow>datas. len d) \<le> length (call # calls) \<longrightarrow> datas' = [] \<and> unsent p' = []"
    using r(5) q(6) by auto
  ultimately show ?case using q(2) by blast
qed

end

end
