(* ===== verification/Protobuf.thy ===== *)
theory Protobuf
  imports Prelude
begin

text \<open>
  Protocol Buffers, as the codecs use it.  The library is not part of the repository, so its operations
  are fields of a record that the codecs take as an argument; \<open>'p\<close> are messages and \<open>'k\<close> prototypes.
\<close>

text \<open>
  \<open>GetCachedSize\<close>, \<open>ByteSizeLong\<close>, \<open>SerializeWithCachedSizesToArray\<close>, and \<open>New\<close> followed by
  \<open>ParseFromArray\<close> for a prototype of type \<open>'k\<close>.
\<close>

record ('p, 'k) protobuf =
  pb_cached :: "'p \<Rightarrow> nat"
  pb_size :: "'p \<Rightarrow> nat"
  pb_bytes :: "'p \<Rightarrow> byte list"
  pb_parse :: "'k \<Rightarrow> byte list \<Rightarrow> 'p option"

definition pb_ok :: "('p, 'k, 'z) protobuf_scheme \<Rightarrow> 'p \<Rightarrow> bool" where
  "pb_ok pb m \<longleftrightarrow> length (pb_bytes pb m) = pb_size pb m \<and> (pb_cached pb m = 0 \<or> pb_cached pb m = pb_size pb m)"

text \<open>
  \<open>pb_ok\<close> is what the documentation of Protocol Buffers promises: the serialisation has the size that
  \<open>ByteSizeLong\<close> returns, and the cached size is 0 or the size, as long as the message has not been
  changed after its size was last computed.
\<close>

text \<open>\<open>New\<close> and \<open>MergeFrom\<close>, which the RPC parts use as well.\<close>

record ('p, 'k) rpc_protobuf = "('p, 'k) protobuf" +
  pb_new :: "'k \<Rightarrow> 'p"
  pb_merge :: "'p \<Rightarrow> 'p \<Rightarrow> 'p"

text \<open>An instance: messages are byte strings that serialise to themselves.\<close>

definition bytes_pb :: "(byte list, unit) protobuf" where
  "bytes_pb = \<lparr>pb_cached = (\<lambda>_. 0), pb_size = length, pb_bytes = (\<lambda>m. m), pb_parse = (\<lambda>_ m. Some m)\<rparr>"

lemma bytes_pb_simps [simp]:
  "pb_cached bytes_pb m = 0" "pb_size bytes_pb m = length m" "pb_bytes bytes_pb m = m" "pb_parse bytes_pb k m = Some m"
  "pb_ok bytes_pb m"
  by (simp_all add: bytes_pb_def pb_ok_def)

definition bytes_rpc_pb :: "(byte list, unit) rpc_protobuf" where
  "bytes_rpc_pb = \<lparr>pb_cached = (\<lambda>_. 0), pb_size = length, pb_bytes = (\<lambda>m. m), pb_parse = (\<lambda>_ m. Some m),
     pb_new = (\<lambda>_. []), pb_merge = (\<lambda>a b. if b = [] then a else b)\<rparr>"

lemma bytes_rpc_pb_simps [simp]:
  "pb_cached bytes_rpc_pb m = 0" "pb_size bytes_rpc_pb m = length m" "pb_bytes bytes_rpc_pb m = m"
  "pb_parse bytes_rpc_pb k m = Some m" "pb_ok bytes_rpc_pb m" "pb_new bytes_rpc_pb k = []"
  "pb_merge bytes_rpc_pb a b = (if b = [] then a else b)"
  by (simp_all add: bytes_rpc_pb_def pb_ok_def)

end
