(* ===== verification/Crc.thy ===== *)
theory Crc
  imports Prelude
begin

text \<open>
  \<open>CRC\<close> of \<open>corpc_crc.cpp\<close>: the static table \<open>MbTable\<close>, \<open>CheckSum\<close>, \<open>Reverse\<close> and \<open>InitTable\<close>.

  The table-driven checksum is shown equal to the bit-serial CRC-16 with the reflected polynomial
  \<open>0xA001\<close>, the static table is shown to be the one \<open>InitTable(0x8005)\<close> computes, and from the
  bit-serial form follow the two guarantees message framing relies on: checksums compose over
  concatenation, and a message whose error is confined to two adjacent bytes never passes.
\<close>

section \<open>The code\<close>

definition MbTable :: "u16 list" where
  "MbTable = [
    0x0000, 0xC0C1, 0xC181, 0x0140, 0xC301, 0x03C0, 0x0280, 0xC241,
    0xC601, 0x06C0, 0x0780, 0xC741, 0x0500, 0xC5C1, 0xC481, 0x0440,
    0xCC01, 0x0CC0, 0x0D80, 0xCD41, 0x0F00, 0xCFC1, 0xCE81, 0x0E40,
    0x0A00, 0xCAC1, 0xCB81, 0x0B40, 0xC901, 0x09C0, 0x0880, 0xC841,
    0xD801, 0x18C0, 0x1980, 0xD941, 0x1B00, 0xDBC1, 0xDA81, 0x1A40,
    0x1E00, 0xDEC1, 0xDF81, 0x1F40, 0xDD01, 0x1DC0, 0x1C80, 0xDC41,
    0x1400, 0xD4C1, 0xD581, 0x1540, 0xD701, 0x17C0, 0x1680, 0xD641,
    0xD201, 0x12C0, 0x1380, 0xD341, 0x1100, 0xD1C1, 0xD081, 0x1040,
    0xF001, 0x30C0, 0x3180, 0xF141, 0x3300, 0xF3C1, 0xF281, 0x3240,
    0x3600, 0xF6C1, 0xF781, 0x3740, 0xF501, 0x35C0, 0x3480, 0xF441,
    0x3C00, 0xFCC1, 0xFD81, 0x3D40, 0xFF01, 0x3FC0, 0x3E80, 0xFE41,
    0xFA01, 0x3AC0, 0x3B80, 0xFB41, 0x3900, 0xF9C1, 0xF881, 0x3840,
    0x2800, 0xE8C1, 0xE981, 0x2940, 0xEB01, 0x2BC0, 0x2A80, 0xEA41,
    0xEE01, 0x2EC0, 0x2F80, 0xEF41, 0x2D00, 0xEDC1, 0xEC81, 0x2C40,
    0xE401, 0x24C0, 0x2580, 0xE541, 0x2700, 0xE7C1, 0xE681, 0x2640,
    0x2200, 0xE2C1, 0xE381, 0x2340, 0xE101, 0x21C0, 0x2080, 0xE041,
    0xA001, 0x60C0, 0x6180, 0xA141, 0x6300, 0xA3C1, 0xA281, 0x6240,
    0x6600, 0xA6C1, 0xA781, 0x6740, 0xA501, 0x65C0, 0x6480, 0xA441,
    0x6C00, 0xACC1, 0xAD81, 0x6D40, 0xAF01, 0x6FC0, 0x6E80, 0xAE41,
    0xAA01, 0x6AC0, 0x6B80, 0xAB41, 0x6900, 0xA9C1, 0xA881, 0x6840,
    0x7800, 0xB8C1, 0xB981, 0x7940, 0xBB01, 0x7BC0, 0x7A80, 0xBA41,
    0xBE01, 0x7EC0, 0x7F80, 0xBF41, 0x7D00, 0xBDC1, 0xBC81, 0x7C40,
    0xB401, 0x74C0, 0x7580, 0xB541, 0x7700, 0xB7C1, 0xB681, 0x7640,
    0x7200, 0xB2C1, 0xB381, 0x7340, 0xB101, 0x71C0, 0x7080, 0xB041,
    0x5000, 0x90C1, 0x9181, 0x5140, 0x9301, 0x53C0, 0x5280, 0x9241,
    0x9601, 0x56C0, 0x5780, 0x9741, 0x5500, 0x95C1, 0x9481, 0x5440,
    0x9C01, 0x5CC0, 0x5D80, 0x9D41, 0x5F00, 0x9FC1, 0x9E81, 0x5E40,
    0x5A00, 0x9AC1, 0x9B81, 0x5B40, 0x9901, 0x59C0, 0x5880, 0x9841,
    0x8801, 0x48C0, 0x4980, 0x8941, 0x4B00, 0x8BC1, 0x8A81, 0x4A40,
    0x4E00, 0x8EC1, 0x8F81, 0x4F40, 0x8D01, 0x4DC0, 0x4C80, 0x8C41,
    0x4400, 0x84C1, 0x8581, 0x4540, 0x8701, 0x47C0, 0x4680, 0x8641,
    0x8201, 0x42C0, 0x4380, 0x8341, 0x4100, 0x81C1, 0x8081, 0x4040]"

text \<open>
  One iteration of the loop of \<open>CheckSum\<close>.  \<open>n\<close> is an \<open>uint8_t\<close>: the exclusive-or is truncated to
  its low byte.
\<close>

definition check_step :: "u16 list \<Rightarrow> u16 \<Rightarrow> byte \<Rightarrow> u16" where
  "check_step tab crc16 d =
     (let n = (ucast (ucast d XOR crc16 :: u16) :: byte)
      in drop_bit 8 crc16 XOR tab ! unat n)"

fun CheckSum_tab :: "u16 list \<Rightarrow> byte list \<Rightarrow> u16 \<Rightarrow> u16" where
  "CheckSum_tab tab [] crc16 = crc16"
| "CheckSum_tab tab (d # data) crc16 = CheckSum_tab tab data (check_step tab crc16 d)"

definition CheckSum :: "byte list \<Rightarrow> u16 \<Rightarrow> u16" where
  "CheckSum data crc16 = CheckSum_tab MbTable data crc16"

text \<open>The loop of \<open>Reverse\<close> from counter \<open>i\<close> on, with its locals \<open>data\<close> and \<open>value\<close>.\<close>

function Reverse_loop :: "nat \<Rightarrow> u16 \<Rightarrow> u16 \<Rightarrow> u16" where
  "Reverse_loop i data value =
     (if i < 17
      then Reverse_loop (i + 1) (drop_bit 1 data)
             (if data AND 1 \<noteq> 0 then value OR push_bit (16 - i) 1 else value)
      else value)"
  by pat_completeness auto
termination
  by (relation "measure (\<lambda>(i, data, value). 17 - i)") auto

declare Reverse_loop.simps [simp del]

definition Reverse :: "u16 \<Rightarrow> u16" where
  "Reverse data = Reverse_loop 1 data 0"

definition crc_bit :: "u16 \<Rightarrow> u16 \<Rightarrow> u16" where
  "crc_bit reverse_poly crc =
     (if crc AND 0x01 \<noteq> 0 then reverse_poly XOR drop_bit 1 crc else drop_bit 1 crc)"

definition InitTable :: "u16 \<Rightarrow> u16 list" where
  "InitTable polynomial =
     (let reverse_poly = Reverse polynomial
      in map (\<lambda>i. (crc_bit reverse_poly ^^ 8) (of_nat i)) [0..<256])"

section \<open>The table\<close>

text \<open>
  The comparison of the 256 entries runs on integers: \<open>crc_bit_int\<close> is \<open>crc_bit 0xA001\<close> seen
  through \<open>uint\<close>.
\<close>

definition crc_bit_int :: "int \<Rightarrow> int" where
  "crc_bit_int c = (if odd c then 0xA001 XOR (c div 2) else c div 2)"

fun table_agrees :: "int \<Rightarrow> int list \<Rightarrow> bool" where
  "table_agrees n [] = True"
| "table_agrees n (x # xs) =
     (crc_bit_int (crc_bit_int (crc_bit_int (crc_bit_int
        (crc_bit_int (crc_bit_int (crc_bit_int (crc_bit_int n))))))) = x
      \<and> table_agrees (n + 1) xs)"

lemma funpow_8: "(f ^^ 8) x = f (f (f (f (f (f (f (f x)))))))"
  by (simp add: numeral_eq_Suc)

lemma crc_bit_alt: "crc_bit p c = drop_bit 1 c XOR (if bit c 0 then p else 0)"
proof -
  have "c AND 1 \<noteq> 0 \<longleftrightarrow> bit c 0"
    by (simp add: and_one_eq bit_0 odd_iff_mod_2_eq_one)
  then show ?thesis by (simp add: crc_bit_def xor.commute)
qed

lemma uint_crc_bit: "uint (crc_bit 0xA001 w) = crc_bit_int (uint w)"
proof -
  have "uint (drop_bit 1 w) = uint w div 2"
    by (simp add: drop_bit_eq_div uint_div)
  moreover have "odd (uint w) \<longleftrightarrow> bit w 0"
    by (simp add: bit_uint_iff flip: bit_0)
  ultimately show ?thesis
    by (simp add: crc_bit_alt crc_bit_int_def uint_xor xor.commute)
qed

lemma table_agrees_nth:
  "table_agrees n xs \<Longrightarrow> i < length xs \<Longrightarrow> xs ! i = (crc_bit_int ^^ 8) (n + int i)"
proof (induction n xs arbitrary: i rule: table_agrees.induct)
  case (1 n)
  then show ?case by simp
next
  case (2 n x xs)
  show ?case
  proof (cases i)
    case 0
    with 2 show ?thesis by (simp add: funpow_8)
  next
    case (Suc j)
    with 2 have "xs ! j = (crc_bit_int ^^ 8) (n + 1 + int j)" by simp
    with Suc show ?thesis by (simp add: add.assoc)
  qed
qed

lemma length_MbTable: "length MbTable = 256"
  by (simp add: MbTable_def)

lemma MbTable_agrees: "table_agrees 0 (map uint MbTable)"
proof -
  have "map uint MbTable = [
    0x0000, 0xC0C1, 0xC181, 0x0140, 0xC301, 0x03C0, 0x0280, 0xC241,
    0xC601, 0x06C0, 0x0780, 0xC741, 0x0500, 0xC5C1, 0xC481, 0x0440,
    0xCC01, 0x0CC0, 0x0D80, 0xCD41, 0x0F00, 0xCFC1, 0xCE81, 0x0E40,
    0x0A00, 0xCAC1, 0xCB81, 0x0B40, 0xC901, 0x09C0, 0x0880, 0xC841,
    0xD801, 0x18C0, 0x1980, 0xD941, 0x1B00, 0xDBC1, 0xDA81, 0x1A40,
    0x1E00, 0xDEC1, 0xDF81, 0x1F40, 0xDD01, 0x1DC0, 0x1C80, 0xDC41,
    0x1400, 0xD4C1, 0xD581, 0x1540, 0xD701, 0x17C0, 0x1680, 0xD641,
    0xD201, 0x12C0, 0x1380, 0xD341, 0x1100, 0xD1C1, 0xD081, 0x1040,
    0xF001, 0x30C0, 0x3180, 0xF141, 0x3300, 0xF3C1, 0xF281, 0x3240,
    0x3600, 0xF6C1, 0xF781, 0x3740, 0xF501, 0x35C0, 0x3480, 0xF441,
    0x3C00, 0xFCC1, 0xFD81, 0x3D40, 0xFF01, 0x3FC0, 0x3E80, 0xFE41,
    0xFA01, 0x3AC0, 0x3B80, 0xFB41, 0x3900, 0xF9C1, 0xF881, 0x3840,
    0x2800, 0xE8C1, 0xE981, 0x2940, 0xEB01, 0x2BC0, 0x2A80, 0xEA41,
    0xEE01, 0x2EC0, 0x2F80, 0xEF41, 0x2D00, 0xEDC1, 0xEC81, 0x2C40,
    0xE401, 0x24C0, 0x2580, 0xE541, 0x2700, 0xE7C1, 0xE681, 0x2640,
    0x2200, 0xE2C1, 0xE381, 0x2340, 0xE101, 0x21C0, 0x2080, 0xE041,
    0xA001, 0x60C0, 0x6180, 0xA141, 0x6300, 0xA3C1, 0xA281, 0x6240,
    0x6600, 0xA6C1, 0xA781, 0x6740, 0xA501, 0x65C0, 0x6480, 0xA441,
    0x6C00, 0xACC1, 0xAD81, 0x6D40, 0xAF01, 0x6FC0, 0x6E80, 0xAE41,
    0xAA01, 0x6AC0, 0x6B80, 0xAB41, 0x6900, 0xA9C1, 0xA881, 0x6840,
    0x7800, 0xB8C1, 0xB981, 0x7940, 0xBB01, 0x7BC0, 0x7A80, 0xBA41,
    0xBE01, 0x7EC0, 0x7F80, 0xBF41, 0x7D00, 0xBDC1, 0xBC81, 0x7C40,
    0xB401, 0x74C0, 0x7580, 0xB541, 0x7700, 0xB7C1, 0xB681, 0x7640,
    0x7200, 0xB2C1, 0xB381, 0x7340, 0xB101, 0x71C0, 0x7080, 0xB041,
    0x5000, 0x90C1, 0x9181, 0x5140, 0x9301, 0x53C0, 0x5280, 0x9241,
    0x9601, 0x56C0, 0x5780, 0x9741, 0x5500, 0x95C1, 0x9481, 0x5440,
    0x9C01, 0x5CC0, 0x5D80, 0x9D41, 0x5F00, 0x9FC1, 0x9E81, 0x5E40,
    0x5A00, 0x9AC1, 0x9B81, 0x5B40, 0x9901, 0x59C0, 0x5880, 0x9841,
    0x8801, 0x48C0, 0x4980, 0x8941, 0x4B00, 0x8BC1, 0x8A81, 0x4A40,
    0x4E00, 0x8EC1, 0x8F81, 0x4F40, 0x8D01, 0x4DC0, 0x4C80, 0x8C41,
    0x4400, 0x84C1, 0x8581, 0x4540, 0x8701, 0x47C0, 0x4680, 0x8641,
    0x8201, 0x42C0, 0x4380, 0x8341, 0x4100, 0x81C1, 0x8081, 0x4040]"
    by (simp add: MbTable_def)
  moreover have "table_agrees 0 \<dots>"
    by code_simp
  ultimately show ?thesis by simp
qed

lemma MbTable_nth:
  assumes "i < 256"
  shows "MbTable ! i = (crc_bit 0xA001 ^^ 8) (of_nat i)"
proof -
  have funpow: "uint ((crc_bit 0xA001 ^^ k) w) = (crc_bit_int ^^ k) (uint w)" for k w
    by (induction k) (simp_all add: uint_crc_bit)
  have "uint (MbTable ! i) = (crc_bit_int ^^ 8) (int i)"
    using table_agrees_nth [OF MbTable_agrees, of i] assms by (simp add: length_MbTable)
  also have "\<dots> = uint ((crc_bit 0xA001 ^^ 8) (of_nat i))"
    using assms by (simp add: funpow unsigned_of_nat take_bit_nat_eq_self)
  finally show ?thesis by (simp only: word_uint_eq_iff)
qed

lemma Reverse_8005: "Reverse 0x8005 = 0xA001"
  by (simp add: Reverse_def Reverse_loop.simps)

lemma InitTable_MbTable: "InitTable 0x8005 = MbTable"
  unfolding InitTable_def Reverse_8005 Let_def
  by (rule nth_equalityI) (simp_all add: length_MbTable MbTable_nth)

section \<open>The bit-serial checksum\<close>

definition crc_byte :: "u16 \<Rightarrow> byte \<Rightarrow> u16" where
  "crc_byte c d = (crc_bit 0xA001 ^^ 8) (c XOR ucast d)"

definition crc16_spec :: "byte list \<Rightarrow> u16 \<Rightarrow> u16" where
  "crc16_spec data c = foldl crc_byte c data"

lemma crc_bit_xor: "crc_bit p (x XOR y) = crc_bit p x XOR crc_bit p y"
  by (auto simp: crc_bit_alt bit_simps intro!: bit_word_eqI)

lemma crc_bits_xor: "(crc_bit p ^^ k) (x XOR y) = (crc_bit p ^^ k) x XOR (crc_bit p ^^ k) y"
  by (induction k) (simp_all add: crc_bit_xor)

lemma crc_bits_shift: "take_bit k x = 0 \<Longrightarrow> (crc_bit p ^^ k) x = drop_bit k x"
proof (induction k arbitrary: x)
  case 0
  then show ?case by simp
next
  case (Suc k)
  have low: "\<not> bit x j" if "j < Suc k" for j
    using Suc.prems that by (metis bit_0_eq bit_take_bit_iff bot_apply bot_bool_def)
  have x0: "crc_bit p x = drop_bit 1 x"
    using low [of 0] by (simp add: crc_bit_alt)
  have "take_bit k (drop_bit 1 x) = 0"
    by (rule bit_word_eqI) (simp add: bit_simps low)
  then have "(crc_bit p ^^ k) (drop_bit 1 x) = drop_bit (Suc k) x"
    using Suc.IH [of "drop_bit 1 x"] by simp
  then show ?case
    by (simp only: funpow_Suc_right comp_apply x0)
qed

lemma check_step_crc_byte: "check_step MbTable c d = crc_byte c d"
proof -
  define x where "x = c XOR ucast d"
  define n where "n = (ucast (ucast d XOR c :: u16) :: byte)"
  have split: "x = (x AND NOT (mask 8)) XOR ucast n"
    unfolding x_def n_def by (rule bit_word_eqI) (auto simp: bit_simps)
  have "(crc_bit 0xA001 ^^ 8) (x AND NOT (mask 8)) = drop_bit 8 (x AND NOT (mask 8))"
    by (rule crc_bits_shift) (rule bit_word_eqI, simp add: bit_simps)
  also have "\<dots> = drop_bit 8 c"
    unfolding x_def by (rule bit_word_eqI) (auto simp: bit_simps dest: bit_imp_le_length)
  finally have high: "(crc_bit 0xA001 ^^ 8) (x AND NOT (mask 8)) = drop_bit 8 c" .
  have "unat n < 256" using unsigned_less [of n] by simp
  then have "MbTable ! unat n = (crc_bit 0xA001 ^^ 8) (ucast n)"
    by (simp add: MbTable_nth)
  moreover have "crc_byte c d = (crc_bit 0xA001 ^^ 8) ((x AND NOT (mask 8)) XOR ucast n)"
    by (simp only: crc_byte_def flip: x_def split)
  ultimately show ?thesis
    by (simp only: crc_bits_xor high check_step_def Let_def flip: n_def)
qed

lemma CheckSum_spec: "CheckSum data c = crc16_spec data c"
proof -
  have "CheckSum_tab MbTable data c = foldl crc_byte c data"
    by (induction data arbitrary: c) (simp_all add: check_step_crc_byte)
  then show ?thesis by (simp add: CheckSum_def crc16_spec_def)
qed

lemma CheckSum_append: "CheckSum (xs @ ys) c = CheckSum ys (CheckSum xs c)"
  by (simp add: CheckSum_spec crc16_spec_def)

section \<open>Error detection\<close>

lemma crc_bit_top: "bit (crc_bit 0xA001 z) 15 \<longleftrightarrow> bit z 0"
proof -
  have "\<not> bit (drop_bit 1 z) 15" and "bit (0xA001 :: u16) 15"
    by (auto simp: bit_drop_bit_eq dest: bit_imp_le_length)
  then show ?thesis by (simp add: crc_bit_alt bit_xor_iff)
qed

lemma crc_bit_inj:
  assumes "crc_bit 0xA001 x = crc_bit 0xA001 y"
  shows "x = y"
proof -
  have b0: "bit x 0 = bit y 0"
    using crc_bit_top [of x] crc_bit_top [of y] assms by simp
  with assms have d: "drop_bit 1 x = drop_bit 1 y"
    by (simp only: crc_bit_alt xor_cancel_right)
  have "bit x (Suc n) = bit (drop_bit 1 x) n" "bit y (Suc n) = bit (drop_bit 1 y) n" for n
    by (simp_all only: bit_drop_bit_eq comp_apply plus_1_eq_Suc)
  with b0 d have "bit x n = bit y n" for n
    by (cases n) simp_all
  then show ?thesis by (simp add: bit_eq_iff)
qed

lemma crc_bits_inj: "(crc_bit 0xA001 ^^ k) x = (crc_bit 0xA001 ^^ k) y \<Longrightarrow> x = y"
  by (induction k) (auto dest: crc_bit_inj)

lemma crc_byte_state_inj: "crc_byte c d = crc_byte c' d \<Longrightarrow> c = c'"
  unfolding crc_byte_def by (drule crc_bits_inj) (simp only: xor_cancel_right)

lemma crc16_state_inj: "crc16_spec data c = crc16_spec data c' \<Longrightarrow> c = c'"
  unfolding crc16_spec_def by (induction data arbitrary: c c') (auto dest: crc_byte_state_inj)

lemma crc_byte_pair:
  "crc_byte (crc_byte c a) b = (crc_bit 0xA001 ^^ 16) (c XOR (ucast a OR push_bit 8 (ucast b)))"
proof -
  have b: "(crc_bit 0xA001 ^^ 8) (push_bit 8 (ucast b)) = ucast b"
  proof -
    have "take_bit 8 (push_bit 8 (ucast b) :: u16) = 0"
      by (rule bit_word_eqI) (simp add: bit_simps)
    then have "(crc_bit 0xA001 ^^ 8) (push_bit 8 (ucast b)) = drop_bit 8 (push_bit 8 (ucast b) :: u16)"
      by (rule crc_bits_shift)
    also have "\<dots> = ucast b"
      by (rule bit_word_eqI) (auto simp: bit_simps dest: bit_imp_le_length)
    finally show ?thesis .
  qed
  have ab: "c XOR (ucast a OR push_bit 8 (ucast b)) = (c XOR ucast a) XOR push_bit 8 (ucast b)"
    by (rule bit_word_eqI) (auto simp: bit_simps dest: bit_imp_le_length)
  have "(crc_bit 0xA001 ^^ 16) z = (crc_bit 0xA001 ^^ 8) ((crc_bit 0xA001 ^^ 8) z)" for z
    by (simp flip: funpow_add comp_apply [where f = "crc_bit 0xA001 ^^ 8"])
  then show ?thesis
    by (simp only: ab crc_bits_xor b crc_byte_def)
qed

lemma CheckSum_pair_inj:
  assumes "CheckSum (pre @ [a, b] @ post) c = CheckSum (pre @ [a', b'] @ post) c"
  shows "a = a' \<and> b = b'"
proof -
  let ?s = "crc16_spec pre c"
  have "crc16_spec post (crc_byte (crc_byte ?s a) b) = crc16_spec post (crc_byte (crc_byte ?s a') b')"
    using assms by (simp add: CheckSum_spec crc16_spec_def)
  then have "crc_byte (crc_byte ?s a) b = crc_byte (crc_byte ?s a') b'"
    by (rule crc16_state_inj)
  then have "?s XOR (ucast a OR push_bit 8 (ucast b)) = ?s XOR (ucast a' OR push_bit 8 (ucast b'))"
    unfolding crc_byte_pair by (rule crc_bits_inj)
  then have eq: "(ucast a OR push_bit 8 (ucast b) :: u16) = (ucast a' OR push_bit 8 (ucast b'))"
    by (simp only: xor_cancel_left)
  have low: "ucast (ucast x OR push_bit 8 (ucast y) :: u16) = x" for x y :: byte
    by (rule bit_word_eqI) (auto simp: bit_simps)
  have high: "ucast (drop_bit 8 (ucast x OR push_bit 8 (ucast y) :: u16)) = y" for x y :: byte
    by (rule bit_word_eqI) (auto simp: bit_simps dest: bit_imp_le_length)
  from eq show ?thesis by (metis low high)
qed

section \<open>Properties\<close>

text \<open>
  C32: the table-driven \<open>CheckSum\<close> computes the bit-serial CRC-16 with the reflected polynomial
  \<open>0xA001\<close> for every start value, so it can be computed piecewise, and the static table is the one
  \<open>InitTable(0x8005)\<close> generates.
\<close>

theorem CheckSum_is_crc16:
  "CheckSum data crc16 = crc16_spec data crc16
   \<and> CheckSum (data @ more) crc16 = CheckSum more (CheckSum data crc16)
   \<and> InitTable 0x8005 = MbTable"
  by (simp add: CheckSum_spec [symmetric] CheckSum_append InitTable_MbTable)

text \<open>
  C31: two bodies that differ only within two adjacent bytes never have the same checksum, so such a
  transmission error is always detected.
\<close>

theorem CheckSum_detects_adjacent_bytes:
  assumes "(a, b) \<noteq> (a', b')"
  shows "CheckSum (pre @ [a, b] @ post) crc16 \<noteq> CheckSum (pre @ [a', b'] @ post) crc16"
  using assms CheckSum_pair_inj by blast

theorem CheckSum_detects_adjacent_bytes_witness:
  "CheckSum ([1] @ [2, 3] @ [4]) 0xFFFF \<noteq> CheckSum ([1] @ [3, 2] @ [4]) 0xFFFF"
  by (rule CheckSum_detects_adjacent_bytes) simp

end
