(* ===== verification/Crypter.thy ===== *)
theory Crypter
  imports Prelude
begin

text \<open>
  \<open>Crypter\<close> and \<open>SimpleXORCrypter\<close> of \<open>corpc_crypter.h/.cpp\<close>.

  \<open>encrypt(src, dst, size)\<close> writes \<open>src[i] ^ key_[i % keySize_]\<close> to \<open>dst[i]\<close>.  An empty key makes
  \<open>i % keySize_\<close> a division by zero as soon as \<open>size > 0\<close>; reading past \<open>src\<close> or writing past \<open>dst\<close>
  is undefined behaviour.  All three are the result \<open>None\<close>.  The codecs call it in place
  (\<open>src = dst\<close>), which is safe because iteration \<open>i\<close> only reads and writes index \<open>i\<close>.

  The codecs see a crypter through the abstract class only, so a crypter
  object is its table of virtual methods, the record \<open>Crypter\<close>, and its contract is the locale
  \<open>crypter_class\<close>: encryption is total and keeps the length, and decryption undoes it.
\<close>

section \<open>The code\<close>

record SimpleXORCrypter =
  key :: "byte list"

definition keySize :: "SimpleXORCrypter \<Rightarrow> nat" where
  "keySize c = length (key c)"

text \<open>The loop of \<open>encrypt\<close> from index \<open>i\<close> on, on separate source and destination buffers.\<close>

function encrypt_loop ::
  "SimpleXORCrypter \<Rightarrow> byte list \<Rightarrow> nat \<Rightarrow> nat \<Rightarrow> byte list \<Rightarrow> byte list option" where
  "encrypt_loop c src sz i dst =
     (if i < sz
      then if keySize c = 0 \<or> length src \<le> i \<or> length dst \<le> i then None
           else encrypt_loop c src sz (i + 1) (dst[i := src ! i XOR key c ! (i mod keySize c)])
      else Some dst)"
  by pat_completeness auto
termination
  by (relation "measure (\<lambda>(c, src, sz, i, dst). sz - i)") auto

declare encrypt_loop.simps [simp del]

definition encrypt :: "SimpleXORCrypter \<Rightarrow> byte list \<Rightarrow> byte list \<Rightarrow> nat \<Rightarrow> byte list option" where
  "encrypt c src dst sz = encrypt_loop c src sz 0 dst"

definition decrypt :: "SimpleXORCrypter \<Rightarrow> byte list \<Rightarrow> byte list \<Rightarrow> nat \<Rightarrow> byte list option" where
  "decrypt c src dst sz = encrypt c src dst sz"

text \<open>The same loop when \<open>src\<close> and \<open>dst\<close> are the same buffer, as every caller has it.\<close>

function encrypt_in_place_loop ::
  "SimpleXORCrypter \<Rightarrow> nat \<Rightarrow> nat \<Rightarrow> byte list \<Rightarrow> byte list option" where
  "encrypt_in_place_loop c sz i buf =
     (if i < sz
      then if keySize c = 0 \<or> length buf \<le> i then None
           else encrypt_in_place_loop c sz (i + 1) (buf[i := buf ! i XOR key c ! (i mod keySize c)])
      else Some buf)"
  by pat_completeness auto
termination
  by (relation "measure (\<lambda>(c, sz, i, buf). sz - i)") auto

declare encrypt_in_place_loop.simps [simp del]

definition encrypt_in_place :: "SimpleXORCrypter \<Rightarrow> byte list \<Rightarrow> nat \<Rightarrow> byte list option" where
  "encrypt_in_place c buf sz = encrypt_in_place_loop c sz 0 buf"

section \<open>What the loops compute\<close>

definition xor_key :: "SimpleXORCrypter \<Rightarrow> byte list \<Rightarrow> byte list" where
  "xor_key c xs = map (\<lambda>i. xs ! i XOR key c ! (i mod keySize c)) [0..<length xs]"

lemma length_xor_key [simp]: "length (xor_key c xs) = length xs"
  by (simp add: xor_key_def)

lemma nth_xor_key: "i < length xs \<Longrightarrow> xor_key c xs ! i = xs ! i XOR key c ! (i mod keySize c)"
  by (simp add: xor_key_def)

lemma xor_key_involution: "xor_key c (xor_key c xs) = xs"
  by (rule nth_equalityI) (simp_all add: nth_xor_key xor.assoc)

lemma xor_key_take: "xor_key c (take n xs) = take n (xor_key c xs)"
  by (rule nth_equalityI) (auto simp: nth_xor_key)

lemma encrypt_loop_eq:
  "0 < keySize c \<Longrightarrow> sz \<le> length src \<Longrightarrow> sz \<le> length dst \<Longrightarrow> i \<le> sz \<Longrightarrow>
   encrypt_loop c src sz i dst
     = Some (take i dst @ drop i (take sz (xor_key c src)) @ drop sz dst)"
proof (induction c src sz i dst rule: encrypt_loop.induct)
  case (1 c src sz i dst)
  show ?case
  proof (cases "i < sz")
    case True
    let ?v = "src ! i XOR key c ! (i mod keySize c)"
    have v: "xor_key c src ! i = ?v" using True 1 by (simp add: nth_xor_key)
    have "take (Suc i) (dst[i := ?v]) = take i dst @ [?v]"
      using True 1 by (simp add: take_Suc_conv_app_nth)
    moreover have "drop i (take sz (xor_key c src)) = ?v # drop (Suc i) (take sz (xor_key c src))"
      using True 1 v by (simp add: Cons_nth_drop_Suc [symmetric])
    ultimately show ?thesis
      using True 1 by (subst encrypt_loop.simps) simp
  next
    case False
    with 1 show ?thesis by (subst encrypt_loop.simps) simp
  qed
qed

lemma encrypt_eq:
  "0 < keySize c \<Longrightarrow> sz \<le> length src \<Longrightarrow> sz \<le> length dst \<Longrightarrow>
   encrypt c src dst sz = Some (xor_key c (take sz src) @ drop sz dst)"
  by (simp add: encrypt_def encrypt_loop_eq xor_key_take)

lemma encrypt_in_place_loop_eq:
  "0 < keySize c \<Longrightarrow> sz \<le> length buf \<Longrightarrow> i \<le> sz \<Longrightarrow>
   encrypt_in_place_loop c sz i buf
     = Some (take i buf @ drop i (take sz (xor_key c buf)) @ drop sz buf)"
proof (induction c sz i buf rule: encrypt_in_place_loop.induct)
  case (1 c sz i buf)
  show ?case
  proof (cases "i < sz")
    case True
    let ?v = "buf ! i XOR key c ! (i mod keySize c)"
    have v: "xor_key c buf ! i = ?v" using True 1 by (simp add: nth_xor_key)
    have "take (Suc i) (buf[i := ?v]) = take i buf @ [?v]"
      using True 1 by (simp add: take_Suc_conv_app_nth)
    moreover have "drop i (take sz (xor_key c buf)) = ?v # drop (Suc i) (take sz (xor_key c buf))"
      using True 1 v by (simp add: Cons_nth_drop_Suc [symmetric])
    moreover have "drop (Suc i) (take sz (xor_key c (buf[i := ?v])))
                 = drop (Suc i) (take sz (xor_key c buf))"
      using True "1.prems" by (intro nth_equalityI) (auto simp: nth_xor_key)
    ultimately show ?thesis
      using True 1 by (subst encrypt_in_place_loop.simps) simp
  next
    case False
    with 1 show ?thesis by (subst encrypt_in_place_loop.simps) simp
  qed
qed

lemma encrypt_in_place_eq:
  "0 < keySize c \<Longrightarrow> sz \<le> length buf \<Longrightarrow>
   encrypt_in_place c buf sz = Some (xor_key c (take sz buf) @ drop sz buf)"
  by (simp add: encrypt_in_place_def encrypt_in_place_loop_eq xor_key_take)

lemma encrypt_in_place_aliasing:
  assumes "0 < keySize c" "sz \<le> length buf"
  shows "encrypt_in_place c buf sz = encrypt c buf buf sz"
  using assms by (simp add: encrypt_in_place_eq encrypt_eq)

lemma encrypt_empty_key:
  assumes "keySize c = 0"
  shows "encrypt c src dst sz = (if sz = 0 then Some dst else None)"
  using assms by (simp add: encrypt_def encrypt_loop.simps)

lemma encrypt_in_place_empty_key:
  assumes "keySize c = 0"
  shows "encrypt_in_place c buf sz = (if sz = 0 then Some buf else None)"
  using assms by (simp add: encrypt_in_place_def encrypt_in_place_loop.simps)

section \<open>The contract of a crypter\<close>

text \<open>
  A \<open>Crypter\<close> object as its clients use it: the two virtual methods, each applied in place to the
  bytes of one whole body.  \<open>None\<close> is a crash.
\<close>

record Crypter =
  cr_encrypt :: "byte list \<Rightarrow> byte list option"
  cr_decrypt :: "byte list \<Rightarrow> byte list option"

definition xor_crypter :: "SimpleXORCrypter \<Rightarrow> Crypter" where
  "xor_crypter c =
     \<lparr>cr_encrypt = (\<lambda>body. encrypt_in_place c body (length body)),
      cr_decrypt = (\<lambda>body. encrypt_in_place c body (length body))\<rparr>"

locale crypter_class =
  fixes objs :: "Crypter set"
  assumes encrypt_total: "cr \<in> objs \<Longrightarrow> \<exists>ys. cr_encrypt cr xs = Some ys \<and> length ys = length xs"
    and decrypt_encrypt: "cr \<in> objs \<Longrightarrow> cr_encrypt cr xs = Some ys \<Longrightarrow> cr_decrypt cr ys = Some xs"
begin

lemma encrypt_length: "cr \<in> objs \<Longrightarrow> cr_encrypt cr xs = Some ys \<Longrightarrow> length ys = length xs"
  using encrypt_total [of cr xs] by auto

lemma encrypt_inj:
  "cr \<in> objs \<Longrightarrow> cr_encrypt cr xs = Some zs \<Longrightarrow> cr_encrypt cr ys = Some zs \<Longrightarrow> xs = ys"
  by (metis decrypt_encrypt option.inject)

lemma encrypt_Nil: "cr \<in> objs \<Longrightarrow> cr_encrypt cr [] = Some []"
  using encrypt_total [of cr "[]"] by auto

end

definition xor_crypters :: "Crypter set" where
  "xor_crypters = xor_crypter ` {c. 0 < keySize c}"

lemma xor_crypter_encrypt:
  "0 < keySize c \<Longrightarrow> cr_encrypt (xor_crypter c) xs = Some (xor_key c xs)"
  "0 < keySize c \<Longrightarrow> cr_decrypt (xor_crypter c) xs = Some (xor_key c xs)"
  by (simp_all add: xor_crypter_def encrypt_in_place_eq)

interpretation xorc: crypter_class xor_crypters
  by unfold_locales (auto simp: xor_crypters_def xor_crypter_encrypt xor_key_involution)

section \<open>Properties\<close>

text \<open>
  C34: with a non-empty key, encrypting any prefix of a buffer in place, as the codecs do, never leaves
  the buffer, writes what encrypting into a separate buffer writes, keeps the bytes behind the prefix,
  and decrypting in place restores the buffer.
\<close>

theorem encrypt_in_place_roundtrip:
  assumes "0 < keySize c" "sz \<le> length buf"
  shows "\<exists>ys. encrypt_in_place c buf sz = Some ys \<and> encrypt c buf buf sz = Some ys
     \<and> length ys = length buf \<and> drop sz ys = drop sz buf
     \<and> encrypt_in_place c ys sz = Some buf \<and> decrypt c ys ys sz = Some buf"
  using assms
  by (simp add: encrypt_in_place_eq encrypt_eq decrypt_def xor_key_involution)

theorem encrypt_in_place_roundtrip_witness:
  "\<exists>ys. encrypt_in_place \<lparr>key = [1, 2]\<rparr> [10, 20, 30, 40] 3 = Some ys
     \<and> encrypt \<lparr>key = [1, 2]\<rparr> [10, 20, 30, 40] [10, 20, 30, 40] 3 = Some ys
     \<and> length ys = length [10, 20, 30, 40 :: byte] \<and> drop 3 ys = drop 3 [10, 20, 30, 40]
     \<and> encrypt_in_place \<lparr>key = [1, 2]\<rparr> ys 3 = Some [10, 20, 30, 40]
     \<and> decrypt \<lparr>key = [1, 2]\<rparr> ys ys 3 = Some [10, 20, 30, 40]"
  by (rule encrypt_in_place_roundtrip) (simp_all add: keySize_def)

end
