(* ===== verification/Link.thy ===== *)
theory Link
  imports Prelude
begin

text \<open>
  \<open>NormalLink<T>\<close> of \<open>corpc_define.h\<close>: an intrusive doubly linked list of heap nodes.

  The heap maps addresses to nodes; \<open>nullptr\<close> is \<open>None\<close>.  Every operation returns \<open>None\<close> when the
  source dereferences a pointer that is not allocated or when an \<open>assert\<close> fails.  \<open>linked h l xs\<close>
  says that the link \<open>l\<close> represents the address sequence \<open>xs\<close> in the heap \<open>h\<close>; under it no
  operation crashes and each acts on \<open>xs\<close> as the corresponding list operation, leaving every
  address outside \<open>xs\<close> alone.
\<close>

type_synonym addr = nat

record 'a Node =
  node_data :: 'a
  node_next :: "addr option"
  node_prev :: "addr option"

type_synonym 'a node_heap = "addr \<rightharpoonup> 'a Node"

record NormalLink =
  link_head :: "addr option"
  link_tail :: "addr option"

definition empty_link :: NormalLink where
  "empty_link = \<lparr>link_head = None, link_tail = None\<rparr>"

section \<open>The code\<close>

text \<open>Assignments \<open>p->next = v\<close> and \<open>p->prev = v\<close>, which crash on a dangling \<open>p\<close>.\<close>

definition set_next :: "'a node_heap \<Rightarrow> addr \<Rightarrow> addr option \<Rightarrow> 'a node_heap option" where
  "set_next h p v = (case h p of None \<Rightarrow> None | Some nd \<Rightarrow> Some (h(p \<mapsto> nd\<lparr>node_next := v\<rparr>)))"

definition set_prev :: "'a node_heap \<Rightarrow> addr \<Rightarrow> addr option \<Rightarrow> 'a node_heap option" where
  "set_prev h p v = (case h p of None \<Rightarrow> None | Some nd \<Rightarrow> Some (h(p \<mapsto> nd\<lparr>node_prev := v\<rparr>)))"

definition push_back :: "'a node_heap \<Rightarrow> NormalLink \<Rightarrow> addr \<Rightarrow> ('a node_heap \<times> NormalLink) option" where
  "push_back h l node =
     (case link_head l of
        Some _ \<Rightarrow> do {
          t \<leftarrow> link_tail l;
          tnd \<leftarrow> h t;
          assertion (node_next tnd = None);
          h \<leftarrow> set_next h node None;
          h \<leftarrow> set_prev h node (Some t);
          h \<leftarrow> set_next h t (Some node);
          Some (h, l\<lparr>link_tail := Some node\<rparr>)
        }
      | None \<Rightarrow> do {
          assertion (link_tail l = None);
          h \<leftarrow> set_next h node None;
          h \<leftarrow> set_prev h node None;
          Some (h, l\<lparr>link_head := Some node, link_tail := Some node\<rparr>)
        })"

definition pop_front ::
  "'a node_heap \<Rightarrow> NormalLink \<Rightarrow> ('a node_heap \<times> NormalLink \<times> addr option) option" where
  "pop_front h l =
     (case link_head l of
        None \<Rightarrow> Some (h, l, None)
      | Some node \<Rightarrow> do {
          nd \<leftarrow> h node;
          let l1 = l\<lparr>link_head := node_next nd\<rparr>;
          (h, l2) \<leftarrow> (case link_head l1 of
             Some p \<Rightarrow> do { h \<leftarrow> set_prev h p None; Some (h, l1) }
           | None \<Rightarrow> do { assertion (link_tail l1 = Some node); Some (h, l1\<lparr>link_tail := None\<rparr>) });
          h \<leftarrow> set_next h node None;
          h \<leftarrow> set_prev h node None;
          Some (h, l2, Some node)
        })"

text \<open>\<open>delete node\<close> unmaps the address.\<close>

definition erase :: "'a node_heap \<Rightarrow> NormalLink \<Rightarrow> addr \<Rightarrow> ('a node_heap \<times> NormalLink) option" where
  "erase h l node = do {
     nd \<leftarrow> h node;
     let p = node_prev nd;
     let n = node_next nd;
     h \<leftarrow> (case p of Some q \<Rightarrow> set_next h q n | None \<Rightarrow> Some h);
     h \<leftarrow> (case n of Some q \<Rightarrow> set_prev h q p | None \<Rightarrow> Some h);
     let l1 = (if link_head l = Some node then l\<lparr>link_head := n\<rparr> else l);
     let l2 = (if link_tail l1 = Some node then l1\<lparr>link_tail := p\<rparr> else l1);
     Some (h(node := None), l2)
   }"

definition moveToTail :: "'a node_heap \<Rightarrow> NormalLink \<Rightarrow> addr \<Rightarrow> ('a node_heap \<times> NormalLink) option" where
  "moveToTail h l node = do {
     nd \<leftarrow> h node;
     assertion (node_next nd \<noteq> None \<or> link_tail l = Some node);
     (case node_next nd of
        None \<Rightarrow> Some (h, l)
      | Some n \<Rightarrow> do {
          let p = node_prev nd;
          h \<leftarrow> set_prev h n p;
          h \<leftarrow> (case p of Some q \<Rightarrow> set_next h q (Some n) | None \<Rightarrow> Some h);
          let l1 = (if link_head l = Some node then l\<lparr>link_head := Some n\<rparr> else l);
          h \<leftarrow> set_next h node None;
          h \<leftarrow> set_prev h node (link_tail l1);
          t \<leftarrow> link_tail l1;
          h \<leftarrow> set_next h t (Some node);
          Some (h, l1\<lparr>link_tail := Some node\<rparr>)
        })
   }"

text \<open>
  The loops of \<open>clear\<close> and \<open>eraseTo\<close> follow \<open>next\<close> pointers; on a corrupt heap they need not end,
  so not returning is \<open>None\<close> as well.
\<close>

partial_function (option) clear_loop :: "'a node_heap \<Rightarrow> addr option \<Rightarrow> 'a node_heap option" where
  "clear_loop h node =
     (case node of
        None \<Rightarrow> Some h
      | Some a \<Rightarrow> (case h a of None \<Rightarrow> None | Some nd \<Rightarrow> clear_loop (h(a := None)) (node_next nd)))"

definition clear_link :: "'a node_heap \<Rightarrow> NormalLink \<Rightarrow> ('a node_heap \<times> NormalLink) option" where
  "clear_link h l = do {
     h \<leftarrow> clear_loop h (link_head l);
     Some (h, l\<lparr>link_head := None, link_tail := None\<rparr>)
   }"

partial_function (option) eraseTo_loop :: "'a node_heap \<Rightarrow> addr option \<Rightarrow> addr \<Rightarrow> 'a node_heap option" where
  "eraseTo_loop h tmp node =
     (if tmp = Some node then Some h
      else case tmp of
        None \<Rightarrow> None
      | Some a \<Rightarrow> (case h a of None \<Rightarrow> None
                  | Some nd \<Rightarrow> eraseTo_loop (h(a := None)) (node_next nd) node))"

definition eraseTo :: "'a node_heap \<Rightarrow> NormalLink \<Rightarrow> addr \<Rightarrow> ('a node_heap \<times> NormalLink) option" where
  "eraseTo h l node = do {
     h \<leftarrow> eraseTo_loop h (link_head l) node;
     nd \<leftarrow> h node;
     let l1 = l\<lparr>link_head := node_next nd\<rparr>;
     (h, l2) \<leftarrow> (case link_head l1 of
        Some p \<Rightarrow> do { h \<leftarrow> set_prev h p None; Some (h, l1) }
      | None \<Rightarrow> do { assertion (link_tail l1 = Some node); Some (h, l1\<lparr>link_tail := None\<rparr>) });
     Some (h(node := None), l2)
   }"

section \<open>Representation\<close>

definition first_or :: "addr list \<Rightarrow> addr option \<Rightarrow> addr option" where
  "first_or xs n = (case xs of [] \<Rightarrow> n | x # _ \<Rightarrow> Some x)"

definition last_or :: "addr option \<Rightarrow> addr list \<Rightarrow> addr option" where
  "last_or p xs = (if xs = [] then p else Some (last xs))"

primrec dseg :: "'a node_heap \<Rightarrow> addr option \<Rightarrow> addr list \<Rightarrow> addr option \<Rightarrow> bool" where
  "dseg h p [] n \<longleftrightarrow> True"
| "dseg h p (x # xs) n \<longleftrightarrow>
     (\<exists>nd. h x = Some nd \<and> node_prev nd = p \<and> node_next nd = first_or xs n)
     \<and> dseg h (Some x) xs n"

definition linked :: "'a node_heap \<Rightarrow> NormalLink \<Rightarrow> addr list \<Rightarrow> bool" where
  "linked h l xs \<longleftrightarrow>
     distinct xs \<and> dseg h None xs None \<and> link_head l = first_or xs None \<and> link_tail l = last_or None xs"

definition link_data :: "'a node_heap \<Rightarrow> addr list \<Rightarrow> 'a list" where
  "link_data h xs = map (\<lambda>x. node_data (the (h x))) xs"

definition same_outside :: "addr set \<Rightarrow> 'a node_heap \<Rightarrow> 'a node_heap \<Rightarrow> bool" where
  "same_outside A h h' \<longleftrightarrow> (\<forall>x. x \<notin> A \<longrightarrow> h' x = h x)"

definition data_kept :: "addr set \<Rightarrow> 'a node_heap \<Rightarrow> 'a node_heap \<Rightarrow> bool" where
  "data_kept A h h' \<longleftrightarrow>
     (\<forall>x\<in>A. map_option node_data (h' x) = map_option node_data (h x))"

lemma first_or_simps [simp]:
  "first_or [] n = n" "first_or (x # xs) n = Some x"
  "first_or (xs @ ys) n = first_or xs (first_or ys n)"
  by (cases xs; simp add: first_or_def)+

lemma last_or_simps [simp]:
  "last_or p [] = p" "last_or p (x # xs) = last_or (Some x) xs" "last_or p (xs @ [x]) = Some x"
  "last_or p (xs @ ys) = last_or (last_or p xs) ys"
  by (auto simp: last_or_def)

lemma first_or_Some_ex [simp]: "\<exists>y. first_or xs (Some x) = Some y"
  by (cases xs) simp_all

lemma last_or_SomeD: "last_or p xs = Some y \<Longrightarrow> p = Some y \<or> y \<in> set xs"
  by (auto simp: last_or_def split: if_splits)

lemma first_or_SomeD: "first_or xs n = Some y \<Longrightarrow> n = Some y \<or> y \<in> set xs"
  by (cases xs) auto

lemma dseg_append: "dseg h p (xs @ ys) n \<longleftrightarrow> dseg h p xs (first_or ys n) \<and> dseg h (last_or p xs) ys n"
  by (induction xs arbitrary: p) auto

lemma dseg_upd_outside [simp]: "x \<notin> set xs \<Longrightarrow> dseg (h(x := v)) p xs n = dseg h p xs n"
  by (induction xs arbitrary: p) auto

lemma dseg_allocated: "dseg h p xs n \<Longrightarrow> x \<in> set xs \<Longrightarrow> h x \<noteq> None"
  by (induction xs arbitrary: p) auto


lemma dseg_Cons_prev:
  "dseg h p (x # xs) n \<Longrightarrow> x \<notin> set xs \<Longrightarrow> h x = Some nd \<Longrightarrow>
   dseg (h(x \<mapsto> nd\<lparr>node_prev := q\<rparr>)) q (x # xs) n"
  by auto

lemma dseg_snoc_next:
  "dseg h p (xs @ [x]) n \<Longrightarrow> x \<notin> set xs \<Longrightarrow> h x = Some nd \<Longrightarrow>
   dseg (h(x \<mapsto> nd\<lparr>node_next := m\<rparr>)) p (xs @ [x]) m"
  by (auto simp: dseg_append)

lemmas link_ops =
  push_back_def pop_front_def erase_def moveToTail_def set_next_def set_prev_def assertion_def Let_def

lemmas link_rep = linked_def dseg_append same_outside_def data_kept_def

lemma push_back_linked:
  assumes l: "linked h l xs" and node: "node \<notin> set xs" "h node = Some nd"
  shows "\<exists>h' l'. push_back h l node = Some (h', l') \<and> linked h' l' (xs @ [node])
     \<and> same_outside (insert node (set xs)) h h' \<and> data_kept (insert node (set xs)) h h'"
proof (cases xs rule: rev_cases)
  case Nil
  with l node show ?thesis by (auto simp: link_rep link_ops dest!: last_or_SomeD first_or_SomeD)
next
  case (snoc ys t)
  with l node show ?thesis by (auto simp: link_rep link_ops split: option.split)
qed

lemma erase_linked:
  assumes l: "linked h l (as @ node # bs)"
  shows "\<exists>h' l'. erase h l node = Some (h', l') \<and> linked h' l' (as @ bs) \<and> h' node = None
     \<and> same_outside (set (as @ node # bs)) h h' \<and> data_kept (set (as @ bs)) h h'"
proof (cases as rule: rev_cases)
  case Nil
  show ?thesis
  proof (cases bs)
    case Nil
    with l \<open>as = []\<close> show ?thesis by (auto simp: link_rep link_ops dest!: last_or_SomeD first_or_SomeD)
  next
    case (Cons b bs')
    with l \<open>as = []\<close> show ?thesis by (auto simp: link_rep link_ops dest!: last_or_SomeD first_or_SomeD)
  qed
next
  case (snoc as' a)
  show ?thesis
  proof (cases bs)
    case Nil
    with l snoc show ?thesis by (auto simp: link_rep link_ops dest!: last_or_SomeD first_or_SomeD)
  next
    case (Cons b bs')
    with l snoc show ?thesis by (auto simp: link_rep link_ops dest!: last_or_SomeD first_or_SomeD)
  qed
qed

lemma moveToTail_linked:
  assumes l: "linked h l (as @ node # bs)"
  shows "\<exists>h' l'. moveToTail h l node = Some (h', l') \<and> linked h' l' (as @ bs @ [node])
     \<and> same_outside (set (as @ node # bs)) h h' \<and> data_kept (set (as @ node # bs)) h h'"
proof (cases bs rule: rev_cases)
  case Nil
  with l show ?thesis by (auto simp: link_rep link_ops dest!: last_or_SomeD first_or_SomeD)
next
  case (snoc bs' t)
  show ?thesis
  proof (cases bs')
    case Nil
    with l snoc show ?thesis
      by (cases as rule: rev_cases) (auto simp: link_rep link_ops dest!: last_or_SomeD first_or_SomeD)
  next
    case (Cons b bs'')
    with l snoc show ?thesis
      by (cases as rule: rev_cases) (auto simp: link_rep link_ops dest!: last_or_SomeD first_or_SomeD)
  qed
qed

lemma pop_front_linked:
  assumes l: "linked h l (node # xs)"
  shows "\<exists>h' l'. pop_front h l = Some (h', l', Some node) \<and> linked h' l' xs
     \<and> same_outside (set (node # xs)) h h' \<and> data_kept (set (node # xs)) h h'"
  using l by (cases xs) (auto simp: link_rep link_ops dest!: last_or_SomeD first_or_SomeD)

lemma pop_front_empty: "linked h l [] \<Longrightarrow> pop_front h l = Some (h, l, None)"
  by (simp add: link_rep link_ops)

lemma clear_loop_dseg:
  "dseg h p xs None \<Longrightarrow> distinct xs \<Longrightarrow>
   clear_loop h (first_or xs None) = Some (\<lambda>a. if a \<in> set xs then None else h a)"
proof (induction xs arbitrary: h p)
  case Nil
  then show ?case by (simp add: clear_loop.simps)
next
  case (Cons x xs)
  then obtain nd where nd: "h x = Some nd" "node_next nd = first_or xs None" by auto
  have "dseg (h(x := None)) (Some x) xs None"
    using Cons.prems by (simp del: fun_upd_apply)
  moreover have "distinct xs"
    using Cons.prems by simp
  ultimately have "clear_loop (h(x := None)) (first_or xs None)
      = Some (\<lambda>a. if a \<in> set xs then None else (h(x := None)) a)"
    by (rule Cons.IH)
  with nd Cons show ?case
    by (subst clear_loop.simps) (auto simp: fun_eq_iff)
qed

lemma clear_link_linked:
  assumes "linked h l xs"
  shows "clear_link h l = Some (\<lambda>a. if a \<in> set xs then None else h a, empty_link)"
  using assms clear_loop_dseg [of h None xs]
  by (simp add: linked_def clear_link_def empty_link_def)

lemma eraseTo_loop_dseg:
  "dseg h p (as @ node # bs) None \<Longrightarrow> distinct (as @ node # bs) \<Longrightarrow>
   eraseTo_loop h (first_or as (Some node)) node = Some (\<lambda>a. if a \<in> set as then None else h a)"
proof (induction as arbitrary: h p)
  case Nil
  then show ?case by (simp add: eraseTo_loop.simps)
next
  case (Cons x xs)
  then obtain nd where nd: "h x = Some nd" "node_next nd = first_or xs (Some node)" by auto
  have "dseg (h(x := None)) (Some x) (xs @ node # bs) None"
    using Cons.prems by (subst dseg_upd_outside) simp_all
  moreover have "distinct (xs @ node # bs)"
    using Cons.prems by simp
  ultimately have "eraseTo_loop (h(x := None)) (first_or xs (Some node)) node
      = Some (\<lambda>a. if a \<in> set xs then None else (h(x := None)) a)"
    by (rule Cons.IH)
  with nd Cons show ?case
    by (subst eraseTo_loop.simps) (auto simp: fun_eq_iff)
qed

lemma dseg_cong: "(\<And>x. x \<in> set xs \<Longrightarrow> h x = h' x) \<Longrightarrow> dseg h p xs n = dseg h' p xs n"
  by (induction xs arbitrary: p) auto

lemma eraseTo_linked:
  assumes l: "linked h l (as @ node # bs)"
  shows "\<exists>h' l'. eraseTo h l node = Some (h', l') \<and> linked h' l' bs
     \<and> (\<forall>a \<in> set as \<union> {node}. h' a = None)
     \<and> same_outside (set (as @ node # bs)) h h' \<and> data_kept (set bs) h h'"
proof -
  let ?h = "\<lambda>a. if a \<in> set as then None else h a"
  have d: "distinct (as @ node # bs)" and s: "dseg h None (as @ node # bs) None"
    and hd: "link_head l = first_or as (Some node)"
    using l by (simp_all add: linked_def)
  have loop: "eraseTo_loop h (link_head l) node = Some ?h"
    using eraseTo_loop_dseg [OF s d] hd by simp
  have rest: "dseg ?h (last_or None as) (node # bs) None"
  proof -
    have "dseg h (last_or None as) (node # bs) None"
      using s by (simp add: dseg_append)
    also have "dseg h (last_or None as) (node # bs) None = dseg ?h (last_or None as) (node # bs) None"
      using d by (intro dseg_cong) auto
    finally show ?thesis .
  qed
  show ?thesis
  proof (cases bs)
    case Nil
    with l loop rest show ?thesis by (auto simp: link_rep link_ops eraseTo_def)
  next
    case (Cons b bs')
    with l loop rest d show ?thesis
      by (auto simp: link_rep link_ops eraseTo_def)
  qed
qed
lemma link_data_kept: "data_kept A h h' \<Longrightarrow> set xs \<subseteq> A \<Longrightarrow> link_data h' xs = link_data h xs"
  unfolding link_data_def data_kept_def
proof (rule map_cong)
  fix x assume kept: "\<forall>x\<in>A. map_option node_data (h' x) = map_option node_data (h x)"
    and "set xs \<subseteq> A" "x \<in> set xs"
  then have "map_option node_data (h' x) = map_option node_data (h x)" by blast
  then show "node_data (the (h' x)) = node_data (the (h x))"
    by (cases "h x"; cases "h' x") simp_all
qed simp

section \<open>Sequences of operations\<close>

text \<open>
  A link as its users see it: a list of nodes with their data.  \<open>LPush a v\<close> allocates the node \<open>a\<close>
  with data \<open>v\<close> and appends it.
\<close>

datatype 'a link_op = LPush addr 'a | LPop | LErase addr | LMove addr | LEraseTo addr | LClear

fun link_step :: "'a link_op \<Rightarrow> 'a node_heap \<times> NormalLink \<Rightarrow> ('a node_heap \<times> NormalLink) option" where
  "link_step (LPush a v) (h, l) = push_back (h(a \<mapsto> \<lparr>node_data = v, node_next = None, node_prev = None\<rparr>)) l a"
| "link_step LPop (h, l) = map_option (\<lambda>(h, l, _). (h, l)) (pop_front h l)"
| "link_step (LErase a) (h, l) = erase h l a"
| "link_step (LMove a) (h, l) = moveToTail h l a"
| "link_step (LEraseTo a) (h, l) = eraseTo h l a"
| "link_step LClear (h, l) = clear_link h l"

fun list_step :: "'a link_op \<Rightarrow> (addr \<times> 'a) list \<Rightarrow> (addr \<times> 'a) list option" where
  "list_step (LPush a v) ps = (if a \<in> fst ` set ps then None else Some (ps @ [(a, v)]))"
| "list_step LPop ps = Some (tl ps)"
| "list_step (LErase a) ps = (if a \<in> fst ` set ps then Some (filter (\<lambda>p. fst p \<noteq> a) ps) else None)"
| "list_step (LMove a) ps =
     (if a \<in> fst ` set ps then Some (filter (\<lambda>p. fst p \<noteq> a) ps @ filter (\<lambda>p. fst p = a) ps) else None)"
| "list_step (LEraseTo a) ps = (if a \<in> fst ` set ps then Some (tl (dropWhile (\<lambda>p. fst p \<noteq> a) ps)) else None)"
| "list_step LClear ps = Some []"

fun link_run :: "'a link_op list \<Rightarrow> 'a node_heap \<times> NormalLink \<Rightarrow> ('a node_heap \<times> NormalLink) option" where
  "link_run [] s = Some s"
| "link_run (x # xs) s = Option.bind (link_step x s) (link_run xs)"

fun list_run :: "'a link_op list \<Rightarrow> (addr \<times> 'a) list \<Rightarrow> (addr \<times> 'a) list option" where
  "list_run [] ps = Some ps"
| "list_run (x # xs) ps = Option.bind (list_step x ps) (list_run xs)"

definition link_rel :: "'a node_heap \<times> NormalLink \<Rightarrow> (addr \<times> 'a) list \<Rightarrow> bool" where
  "link_rel s ps \<longleftrightarrow> linked (fst s) (snd s) (map fst ps) \<and> link_data (fst s) (map fst ps) = map snd ps"

lemma split_at_node:
  assumes "a \<in> fst ` set ps" "distinct (map fst ps)"
  obtains as v bs where "ps = as @ (a, v) # bs" "a \<notin> fst ` set as" "a \<notin> fst ` set bs"
proof -
  obtain v where "(a, v) \<in> set ps" using assms by auto
  then obtain as bs where ps: "ps = as @ (a, v) # bs" by (meson split_list)
  then show thesis using that [OF ps] assms(2) by auto
qed

lemma filter_at_node:
  "a \<notin> fst ` set as \<Longrightarrow> filter (\<lambda>p. fst p \<noteq> a) as = as"
  "a \<notin> fst ` set as \<Longrightarrow> filter (\<lambda>p. fst p = a) as = []"
  by (force simp: filter_id_conv filter_empty_conv)+

lemma dropWhile_at_node:
  "a \<notin> fst ` set as \<Longrightarrow> dropWhile (\<lambda>p. fst p \<noteq> a) (as @ (a, v) # bs) = (a, v) # bs"
  by (induction as) auto

lemma link_rel_sub:
  assumes "link_data h (map fst ps) = map snd ps" "set qs \<subseteq> set ps" "data_kept A h h'"
    "set (map fst qs) \<subseteq> A" "linked h' l' (map fst qs)"
  shows "link_rel (h', l') qs"
proof -
  have "link_data h (map fst qs) = map snd qs" using assms(1,2) by (auto simp: link_data_def)
  with assms show ?thesis by (simp add: link_rel_def link_data_kept)
qed

lemma link_step_push:
  assumes "link_rel (h, l) ps" "a \<notin> fst ` set ps"
  shows "\<exists>s. link_step (LPush a v) (h, l) = Some s \<and> link_rel s (ps @ [(a, v)])"
proof -
  let ?nd = "\<lparr>node_data = v, node_next = None, node_prev = None\<rparr>"
  let ?h = "h(a \<mapsto> ?nd)"
  have "linked ?h l (map fst ps)" using assms by (simp add: link_rel_def linked_def)
  from push_back_linked [OF this, of a ?nd] assms(2) obtain h' l' where
    p: "push_back ?h l a = Some (h', l')" "linked h' l' (map fst ps @ [a])"
       "data_kept (insert a (fst ` set ps)) ?h h'" by auto
  have "link_data ?h (map fst (ps @ [(a, v)])) = map snd (ps @ [(a, v)])"
    using assms by (force simp: link_rel_def link_data_def)
  from link_rel_sub [OF this _ p(3), of "ps @ [(a, v)]"] p(1,2) show ?thesis by auto
qed

lemma link_step_at:
  assumes rel: "link_rel (h, l) (as @ (a, v) # bs)"
  shows "\<exists>s. link_step (LErase a) (h, l) = Some s \<and> link_rel s (as @ bs)"
    and "\<exists>s. link_step (LMove a) (h, l) = Some s \<and> link_rel s (as @ bs @ [(a, v)])"
    and "\<exists>s. link_step (LEraseTo a) (h, l) = Some s \<and> link_rel s bs"
proof -
  have l: "linked h l (map fst as @ a # map fst bs)"
    and d: "link_data h (map fst (as @ (a, v) # bs)) = map snd (as @ (a, v) # bs)"
    using rel by (simp_all add: link_rel_def)
  obtain h1 l1 where e: "erase h l a = Some (h1, l1)" "linked h1 l1 (map fst (as @ bs))"
      "data_kept (set (map fst as @ map fst bs)) h h1"
    using erase_linked [OF l] by auto
  have "link_rel (h1, l1) (as @ bs)" by (rule link_rel_sub [OF d _ e(3) _ e(2)]) auto
  with e(1) show "\<exists>s. link_step (LErase a) (h, l) = Some s \<and> link_rel s (as @ bs)" by simp
  obtain h1 l1 where m: "moveToTail h l a = Some (h1, l1)" "linked h1 l1 (map fst (as @ bs @ [(a, v)]))"
      "data_kept (set (map fst as @ a # map fst bs)) h h1"
    using moveToTail_linked [OF l] by auto
  have "link_rel (h1, l1) (as @ bs @ [(a, v)])" by (rule link_rel_sub [OF d _ m(3) _ m(2)]) auto
  with m(1) show "\<exists>s. link_step (LMove a) (h, l) = Some s \<and> link_rel s (as @ bs @ [(a, v)])" by simp
  obtain h1 l1 where t: "eraseTo h l a = Some (h1, l1)" "linked h1 l1 (map fst bs)"
      "data_kept (set (map fst bs)) h h1"
    using eraseTo_linked [OF l] by auto
  have "link_rel (h1, l1) bs" by (rule link_rel_sub [OF d _ t(3) _ t(2)]) auto
  with t(1) show "\<exists>s. link_step (LEraseTo a) (h, l) = Some s \<and> link_rel s bs" by simp
qed

lemma link_step_pop:
  assumes "link_rel (h, l) ps"
  shows "\<exists>s. link_step LPop (h, l) = Some s \<and> link_rel s (tl ps)"
proof (cases ps)
  case Nil
  with assms pop_front_empty [of h l] show ?thesis by (simp add: link_rel_def)
next
  case (Cons p qs)
  with assms have l: "linked h l (fst p # map fst qs)"
    and d: "link_data h (map fst ps) = map snd ps" by (simp_all add: link_rel_def)
  obtain h1 l1 where e: "pop_front h l = Some (h1, l1, Some (fst p))" "linked h1 l1 (map fst qs)"
      "data_kept (set (fst p # map fst qs)) h h1"
    using pop_front_linked [OF l] by auto
  have "link_rel (h1, l1) qs" by (rule link_rel_sub [OF d _ e(3) _ e(2)]) (auto simp: Cons)
  with e(1) Cons show ?thesis by simp
qed

lemma link_step_rel:
  assumes "link_rel s ps" "list_step x ps = Some ps'"
  shows "\<exists>s'. link_step x s = Some s' \<and> link_rel s' ps'"
proof -
  obtain h l where s: "s = (h, l)" by force
  have at: "\<exists>s'. link_step x s = Some s' \<and> link_rel s' ps'"
    if "a \<in> fst ` set ps" and x: "x \<in> {LErase a, LMove a, LEraseTo a}" for a
  proof -
    have "distinct (map fst ps)" using assms by (simp add: link_rel_def linked_def)
    with \<open>a \<in> fst ` set ps\<close> obtain as v bs where
      ps: "ps = as @ (a, v) # bs" "a \<notin> fst ` set as" "a \<notin> fst ` set bs" by (rule split_at_node)
    then show ?thesis
      using link_step_at [OF assms(1) [unfolded s ps(1)]] x assms(2)
      by (auto simp: s filter_at_node dropWhile_at_node)
  qed
  show ?thesis
  proof (cases x)
    case (LPush a v)
    with assms link_step_push [of h l ps a v] s show ?thesis by (auto split: if_splits)
  next
    case LPop
    with assms link_step_pop [of h l ps] s show ?thesis by auto
  next
    case LClear
    with assms clear_link_linked [of h l "map fst ps"] s show ?thesis
      by (auto simp: link_rel_def linked_def empty_link_def link_data_def)
  qed (use assms(2) at in \<open>auto split: if_splits\<close>)
qed

section \<open>Properties\<close>

text \<open>
  C30: any sequence of link operations that is meaningful for a list of nodes (fresh nodes pushed,
  only nodes of the list erased or moved) runs on the heap without following a null or dangling
  pointer and without a failing assertion, and leaves the forward and the backward chain, head and
  tail representing exactly the list the operations compute, with every node's data intact.
\<close>

theorem NormalLink_refines_list:
  assumes "link_rel s ps" "list_run ops ps = Some ps'"
  shows "\<exists>s'. link_run ops s = Some s' \<and> link_rel s' ps'"
  using assms
proof (induction ops arbitrary: s ps)
  case Nil
  then show ?case by simp
next
  case (Cons x ops)
  then obtain ps1 where "list_step x ps = Some ps1" "list_run ops ps1 = Some ps'"
    by (auto simp: bind_eq_Some_conv)
  with link_step_rel [OF Cons.prems(1)] Cons.IH show ?case by fastforce
qed

theorem NormalLink_refines_list_witness:
  "\<exists>s'. link_run [LPush 1 ''a'', LPush 2 ''b'', LPush 3 ''c'', LMove 1, LErase 3, LPop] (Map.empty, empty_link) = Some s'
     \<and> link_rel s' [(1, ''a'')]"
  by (rule NormalLink_refines_list [where ps = "[]"])
     (simp_all add: link_rel_def linked_def empty_link_def link_data_def)

end
