(* ===== verification/MsgBuffer.thy ===== *)
theory MsgBuffer
  imports Link
begin

text \<open>
  \<open>MessageBuffer\<close> of \<open>corpc_message_buffer.h/.cpp\<close>: the messages a connection has sent and the peer
  has not yet acknowledged, kept for sending them again after a reconnection.

  The object is modelled as it is written: a \<open>NormalLink\<close> of heap nodes (\<open>bufMsglink_\<close>) and a map
  from serials to the nodes (\<open>bufMsgMap_\<close>), an association list here.  A fresh node comes from the
  allocation counter \<open>mb_brk\<close>.  \<open>buffer_rel\<close> relates the object to the abstract buffer
  \<open>abs_buffer\<close>, a plain list of messages, on which every operation is a list function; the relation
  also says that the heap holds exactly the nodes of the list, so nothing leaks and nothing dangles.
\<close>

section \<open>Messages\<close>

text \<open>
  The \<open>std::shared_ptr<void> msg\<close> of \<open>SendMessageInfo\<close>: null, a \<open>std::string\<close>, or a protobuf
  message of the type \<open>'p\<close>, which is not part of this code base.
\<close>

datatype 'p msg_ptr = NullMsg | RawMsg "byte list" | ProtoMsg 'p

record 'p SendMessageInfo =
  smi_type :: u32
  smi_isRaw :: bool
  smi_needCrypt :: bool
  smi_tag :: u16
  smi_serial :: u32
  smi_msg :: "'p msg_ptr"

section \<open>The code\<close>

record 'p MessageBuffer =
  mb_heap :: "'p SendMessageInfo node_heap"
  mb_brk :: addr
  bufMsglink :: NormalLink
  bufMsgMap :: "(u64 \<times> addr) list"
  mb_broken :: bool
  maxMsgNum :: u32
  lastSerial :: u32
  lastScrapSerial :: u32

definition new_MessageBuffer :: "u32 \<Rightarrow> 'p MessageBuffer" where
  "new_MessageBuffer n =
     \<lparr>mb_heap = Map.empty, mb_brk = 0, bufMsglink = empty_link, bufMsgMap = [], mb_broken = False,
      maxMsgNum = n, lastSerial = 0, lastScrapSerial = 0\<rparr>"

text \<open>\<open>std::map::insert\<close> keeps an entry that is already there; \<open>std::map::erase\<close> drops the key.\<close>

definition map_insert :: "'k \<Rightarrow> 'v \<Rightarrow> ('k \<times> 'v) list \<Rightarrow> ('k \<times> 'v) list" where
  "map_insert k v m = (if map_of m k = None then (k, v) # m else m)"

definition map_erase :: "'k \<Rightarrow> ('k \<times> 'v) list \<Rightarrow> ('k \<times> 'v) list" where
  "map_erase k m = filter (\<lambda>(k', _). k' \<noteq> k) m"

definition clear_buffer :: "'p MessageBuffer \<Rightarrow> 'p MessageBuffer option" where
  "clear_buffer b = do {
     (h, l) \<leftarrow> clear_link (mb_heap b) (bufMsglink b);
     Some (b\<lparr>mb_heap := h, bufMsglink := l, bufMsgMap := []\<rparr>)
   }"

definition reset :: "'p MessageBuffer \<Rightarrow> u32 \<Rightarrow> 'p MessageBuffer option" where
  "reset b serial = do {
     b \<leftarrow> clear_buffer (b\<lparr>mb_broken := False\<rparr>);
     Some (b\<lparr>lastSerial := serial, lastScrapSerial := serial\<rparr>)
   }"

text \<open>The overflow branch of \<open>insertMessage\<close>: the oldest message goes.\<close>

definition evict_oldest :: "'p MessageBuffer \<Rightarrow> 'p MessageBuffer option" where
  "evict_oldest b = do {
     it \<leftarrow> link_head (bufMsglink b);
     nd \<leftarrow> mb_heap b it;
     let s = smi_serial (node_data nd);
     (h, l) \<leftarrow> erase (mb_heap b) (bufMsglink b) it;
     Some (b\<lparr>lastScrapSerial := s, bufMsgMap := map_erase (ucast s) (bufMsgMap b),
             mb_heap := h, bufMsglink := l\<rparr>)
   }"

definition append_message :: "'p MessageBuffer \<Rightarrow> 'p SendMessageInfo \<Rightarrow> 'p MessageBuffer option" where
  "append_message b m = do {
     let node = mb_brk b;
     let h0 = (mb_heap b)(node \<mapsto> \<lparr>node_data = m, node_next = None, node_prev = None\<rparr>);
     (h, l) \<leftarrow> push_back h0 (bufMsglink b) node;
     Some (b\<lparr>mb_brk := node + 1, mb_heap := h, bufMsglink := l,
             bufMsgMap := map_insert (ucast (smi_serial m)) node (bufMsgMap b),
             lastSerial := smi_serial m\<rparr>)
   }"

definition insertMessage ::
  "'p MessageBuffer \<Rightarrow> 'p SendMessageInfo \<Rightarrow> ('p MessageBuffer \<times> bool) option" where
  "insertMessage b m =
     (if \<not> mb_broken b then do {
        b \<leftarrow> (if maxMsgNum b > 0 \<and> length (bufMsgMap b) \<ge> unat (maxMsgNum b)
              then evict_oldest b else Some b);
        let b = (if smi_serial m \<noteq> lastSerial b + 1 then b\<lparr>mb_broken := True\<rparr> else b);
        (if mb_broken b then do { b \<leftarrow> clear_buffer b; Some (b, False) }
         else do { b \<leftarrow> append_message b m; Some (b, True) })
      }
      else Some (b, False))"

definition jumpToSerial :: "'p MessageBuffer \<Rightarrow> u32 \<Rightarrow> ('p MessageBuffer \<times> bool) option" where
  "jumpToSerial b serial =
     (if \<not> mb_broken b then do {
        let b = (if serial \<noteq> lastSerial b + 1 then b\<lparr>mb_broken := True\<rparr> else b);
        (if mb_broken b then do { b \<leftarrow> clear_buffer b; Some (b, False) }
         else Some (b\<lparr>lastSerial := serial\<rparr>, True))
      }
      else Some (b, False))"

text \<open>The handle of \<open>traverse\<close> is a closure; its captured variables are the state \<open>s\<close>.\<close>

partial_function (option) traverse_loop ::
  "'p SendMessageInfo node_heap \<Rightarrow> addr option \<Rightarrow> ('p SendMessageInfo \<Rightarrow> 's \<Rightarrow> bool \<times> 's) \<Rightarrow> 's \<Rightarrow> 's option"
where
  "traverse_loop h it handle s =
     (case it of
        None \<Rightarrow> Some s
      | Some a \<Rightarrow> (case h a of
          None \<Rightarrow> None
        | Some nd \<Rightarrow> (case handle (node_data nd) s of
            (goon, s') \<Rightarrow> if goon then traverse_loop h (node_next nd) handle s' else Some s')))"

definition traverse ::
  "'p MessageBuffer \<Rightarrow> ('p SendMessageInfo \<Rightarrow> 's \<Rightarrow> bool \<times> 's) \<Rightarrow> 's \<Rightarrow> 's option" where
  "traverse b handle s = traverse_loop (mb_heap b) (link_head (bufMsglink b)) handle s"

text \<open>\<open>curIt = it1++\<close> reads the next pointer before the node is erased.\<close>

partial_function (option) scrap_loop ::
  "'p MessageBuffer \<Rightarrow> addr option \<Rightarrow> u32 \<Rightarrow> 'p MessageBuffer option" where
  "scrap_loop b it1 serial =
     (case it1 of
        None \<Rightarrow> Some b
      | Some curIt \<Rightarrow> (case mb_heap b curIt of
          None \<Rightarrow> None
        | Some nd \<Rightarrow>
            if smi_serial (node_data nd) > serial then Some b
            else (case erase (mb_heap b) (bufMsglink b) curIt of
              None \<Rightarrow> None
            | Some (h, l) \<Rightarrow>
                scrap_loop
                  (b\<lparr>bufMsgMap := map_erase (ucast (smi_serial (node_data nd))) (bufMsgMap b),
                     mb_heap := h, bufMsglink := l\<rparr>)
                  (node_next nd) serial)))"

definition scrapMessages :: "'p MessageBuffer \<Rightarrow> u32 \<Rightarrow> 'p MessageBuffer option" where
  "scrapMessages b serial = do {
     b \<leftarrow> scrap_loop b (link_head (bufMsglink b)) serial;
     Some (if lastScrapSerial b < serial then b\<lparr>lastScrapSerial := serial\<rparr> else b)
   }"


section \<open>The abstract buffer\<close>

record 'p abs_buffer =
  ab_msgs :: "'p SendMessageInfo list"
  ab_broken :: bool
  ab_max :: u32
  ab_last :: u32
  ab_scrap :: u32

definition new_spec :: "u32 \<Rightarrow> 'p abs_buffer" where
  "new_spec n = \<lparr>ab_msgs = [], ab_broken = False, ab_max = n, ab_last = 0, ab_scrap = 0\<rparr>"

definition reset_spec :: "'p abs_buffer \<Rightarrow> u32 \<Rightarrow> 'p abs_buffer" where
  "reset_spec a s = a\<lparr>ab_msgs := [], ab_broken := False, ab_last := s, ab_scrap := s\<rparr>"

definition evict_spec :: "'p abs_buffer \<Rightarrow> 'p abs_buffer" where
  "evict_spec a =
     (if ab_max a > 0 \<and> length (ab_msgs a) \<ge> unat (ab_max a)
      then a\<lparr>ab_msgs := tl (ab_msgs a), ab_scrap := smi_serial (hd (ab_msgs a))\<rparr> else a)"

definition insert_spec :: "'p abs_buffer \<Rightarrow> 'p SendMessageInfo \<Rightarrow> 'p abs_buffer \<times> bool" where
  "insert_spec a m =
     (if ab_broken a then (a, False)
      else let a = evict_spec a in
        if smi_serial m = ab_last a + 1
        then (a\<lparr>ab_msgs := ab_msgs a @ [m], ab_last := smi_serial m\<rparr>, True)
        else (a\<lparr>ab_broken := True, ab_msgs := []\<rparr>, False))"

definition jump_spec :: "'p abs_buffer \<Rightarrow> u32 \<Rightarrow> 'p abs_buffer \<times> bool" where
  "jump_spec a s =
     (if ab_broken a then (a, False)
      else if s = ab_last a + 1 then (a\<lparr>ab_last := s\<rparr>, True)
      else (a\<lparr>ab_broken := True, ab_msgs := []\<rparr>, False))"

definition scrap_spec :: "'p abs_buffer \<Rightarrow> u32 \<Rightarrow> 'p abs_buffer" where
  "scrap_spec a s =
     a\<lparr>ab_msgs := dropWhile (\<lambda>m. smi_serial m \<le> s) (ab_msgs a), ab_scrap := max (ab_scrap a) s\<rparr>"

section \<open>Refinement\<close>

definition serials :: "'p SendMessageInfo list \<Rightarrow> u32 list" where
  "serials ms = map smi_serial ms"

definition index_of :: "'p SendMessageInfo list \<Rightarrow> addr list \<Rightarrow> (u64 \<times> addr) set" where
  "index_of ms xs = set (zip (map (\<lambda>m. ucast (smi_serial m)) ms) xs)"

definition holds_list ::
  "'p MessageBuffer \<Rightarrow> addr list \<Rightarrow> 'p SendMessageInfo list \<Rightarrow> bool" where
  "holds_list b xs ms \<longleftrightarrow>
     linked (mb_heap b) (bufMsglink b) xs \<and> dom (mb_heap b) = set xs \<and> (\<forall>x\<in>set xs. x < mb_brk b)
     \<and> link_data (mb_heap b) xs = ms \<and> distinct (serials ms)
     \<and> distinct (map fst (bufMsgMap b)) \<and> set (bufMsgMap b) = index_of ms xs"

definition buffer_rel :: "'p MessageBuffer \<Rightarrow> 'p abs_buffer \<Rightarrow> bool" where
  "buffer_rel b a \<longleftrightarrow>
     (\<exists>xs. holds_list b xs (ab_msgs a)) \<and> mb_broken b = ab_broken a \<and> maxMsgNum b = ab_max a
     \<and> lastSerial b = ab_last a \<and> lastScrapSerial b = ab_scrap a"

lemma ucast_serial_inj [simp]: "(ucast (s :: u32) :: u64) = ucast s' \<longleftrightarrow> s = s'"
proof
  assume eq: "(ucast s :: u64) = ucast s'"
  show "s = s'"
  proof (rule bit_word_eqI)
    fix n assume "n < LENGTH(32)"
    with arg_cong [OF eq, where f = "\<lambda>w. bit w n"] show "bit s n = bit s' n"
      by (simp add: bit_simps)
  qed
qed simp

lemma linked_length: "link_data h xs = ms \<Longrightarrow> length ms = length xs"
  by (auto simp: link_data_def)

lemma linked_allocated: "linked h l xs \<Longrightarrow> set xs \<subseteq> dom h"
  by (auto simp: linked_def dest: dseg_allocated)

lemma dom_after:
  assumes "linked h' l' ys" "same_outside (set xs) h h'" "dom h \<subseteq> set xs"
    "set xs - set ys \<subseteq> {x. h' x = None}"
  shows "dom h' = set ys"
proof
  show "set ys \<subseteq> dom h'" using assms(1) by (rule linked_allocated)
  show "dom h' \<subseteq> set ys"
  proof
    fix x assume x: "x \<in> dom h'"
    have "x \<in> set xs"
      using x assms(2,3) by (cases "x \<in> set xs") (auto simp: same_outside_def dom_def)
    with x assms(4) show "x \<in> set ys" by auto
  qed
qed

lemma holds_listD:
  assumes "holds_list b xs ms"
  shows "length ms = length xs" "length (bufMsgMap b) = length ms" "distinct xs"
proof -
  have dist: "distinct xs" and len: "length ms = length xs"
    using assms by (auto simp: holds_list_def linked_def intro: linked_length)
  have "distinct (bufMsgMap b)"
    using assms by (simp add: holds_list_def distinct_map)
  then have "length (bufMsgMap b) = card (set (bufMsgMap b))"
    by (simp only: distinct_card)
  also have "\<dots> = length (zip (map (\<lambda>m. ucast (smi_serial m) :: u64) ms) xs)"
    using assms dist by (simp add: holds_list_def index_of_def distinct_card distinct_zipI2)
  finally show "length (bufMsgMap b) = length ms" using len by simp
  show "length ms = length xs" "distinct xs" by fact+
qed


lemma clear_buffer_holds:
  assumes "holds_list b xs ms"
  shows "clear_buffer b = Some (b\<lparr>mb_heap := Map.empty, bufMsglink := empty_link, bufMsgMap := []\<rparr>)"
proof -
  have "(\<lambda>a. if a \<in> set xs then None else mb_heap b a) = Map.empty"
    using assms by (auto simp: holds_list_def fun_eq_iff)
  then show ?thesis
    using assms clear_link_linked [of "mb_heap b" "bufMsglink b" xs]
    by (simp add: holds_list_def clear_buffer_def)
qed

lemma holds_list_empty:
  "mb_heap b = Map.empty \<Longrightarrow> bufMsglink b = empty_link \<Longrightarrow> bufMsgMap b = [] \<Longrightarrow> holds_list b [] []"
  by (simp add: holds_list_def linked_def link_data_def empty_link_def serials_def index_of_def)

lemma holds_list_cong:
  "mb_heap b' = mb_heap b \<Longrightarrow> bufMsglink b' = bufMsglink b \<Longrightarrow> bufMsgMap b' = bufMsgMap b \<Longrightarrow>
   mb_brk b' = mb_brk b \<Longrightarrow> holds_list b' xs ms = holds_list b xs ms"
  by (simp add: holds_list_def)

lemma erase_head_holds:
  assumes "holds_list b (x # xs) (m # ms)"
  obtains h l where "erase (mb_heap b) (bufMsglink b) x = Some (h, l)"
    and "\<And>b'. mb_heap b' = h \<Longrightarrow> bufMsglink b' = l \<Longrightarrow> mb_brk b' = mb_brk b \<Longrightarrow>
           bufMsgMap b' = map_erase (ucast (smi_serial m)) (bufMsgMap b) \<Longrightarrow> holds_list b' xs ms"
proof -
  note H = assms [unfolded holds_list_def]
  obtain h l where e: "erase (mb_heap b) (bufMsglink b) x = Some (h, l)" "linked h l xs" "h x = None"
      "same_outside (set (x # xs)) (mb_heap b) h" "data_kept (set xs) (mb_heap b) h"
    using erase_linked [of "mb_heap b" "bufMsglink b" "[]" x xs] H by auto
  have x: "x \<notin> set xs" using H by (simp add: linked_def)
  have "dom h = set xs"
    using dom_after [OF e(2,4)] H e(3) by auto
  moreover have "link_data h xs = ms"
    using H link_data_kept [OF e(5), of xs] by (auto simp: link_data_def)
  moreover have "set (map_erase (ucast (smi_serial m)) (bufMsgMap b)) = index_of ms xs"
  proof -
    have "ucast (smi_serial m) \<notin> fst ` index_of ms xs"
      using H by (auto simp: index_of_def serials_def dest!: set_zip_leftD)
    then show ?thesis
      using H by (auto simp: map_erase_def index_of_def image_iff)
  qed
  moreover have "distinct (map fst (map_erase (ucast (smi_serial m)) (bufMsgMap b)))"
    using H by (simp add: map_erase_def distinct_map_filter)
  ultimately show ?thesis
    using that [OF e(1)] e(2) H by (simp add: holds_list_def serials_def)
qed

lemma append_message_holds:
  assumes "holds_list b xs ms" "smi_serial m \<notin> set (serials ms)"
  shows "\<exists>b'. append_message b m = Some b' \<and> holds_list b' (xs @ [mb_brk b]) (ms @ [m])
     \<and> mb_broken b' = mb_broken b \<and> maxMsgNum b' = maxMsgNum b
     \<and> lastSerial b' = smi_serial m \<and> lastScrapSerial b' = lastScrapSerial b"
proof -
  note H = assms(1) [unfolded holds_list_def]
  let ?n = "mb_brk b"
  let ?nd = "\<lparr>node_data = m, node_next = None, node_prev = None\<rparr>"
  let ?h0 = "(mb_heap b)(?n \<mapsto> ?nd)"
  have n: "?n \<notin> set xs" using H by auto
  have l0: "linked ?h0 (bufMsglink b) xs" using H n by (simp add: linked_def)
  obtain h l where p: "push_back ?h0 (bufMsglink b) ?n = Some (h, l)" "linked h l (xs @ [?n])"
      "same_outside (insert ?n (set xs)) ?h0 h" "data_kept (insert ?n (set xs)) ?h0 h"
    using push_back_linked [OF l0 n, of ?nd] by auto
  have "dom h = set (xs @ [?n])"
    using H by (intro dom_after [OF p(2), of "xs @ [?n]" ?h0]) (use p(3) in auto)
  moreover have "link_data h (xs @ [?n]) = ms @ [m]"
  proof -
    have "link_data h (xs @ [?n]) = link_data ?h0 (xs @ [?n])"
      using p(4) by (rule link_data_kept) simp
    also have "\<dots> = link_data (mb_heap b) xs @ [m]"
      using n by (auto simp: link_data_def)
    finally show ?thesis using H by simp
  qed
  moreover have "map_of (bufMsgMap b) (ucast (smi_serial m)) = None"
  proof -
    have "ucast (smi_serial m) \<notin> fst ` set (bufMsgMap b)"
      using H assms(2) by (auto simp: index_of_def serials_def dest!: set_zip_leftD)
    then show ?thesis by (simp add: map_of_eq_None_iff)
  qed
  moreover have "index_of (ms @ [m]) (xs @ [?n]) = insert (ucast (smi_serial m), ?n) (index_of ms xs)"
    using holds_listD(1) [OF assms(1)] by (simp add: index_of_def)
  ultimately show ?thesis
    using p(1,2) H assms(2)
    by (auto simp: append_message_def holds_list_def map_insert_def serials_def map_of_eq_None_iff
        less_Suc_eq Let_def)
qed


subsection \<open>One operation\<close>

lemma buffer_relE:
  assumes "buffer_rel b a"
  obtains xs where "holds_list b xs (ab_msgs a)" "length (bufMsgMap b) = length (ab_msgs a)"
    "mb_broken b = ab_broken a" "maxMsgNum b = ab_max a" "lastSerial b = ab_last a"
    "lastScrapSerial b = ab_scrap a"
  using assms by (auto simp: buffer_rel_def dest: holds_listD(2))

lemma new_rel: "buffer_rel (new_MessageBuffer n) (new_spec n)"
  by (auto simp: buffer_rel_def new_MessageBuffer_def new_spec_def intro!: exI [of _ "[]"] holds_list_empty)

lemma clear_buffer_rel:
  assumes "buffer_rel b a"
  shows "\<exists>b'. clear_buffer b = Some b' \<and> buffer_rel b' (a\<lparr>ab_msgs := []\<rparr>)"
  using assms by (elim buffer_relE) (auto simp: clear_buffer_holds buffer_rel_def intro!: exI [of _ "[]"] holds_list_empty)

lemma buffer_rel_flags:
  assumes "buffer_rel b a"
  shows "buffer_rel (b\<lparr>mb_broken := x\<rparr>) (a\<lparr>ab_broken := x\<rparr>)"
    and "buffer_rel (b\<lparr>lastSerial := s\<rparr>) (a\<lparr>ab_last := s\<rparr>)"
    and "buffer_rel (b\<lparr>lastScrapSerial := s\<rparr>) (a\<lparr>ab_scrap := s\<rparr>)"
  using assms by (auto simp: buffer_rel_def holds_list_def)

lemma reset_rel:
  assumes "buffer_rel b a"
  shows "\<exists>b'. reset b s = Some b' \<and> buffer_rel b' (reset_spec a s)"
proof -
  obtain b1 where "clear_buffer (b\<lparr>mb_broken := False\<rparr>) = Some b1"
      "buffer_rel b1 (a\<lparr>ab_broken := False, ab_msgs := []\<rparr>)"
    using clear_buffer_rel [OF buffer_rel_flags(1) [OF assms, of False]] by auto
  then show ?thesis
    by (auto simp: reset_def reset_spec_def buffer_rel_def holds_list_def)
qed

lemma evict_oldest_rel:
  assumes "buffer_rel b a" "ab_msgs a = m # ms"
  shows "\<exists>b'. evict_oldest b = Some b' \<and> buffer_rel b' (a\<lparr>ab_msgs := ms, ab_scrap := smi_serial m\<rparr>)"
proof -
  obtain ys where "holds_list b ys (m # ms)" using assms by (auto simp: buffer_rel_def)
  moreover then obtain x xs where "ys = x # xs" by (cases ys) (auto dest: holds_listD(1))
  ultimately have H: "holds_list b (x # xs) (m # ms)" by simp
  obtain nd where nd: "link_head (bufMsglink b) = Some x" "mb_heap b x = Some nd" "node_data nd = m"
    using H by (auto simp: holds_list_def linked_def link_data_def)
  from H show ?thesis
    by (rule erase_head_holds) (use assms nd in \<open>auto simp: evict_oldest_def buffer_rel_def Let_def intro!: exI [of _ xs]\<close>)
qed

lemma evict_rel:
  assumes "buffer_rel b a"
  shows "\<exists>b'. (if maxMsgNum b > 0 \<and> length (bufMsgMap b) \<ge> unat (maxMsgNum b)
               then evict_oldest b else Some b) = Some b' \<and> buffer_rel b' (evict_spec a)"
proof (cases "ab_max a > 0 \<and> length (ab_msgs a) \<ge> unat (ab_max a)")
  case True
  then have "ab_msgs a \<noteq> []" by (auto simp: word_greater_zero_iff unat_eq_0)
  then obtain m ms where "ab_msgs a = m # ms" by (cases "ab_msgs a") auto
  with evict_oldest_rel [OF assms this] True assms show ?thesis
    by (auto simp: evict_spec_def elim!: buffer_relE)
next
  case False
  with assms show ?thesis by (auto simp: evict_spec_def elim!: buffer_relE)
qed

lemma append_message_rel:
  assumes "buffer_rel b a" "smi_serial m \<notin> set (serials (ab_msgs a))"
  shows "\<exists>b'. append_message b m = Some b'
     \<and> buffer_rel b' (a\<lparr>ab_msgs := ab_msgs a @ [m], ab_last := smi_serial m\<rparr>)"
  using assms(1)
proof (rule buffer_relE)
  fix xs assume "holds_list b xs (ab_msgs a)" and "mb_broken b = ab_broken a" "maxMsgNum b = ab_max a"
    "lastScrapSerial b = ab_scrap a"
  with append_message_holds [OF this(1) assms(2)] show ?thesis by (auto simp: buffer_rel_def)
qed

lemma serials_evict: "set (serials (ab_msgs (evict_spec a))) \<subseteq> set (serials (ab_msgs a))"
  by (cases "ab_msgs a") (auto simp: evict_spec_def serials_def)

lemma evict_spec_fields [simp]:
  "ab_broken (evict_spec a) = ab_broken a" "ab_last (evict_spec a) = ab_last a"
  "ab_max (evict_spec a) = ab_max a"
  by (simp_all add: evict_spec_def)

lemma insertMessage_rel:
  assumes "buffer_rel b a" "smi_serial m = ab_last a + 1 \<Longrightarrow> smi_serial m \<notin> set (serials (ab_msgs a))"
  shows "\<exists>b'. insertMessage b m = Some (b', snd (insert_spec a m)) \<and> buffer_rel b' (fst (insert_spec a m))"
proof (cases "ab_broken a")
  case True
  with assms show ?thesis by (auto simp: insertMessage_def insert_spec_def elim: buffer_relE)
next
  case False
  obtain b1 where b1: "(if maxMsgNum b > 0 \<and> length (bufMsgMap b) \<ge> unat (maxMsgNum b)
      then evict_oldest b else Some b) = Some b1" "buffer_rel b1 (evict_spec a)"
    using evict_rel [OF assms(1)] by auto
  have br: "mb_broken b = ab_broken a" "mb_broken b1 = ab_broken a" "lastSerial b1 = ab_last a"
    using assms(1) b1(2) by (auto simp: buffer_rel_def)
  show ?thesis
  proof (cases "smi_serial m = ab_last a + 1")
    case True
    with assms(2) serials_evict [of a] have "smi_serial m \<notin> set (serials (ab_msgs (evict_spec a)))" by blast
    from append_message_rel [OF b1(2) this] show ?thesis
      using False True br b1(1) by (auto simp: insertMessage_def insert_spec_def Let_def)
  next
    case wrong: False
    from clear_buffer_rel [OF buffer_rel_flags(1) [OF b1(2), of True]] show ?thesis
      using False wrong br b1(1) by (auto simp: insertMessage_def insert_spec_def Let_def)
  qed
qed

lemma jumpToSerial_rel:
  assumes "buffer_rel b a"
  shows "\<exists>b'. jumpToSerial b s = Some (b', snd (jump_spec a s)) \<and> buffer_rel b' (fst (jump_spec a s))"
proof -
  have "mb_broken b = ab_broken a" "lastSerial b = ab_last a" using assms by (auto simp: buffer_rel_def)
  with clear_buffer_rel [OF buffer_rel_flags(1) [OF assms, of True]] buffer_rel_flags(2) [OF assms, of s] assms
  show ?thesis by (auto simp: jumpToSerial_def jump_spec_def Let_def)
qed

lemma scrap_loop_holds:
  "holds_list b xs ms \<Longrightarrow>
   \<exists>b' ys. scrap_loop b (first_or xs None) s = Some b'
     \<and> holds_list b' ys (dropWhile (\<lambda>m. smi_serial m \<le> s) ms)
     \<and> mb_broken b' = mb_broken b \<and> maxMsgNum b' = maxMsgNum b
     \<and> lastSerial b' = lastSerial b \<and> lastScrapSerial b' = lastScrapSerial b"
proof (induction ms arbitrary: b xs)
  case Nil
  then have "xs = []" by (auto dest: holds_listD(1))
  with Nil show ?case by (auto simp: scrap_loop.simps)
next
  case (Cons m ms)
  then obtain x zs where xs: "xs = x # zs" by (cases xs) (auto dest: holds_listD(1))
  obtain nd where nd: "mb_heap b x = Some nd" "node_data nd = m" "node_next nd = first_or zs None"
    using Cons.prems xs by (auto simp: holds_list_def linked_def link_data_def)
  show ?case
  proof (cases "smi_serial m \<le> s")
    case False
    with Cons.prems xs nd show ?thesis by (auto simp: scrap_loop.simps)
  next
    case True
    from Cons.prems [unfolded xs] show ?thesis
    proof (rule erase_head_holds)
      fix h l assume e: "erase (mb_heap b) (bufMsglink b) x = Some (h, l)"
        and H: "\<And>b'. mb_heap b' = h \<Longrightarrow> bufMsglink b' = l \<Longrightarrow> mb_brk b' = mb_brk b \<Longrightarrow>
           bufMsgMap b' = map_erase (ucast (smi_serial m)) (bufMsgMap b) \<Longrightarrow> holds_list b' zs ms"
      let ?b = "b\<lparr>bufMsgMap := map_erase (ucast (smi_serial m)) (bufMsgMap b),
                  mb_heap := h, bufMsglink := l\<rparr>"
      have "holds_list ?b zs ms" by (rule H) simp_all
      from Cons.IH [OF this] True nd e xs show ?thesis
        by (subst scrap_loop.simps) (auto simp: not_less)
    qed
  qed
qed

lemma holds_list_head: "holds_list b xs ms \<Longrightarrow> link_head (bufMsglink b) = first_or xs None"
  by (simp add: holds_list_def linked_def)

lemma scrapMessages_rel:
  assumes "buffer_rel b a"
  shows "\<exists>b'. scrapMessages b s = Some b' \<and> buffer_rel b' (scrap_spec a s)"
  using assms
proof (rule buffer_relE)
  fix xs assume H: "holds_list b xs (ab_msgs a)" and "mb_broken b = ab_broken a"
    "maxMsgNum b = ab_max a" "lastSerial b = ab_last a" "lastScrapSerial b = ab_scrap a"
  with scrap_loop_holds [OF H, of s] show ?thesis
    by (auto simp: scrapMessages_def holds_list_head [OF H] buffer_rel_def scrap_spec_def max_def
        holds_list_def)
qed

text \<open>What \<open>traverse\<close> does to the closure's state, on the list.\<close>

fun handle_until :: "('m \<Rightarrow> 's \<Rightarrow> bool \<times> 's) \<Rightarrow> 'm list \<Rightarrow> 's \<Rightarrow> 's" where
  "handle_until handle [] s = s"
| "handle_until handle (m # ms) s =
     (case handle m s of (goon, s') \<Rightarrow> if goon then handle_until handle ms s' else s')"

lemma traverse_loop_dseg:
  "dseg h p xs None \<Longrightarrow> traverse_loop h (first_or xs None) handle s = Some (handle_until handle (link_data h xs) s)"
proof (induction xs arbitrary: p s)
  case Nil
  then show ?case by (simp add: traverse_loop.simps link_data_def)
next
  case (Cons x xs)
  then show ?case
    by (subst traverse_loop.simps) (auto simp: link_data_def split: prod.split)
qed

lemma traverse_rel:
  assumes "buffer_rel b a"
  shows "traverse b handle s = Some (handle_until handle (ab_msgs a) s)"
  using assms
proof (rule buffer_relE)
  fix xs assume H: "holds_list b xs (ab_msgs a)"
  then show ?thesis
    using traverse_loop_dseg [of "mb_heap b" None xs handle s]
    by (simp add: traverse_def holds_list_head [OF H]) (simp add: holds_list_def linked_def)
qed

subsection \<open>Sequences of operations\<close>

datatype 'p buffer_op = OpReset u32 | OpInsert "'p SendMessageInfo" | OpJump u32 | OpScrap u32

fun buffer_step :: "'p buffer_op \<Rightarrow> 'p MessageBuffer \<Rightarrow> ('p MessageBuffer \<times> bool) option" where
  "buffer_step (OpReset s) b = map_option (\<lambda>b. (b, True)) (reset b s)"
| "buffer_step (OpInsert m) b = insertMessage b m"
| "buffer_step (OpJump s) b = jumpToSerial b s"
| "buffer_step (OpScrap s) b = map_option (\<lambda>b. (b, True)) (scrapMessages b s)"

fun spec_step :: "'p buffer_op \<Rightarrow> 'p abs_buffer \<Rightarrow> 'p abs_buffer \<times> bool" where
  "spec_step (OpReset s) a = (reset_spec a s, True)"
| "spec_step (OpInsert m) a = insert_spec a m"
| "spec_step (OpJump s) a = jump_spec a s"
| "spec_step (OpScrap s) a = (scrap_spec a s, True)"

fun buffer_run :: "'p buffer_op list \<Rightarrow> 'p MessageBuffer \<Rightarrow> ('p MessageBuffer \<times> bool list) option" where
  "buffer_run [] b = Some (b, [])"
| "buffer_run (x # xs) b = do {
     (b, r) \<leftarrow> buffer_step x b;
     (b, rs) \<leftarrow> buffer_run xs b;
     Some (b, r # rs)
   }"

fun spec_run :: "'p buffer_op list \<Rightarrow> 'p abs_buffer \<Rightarrow> 'p abs_buffer \<times> bool list" where
  "spec_run [] a = (a, [])"
| "spec_run (x # xs) a =
     (let (a, r) = spec_step x a; (a, rs) = spec_run xs a in (a, r # rs))"

fun takes_serial :: "'p buffer_op \<Rightarrow> bool" where
  "takes_serial (OpInsert _) \<longleftrightarrow> True"
| "takes_serial (OpJump _) \<longleftrightarrow> True"
| "takes_serial _ \<longleftrightarrow> False"

text \<open>
  The age of a buffered message is how many serials have been given out after its own.  The
  messages stand in the order of their serials, oldest first, and none is older than the number
  \<open>n\<close> of serials given out; serials stay distinct as long as \<open>n\<close> does not reach \<open>2\<^sup>3\<^sup>2\<close>.
\<close>

definition age :: "'p abs_buffer \<Rightarrow> 'p SendMessageInfo \<Rightarrow> nat" where
  "age a m = unat (ab_last a - smi_serial m)"

definition buffer_inv :: "nat \<Rightarrow> 'p abs_buffer \<Rightarrow> bool" where
  "buffer_inv n a \<longleftrightarrow>
     sorted_wrt (\<lambda>m m'. age a m > age a m') (ab_msgs a) \<and> (\<forall>m\<in>set (ab_msgs a). age a m < n)
     \<and> (ab_max a > 0 \<longrightarrow> length (ab_msgs a) \<le> unat (ab_max a))"

lemma age_next:
  assumes "age a m < n" "n < 2 ^ 32"
  shows "unat (ab_last a + 1 - smi_serial m) = Suc (age a m)"
proof -
  let ?w = "ab_last a - smi_serial m"
  have "unat ?w + 1 < 2 ^ 32" using assms by (simp add: age_def)
  then have "unat (?w + 1) = unat ?w + 1" by (simp add: unat_word_ariths)
  then show ?thesis by (simp add: age_def algebra_simps)
qed

lemma serial_fresh:
  assumes "buffer_inv n a" "n < 2 ^ 32"
  shows "ab_last a + 1 \<notin> set (serials (ab_msgs a))"
proof
  assume "ab_last a + 1 \<in> set (serials (ab_msgs a))"
  then obtain m where m: "m \<in> set (ab_msgs a)" "smi_serial m = ab_last a + 1" by (auto simp: serials_def)
  with assms have "Suc (age a m) = unat (ab_last a + 1 - smi_serial m)"
    by (subst age_next) (auto simp: buffer_inv_def)
  with m show False by simp
qed

lemma buffer_inv_mono: "buffer_inv n a \<Longrightarrow> n \<le> k \<Longrightarrow> buffer_inv k a"
  by (auto simp: buffer_inv_def)

lemma buffer_inv_sub:
  assumes "buffer_inv n a" "ab_msgs a = xs @ ms" "ab_msgs a' = ms" "ab_last a' = ab_last a" "ab_max a' = ab_max a"
  shows "buffer_inv n a'"
proof -
  have "age a' = age a" using assms by (simp add: age_def fun_eq_iff)
  with assms show ?thesis by (auto simp: buffer_inv_def sorted_wrt_append)
qed

lemma buffer_inv_Nil: "ab_msgs a = [] \<Longrightarrow> buffer_inv n a"
  by (simp add: buffer_inv_def)

lemma buffer_inv_advance:
  assumes "buffer_inv n a" "n < 2 ^ 32"
    and "ab_msgs a' = ab_msgs a" "ab_last a' = ab_last a + 1" "ab_max a' = ab_max a"
  shows "buffer_inv (Suc n) a'" and "\<forall>m\<in>set (ab_msgs a). age a' m > 0"
proof -
  have age: "age a' m = Suc (age a m)" if "m \<in> set (ab_msgs a)" for m
    using age_next [of a m n] that assms by (auto simp: buffer_inv_def age_def)
  then have "sorted_wrt (\<lambda>m m'. age a' m > age a' m') (ab_msgs a)"
    using assms(1) by (auto simp: buffer_inv_def intro: sorted_wrt_mono_rel [rotated])
  then show "buffer_inv (Suc n) a'"
    using assms age by (auto simp: buffer_inv_def)
  show "\<forall>m\<in>set (ab_msgs a). age a' m > 0" using age by simp
qed

lemma evict_inv:
  assumes "buffer_inv n a"
  shows "buffer_inv n (evict_spec a)"
    and "ab_max a > 0 \<Longrightarrow> length (ab_msgs (evict_spec a)) < unat (ab_max a)"
proof -
  show "buffer_inv n (evict_spec a)"
    using assms by (cases "ab_msgs a") (auto simp: unat_eq_0 evict_spec_def intro!: buffer_inv_sub [OF assms, of "[hd (ab_msgs a)]"])
  show "length (ab_msgs (evict_spec a)) < unat (ab_max a)" if "ab_max a > 0"
    using assms that
    by (cases "ab_msgs a") (auto simp: evict_spec_def buffer_inv_def word_greater_zero_iff unat_gt_0)
qed

lemma insert_inv:
  assumes "buffer_inv n a" "n < 2 ^ 32"
  shows "buffer_inv (Suc n) (fst (insert_spec a m))"
proof (cases "\<not> ab_broken a \<and> smi_serial m = ab_last a + 1")
  case True
  let ?e = "evict_spec a"
  let ?a = "?e\<lparr>ab_last := ab_last a + 1\<rparr>"
  have e: "buffer_inv (Suc n) ?a" "\<forall>m'\<in>set (ab_msgs ?e). age ?a m' > 0"
    using buffer_inv_advance [OF evict_inv(1) [OF assms(1)] assms(2), of ?a] by simp_all
  have ages: "age (?a\<lparr>ab_msgs := ms\<rparr>) = age ?a" for ms by (simp add: age_def fun_eq_iff)
  have m: "age ?a m = 0" using True by (simp add: age_def)
  have "fst (insert_spec a m) = ?a\<lparr>ab_msgs := ab_msgs ?e @ [m]\<rparr>"
    using True by (simp add: insert_spec_def Let_def)
  then show ?thesis
    using e m evict_inv(2) [OF assms(1)] by (auto simp: buffer_inv_def ages sorted_wrt_append)
next
  case False
  then show ?thesis
    using assms buffer_inv_mono [of n a "Suc n"]
    by (auto simp: insert_spec_def Let_def intro: buffer_inv_Nil)
qed

lemma jump_inv:
  assumes "buffer_inv n a" "n < 2 ^ 32"
  shows "buffer_inv (Suc n) (fst (jump_spec a s))"
  using assms buffer_inv_mono [of n a "Suc n"] buffer_inv_advance(1) [OF assms, of "a\<lparr>ab_last := ab_last a + 1\<rparr>"]
  by (auto simp: jump_spec_def intro: buffer_inv_Nil)

lemma scrap_inv: "buffer_inv n a \<Longrightarrow> buffer_inv n (scrap_spec a s)"
  by (rule buffer_inv_sub [of n a "takeWhile (\<lambda>m. smi_serial m \<le> s) (ab_msgs a)"])
     (simp_all add: scrap_spec_def)

lemma buffer_step_rel:
  assumes "buffer_rel b a" "buffer_inv n a" "takes_serial x \<Longrightarrow> n < 2 ^ 32"
  shows "\<exists>b'. buffer_step x b = Some (b', snd (spec_step x a)) \<and> buffer_rel b' (fst (spec_step x a))
     \<and> buffer_inv (n + (if takes_serial x then 1 else 0)) (fst (spec_step x a))"
proof (cases x)
  case (OpReset s)
  with reset_rel [OF assms(1), of s] show ?thesis by (auto simp: reset_spec_def buffer_inv_Nil)
next
  case (OpInsert m)
  with insertMessage_rel [OF assms(1), of m] insert_inv [OF assms(2), of m] serial_fresh [OF assms(2)] assms(3)
  show ?thesis by auto
next
  case (OpJump s)
  with jumpToSerial_rel [OF assms(1), of s] jump_inv [OF assms(2), of s] assms(3) show ?thesis by auto
next
  case (OpScrap s)
  with scrapMessages_rel [OF assms(1), of s] scrap_inv [OF assms(2)] show ?thesis by auto
qed

lemma buffer_run_rel:
  "buffer_rel b a \<Longrightarrow> buffer_inv n a \<Longrightarrow> n + length (filter takes_serial ops) \<le> 2 ^ 32 \<Longrightarrow>
   \<exists>b'. buffer_run ops b = Some (b', snd (spec_run ops a)) \<and> buffer_rel b' (fst (spec_run ops a))
     \<and> buffer_inv (n + length (filter takes_serial ops)) (fst (spec_run ops a))"
proof (induction ops arbitrary: b a n)
  case Nil
  then show ?case by simp
next
  case (Cons x ops)
  let ?k = "n + (if takes_serial x then 1 else 0)"
  obtain b1 where b1: "buffer_step x b = Some (b1, snd (spec_step x a))"
      "buffer_rel b1 (fst (spec_step x a))" "buffer_inv ?k (fst (spec_step x a))"
    using buffer_step_rel [OF Cons.prems(1,2), of x] Cons.prems(3) by (auto split: if_splits)
  have k: "?k + length (filter takes_serial ops) = n + length (filter takes_serial (x # ops))" by simp
  obtain b2 where b2: "buffer_run ops b1 = Some (b2, snd (spec_run ops (fst (spec_step x a))))"
      "buffer_rel b2 (fst (spec_run ops (fst (spec_step x a))))"
      "buffer_inv (?k + length (filter takes_serial ops)) (fst (spec_run ops (fst (spec_step x a))))"
    using Cons.IH [OF b1(2,3)] Cons.prems(3) k by auto
  with b1(1) k show ?case by (auto simp: split_beta Let_def)
qed

subsection \<open>Acknowledgements before the serials wrap\<close>

definition no_wrap :: "nat \<Rightarrow> 'p abs_buffer \<Rightarrow> bool" where
  "no_wrap n a \<longleftrightarrow>
     unat (ab_last a) \<le> n \<and> sorted_wrt (<) (serials (ab_msgs a)) \<and> (\<forall>s\<in>set (serials (ab_msgs a)). s \<le> ab_last a)"

fun is_reset :: "'p buffer_op \<Rightarrow> bool" where
  "is_reset (OpReset _) \<longleftrightarrow> True"
| "is_reset _ \<longleftrightarrow> False"

lemma next_serial_greater:
  assumes "unat (x :: u32) \<le> n" "Suc n < 2 ^ 32"
  shows "x < x + 1" "unat (x + 1) = Suc (unat x)"
proof -
  show "unat (x + 1) = Suc (unat x)" using assms by (simp add: unat_word_ariths)
  then show "x < x + 1" by (simp add: word_less_nat_alt)
qed

lemma no_wrap_sub:
  assumes "no_wrap n a" "ab_msgs a = xs @ ab_msgs a'" "ab_last a' = ab_last a"
  shows "no_wrap n a'"
  using assms by (auto simp: no_wrap_def serials_def sorted_wrt_append)

lemma no_wrap_evict: "no_wrap n a \<Longrightarrow> no_wrap n (evict_spec a)"
  by (cases "ab_msgs a") (auto simp: evict_spec_def unat_eq_0 intro: no_wrap_sub [where xs = "[hd (ab_msgs a)]"])

lemma no_wrap_step:
  assumes "no_wrap n a" "takes_serial x \<Longrightarrow> Suc n < 2 ^ 32" "\<not> is_reset x"
  shows "no_wrap (n + (if takes_serial x then 1 else 0)) (fst (spec_step x a))"
proof (cases x)
  case (OpReset s)
  with assms show ?thesis by simp
next
  case (OpInsert m)
  have "no_wrap n (evict_spec a)" using assms by (rule_tac no_wrap_evict)
  with OpInsert assms(1,2) next_serial_greater [of "ab_last a" n] show ?thesis
    by (auto simp: insert_spec_def Let_def no_wrap_def serials_def sorted_wrt_append
        intro: le_less_trans less_imp_le)
next
  case (OpJump s)
  with assms(1,2) next_serial_greater [of "ab_last a" n] show ?thesis
    by (auto simp: jump_spec_def no_wrap_def serials_def intro: le_less_trans less_imp_le)
next
  case (OpScrap s)
  with assms(1) show ?thesis
    by (auto intro!: no_wrap_sub [of n a "takeWhile (\<lambda>m. smi_serial m \<le> s) (ab_msgs a)"] simp: scrap_spec_def)
qed

lemma no_wrap_run:
  "no_wrap n a \<Longrightarrow> n + length (filter takes_serial ops) < 2 ^ 32 \<Longrightarrow> \<not> list_ex is_reset ops \<Longrightarrow>
   no_wrap (n + length (filter takes_serial ops)) (fst (spec_run ops a))"
proof (induction ops arbitrary: a n)
  case Nil
  then show ?case by simp
next
  case (Cons x ops)
  let ?k = "n + (if takes_serial x then 1 else 0)"
  have "no_wrap ?k (fst (spec_step x a))"
    using Cons.prems by (intro no_wrap_step) (auto split: if_splits)
  from Cons.IH [OF this] Cons.prems show ?case by (auto simp: split_beta Let_def split: if_splits)
qed

lemma dropWhile_sorted:
  "sorted_wrt (<) (serials ms) \<Longrightarrow> dropWhile (\<lambda>m. smi_serial m \<le> s) ms = filter (\<lambda>m. s < smi_serial m) ms"
proof (induction ms)
  case Nil
  then show ?case by simp
next
  case (Cons m ms)
  show ?case
  proof (cases "smi_serial m \<le> s")
    case True
    with Cons show ?thesis by (simp add: serials_def not_less)
  next
    case False
    with Cons.prems have "filter (\<lambda>m. s < smi_serial m) ms = ms"
      by (fastforce simp: serials_def filter_id_conv)
    with False show ?thesis by (simp add: not_le)
  qed
qed

lemma handle_until_collect: "handle_until (\<lambda>m l. (True, l @ [m])) ms l = l @ ms"
  by (induction ms arbitrary: l) simp_all

lemma scrap_traverse:
  assumes "buffer_rel b a"
  shows "\<exists>b'. scrapMessages b s = Some b'
     \<and> traverse b' (\<lambda>m l. (True, l @ [m])) [] = Some (ab_msgs (scrap_spec a s))"
proof -
  obtain b' where b': "scrapMessages b s = Some b'" "buffer_rel b' (scrap_spec a s)"
    using scrapMessages_rel [OF assms, of s] by blast
  then show ?thesis by (simp add: traverse_rel [OF b'(2)] handle_until_collect)
qed

section \<open>Properties\<close>

text \<open>
  C18: starting from a new buffer of any capacity, every sequence of \<open>reset\<close>, \<open>insertMessage\<close>,
  \<open>jumpToSerial\<close> and \<open>scrapMessages\<close> that gives out at most \<open>2\<^sup>3\<^sup>2\<close> serials runs without a crash,
  returns what the list specification returns and leaves the linked list, the index map and the
  heap in agreement with it (exactly the listed nodes are allocated); the messages stay in the
  order of their serials and a bounded buffer never exceeds its bound.
\<close>

theorem MessageBuffer_refines_list:
  assumes "length (filter takes_serial ops) \<le> 2 ^ 32"
  shows "\<exists>b. buffer_run ops (new_MessageBuffer n) = Some (b, snd (spec_run ops (new_spec n)))
     \<and> buffer_rel b (fst (spec_run ops (new_spec n)))
     \<and> buffer_inv (length (filter takes_serial ops)) (fst (spec_run ops (new_spec n)))"
  using buffer_run_rel [OF new_rel, of 0 n ops] assms
  by (simp add: buffer_inv_Nil new_spec_def)

definition sample_msg :: "u32 \<Rightarrow> nat SendMessageInfo" where
  "sample_msg s = \<lparr>smi_type = 1, smi_isRaw = True, smi_needCrypt = False, smi_tag = 0,
                   smi_serial = s, smi_msg = RawMsg []\<rparr>"

theorem MessageBuffer_refines_list_witness:
  "\<exists>b. buffer_run [OpInsert (sample_msg 1), OpJump 2, OpInsert (sample_msg 3), OpInsert (sample_msg 4), OpScrap 3]
         (new_MessageBuffer 2) = Some (b, [True, True, True, True, True])
     \<and> buffer_rel b \<lparr>ab_msgs = [sample_msg 4], ab_broken = False, ab_max = 2, ab_last = 4, ab_scrap = 3\<rparr>"
  using MessageBuffer_refines_list
    [of "[OpInsert (sample_msg 1), OpJump 2, OpInsert (sample_msg 3), OpInsert (sample_msg 4), OpScrap 3]" 2]
  by (auto simp: new_spec_def insert_spec_def evict_spec_def jump_spec_def scrap_spec_def sample_msg_def Let_def)

text \<open>
  C19: on a buffer that has given out fewer than \<open>2\<^sup>3\<^sup>2\<close> serials and was never reset, acknowledging
  serial \<open>s\<close> keeps exactly the buffered messages with a greater serial, in order, and a traversal
  afterwards visits exactly those.
\<close>

theorem scrapMessages_acknowledges:
  assumes "length (filter takes_serial ops) < 2 ^ 32" "\<not> list_ex is_reset ops"
  shows "\<exists>b b'. buffer_run ops (new_MessageBuffer n) = Some (b, snd (spec_run ops (new_spec n)))
     \<and> scrapMessages b s = Some b'
     \<and> traverse b' (\<lambda>m l. (True, l @ [m])) []
         = Some (filter (\<lambda>m. s < smi_serial m) (ab_msgs (fst (spec_run ops (new_spec n)))))"
proof -
  let ?a = "fst (spec_run ops (new_spec n))"
  obtain b where b: "buffer_run ops (new_MessageBuffer n) = Some (b, snd (spec_run ops (new_spec n)))"
      "buffer_rel b ?a"
    using buffer_run_rel [OF new_rel, of 0 n ops] assms(1)
    by (auto simp: buffer_inv_Nil new_spec_def)
  have "no_wrap (length (filter takes_serial ops)) ?a"
    using no_wrap_run [of 0 "new_spec n" ops] assms by (simp add: no_wrap_def new_spec_def serials_def)
  then have "ab_msgs (scrap_spec ?a s) = filter (\<lambda>m. s < smi_serial m) (ab_msgs ?a)"
    by (simp add: no_wrap_def scrap_spec_def dropWhile_sorted)
  with scrap_traverse [OF b(2), of s] b(1) show ?thesis by auto
qed

theorem scrapMessages_acknowledges_witness:
  "\<exists>b b'. buffer_run [OpInsert (sample_msg 1), OpInsert (sample_msg 2), OpJump 3, OpInsert (sample_msg 4)]
           (new_MessageBuffer 0) = Some (b, [True, True, True, True])
     \<and> scrapMessages b 3 = Some b'
     \<and> traverse b' (\<lambda>m l. (True, l @ [m])) [] = Some [sample_msg 4]"
  using scrapMessages_acknowledges
    [of "[OpInsert (sample_msg 1), OpInsert (sample_msg 2), OpJump 3, OpInsert (sample_msg 4)]" 0 3]
  by (simp add: new_spec_def insert_spec_def evict_spec_def jump_spec_def sample_msg_def)

text \<open>
  Past the wrap the comparison \<open>curIt->data->serial > serial\<close> no longer follows the order of the
  serials: the peer has received the messages \<open>0xFFFFFFFF\<close> and \<open>0\<close> and acknowledges \<open>0\<close>, and both
  stay in the buffer.
\<close>

lemma scrapMessages_stuck_after_wrap:
  "\<exists>b b'. buffer_run [OpReset 0xFFFFFFFE, OpInsert (sample_msg 0xFFFFFFFF), OpInsert (sample_msg 0)]
           (new_MessageBuffer 0) = Some (b, [True, True, True])
     \<and> scrapMessages b 0 = Some b'
     \<and> traverse b' (\<lambda>m l. (True, l @ [m])) [] = Some [sample_msg 0xFFFFFFFF, sample_msg 0]"
proof -
  let ?ops = "[OpReset 0xFFFFFFFE, OpInsert (sample_msg 0xFFFFFFFF), OpInsert (sample_msg 0)]"
  have spec: "spec_run ?ops (new_spec 0)
      = (\<lparr>ab_msgs = [sample_msg 0xFFFFFFFF, sample_msg 0], ab_broken = False, ab_max = 0, ab_last = 0,
          ab_scrap = 0xFFFFFFFE\<rparr>, [True, True, True])"
    by (simp add: new_spec_def reset_spec_def insert_spec_def evict_spec_def sample_msg_def)
  obtain b where b: "buffer_run ?ops (new_MessageBuffer 0) = Some (b, [True, True, True])"
      "buffer_rel b (fst (spec_run ?ops (new_spec 0)))"
    using buffer_run_rel [OF new_rel, of 0 0 ?ops] spec by (auto simp: buffer_inv_Nil new_spec_def)
  have "ab_msgs (scrap_spec (fst (spec_run ?ops (new_spec 0))) 0) = [sample_msg 0xFFFFFFFF, sample_msg 0]"
    by (simp only: spec) (simp add: scrap_spec_def sample_msg_def)
  with scrap_traverse [OF b(2), of 0] b(1) show ?thesis by auto
qed

end
