(* ===== verification/Terminal.thy ===== *)
theory Terminal
  imports Pipeline Protobuf Crc Crypter MsgBuffer
begin

text \<open>
  \<open>MessageTerminal\<close> of \<open>corpc_message_terminal.h/.cpp\<close>: the message codec (\<open>encode\<close>, \<open>decode\<close>), the
  registry of message types, sending with serials and a message buffer (\<open>send\<close>, \<open>resend\<close>) and the
  dispatch of received messages (\<open>doTask\<close>).

  Protocol Buffers is not part of the code base: the record \<open>protobuf\<close> holds the functions the code
  calls, and \<open>pb_ok\<close> what it relies on.  Application handlers are opaque values of type \<open>'h\<close>; a call
  of one is recorded as a value.  \<open>shared_ptr\<close> to the connection's terminal is the argument \<open>t\<close>.
\<close>

section \<open>State\<close>

definition CORPC_MESSAGE_HEAD_SIZE :: nat where "CORPC_MESSAGE_HEAD_SIZE = 22"
definition CORPC_MAX_MESSAGE_SIZE :: nat where "CORPC_MAX_MESSAGE_SIZE = 0x10000"
definition CORPC_MAX_UDP_MESSAGE_SIZE :: nat where "CORPC_MAX_UDP_MESSAGE_SIZE = 540"
definition CORPC_MESSAGE_FLAG_CRYPT :: u16 where "CORPC_MESSAGE_FLAG_CRYPT = 1"
definition CORPC_MSG_TYPE_CONNECT :: u32 where "CORPC_MSG_TYPE_CONNECT = -1"
definition CORPC_MSG_TYPE_CLOSE :: u32 where "CORPC_MSG_TYPE_CLOSE = -2"
definition CORPC_MSG_TYPE_BANNED :: u32 where "CORPC_MSG_TYPE_BANNED = -10"
definition CORPC_MSG_TYPE_HEARTBEAT :: u32 where "CORPC_MSG_TYPE_HEARTBEAT = -115"
definition CORPC_MSG_TYPE_JUMP_SERIAL :: u32 where "CORPC_MSG_TYPE_JUMP_SERIAL = -116"

lemmas msg_type_defs =
  CORPC_MSG_TYPE_CONNECT_def CORPC_MSG_TYPE_CLOSE_def CORPC_MSG_TYPE_BANNED_def
  CORPC_MSG_TYPE_HEARTBEAT_def CORPC_MSG_TYPE_JUMP_SERIAL_def

record ('k, 'h) RegisterMessageInfo =
  rmi_proto :: "'k option"
  rmi_handle :: 'h
  rmi_needCoroutine :: bool
  rmi_banned :: bool

record ('k, 'h) MessageTerminal =
  needHB :: bool
  enableSendCRC :: bool
  enableRecvCRC :: bool
  enableSerial :: bool
  registerMessageMap :: "u32 \<rightharpoonup> ('k, 'h) RegisterMessageInfo"
  otherMessageHandle :: "'h option"

text \<open>The part of a connection this code uses; \<open>datas\<close> is the queue of messages waiting to be sent.\<close>

record 'p Connection =
  conn_isOpen :: bool
  conn_crypter :: "Crypter option"
  msgBuffer :: "'p MessageBuffer option"
  recvSerial :: u32
  lastSendSerial :: u32
  decodeError :: bool
  lastRecvHBTime :: u64
  datas :: "'p SendMessageInfo list"

text \<open>Fields the code leaves uninitialised are \<open>None\<close>; reading one is undefined behaviour.\<close>

record 'p MessageWorkerTask =
  task_type :: u32
  task_tag :: "u16 option"
  task_reqSerial :: "u32 option"
  task_banned :: "bool option"
  task_msg :: "'p msg_ptr"

section \<open>The registry\<close>

definition new_MessageTerminal :: "bool \<Rightarrow> bool \<Rightarrow> bool \<Rightarrow> bool \<Rightarrow> ('k, 'h) MessageTerminal" where
  "new_MessageTerminal hb sendCRC recvCRC serial =
     \<lparr>needHB = hb, enableSendCRC = sendCRC, enableRecvCRC = recvCRC, enableSerial = serial,
      registerMessageMap = Map.empty, otherMessageHandle = None\<rparr>"

definition registerMessage ::
  "('k, 'h) MessageTerminal \<Rightarrow> u32 \<Rightarrow> 'k option \<Rightarrow> bool \<Rightarrow> 'h \<Rightarrow> ('k, 'h) MessageTerminal \<times> bool" where
  "registerMessage t type proto needCoroutine handle =
     (if registerMessageMap t type \<noteq> None then (t, False)
      else (t\<lparr>registerMessageMap := (registerMessageMap t)(type \<mapsto>
                \<lparr>rmi_proto = proto, rmi_handle = handle, rmi_needCoroutine = needCoroutine, rmi_banned = False\<rparr>)\<rparr>,
            True))"

definition setOtherMessageHandle :: "('k, 'h) MessageTerminal \<Rightarrow> 'h \<Rightarrow> ('k, 'h) MessageTerminal" where
  "setOtherMessageHandle t handle = t\<lparr>otherMessageHandle := Some handle\<rparr>"

definition setBanMessages :: "('k, 'h) MessageTerminal \<Rightarrow> u32 list \<Rightarrow> ('k, 'h) MessageTerminal" where
  "setBanMessages t msgTypes =
     t\<lparr>registerMessageMap := (\<lambda>type. map_option (\<lambda>info.
          if type \<in> set msgTypes then (if \<not> rmi_banned info then info\<lparr>rmi_banned := True\<rparr> else info)
          else (if rmi_banned info then info\<lparr>rmi_banned := False\<rparr> else info)) (registerMessageMap t type))\<rparr>"

section \<open>Decoding\<close>

definition setDecodeError :: "'p Connection \<Rightarrow> 'p Connection" where
  "setDecodeError conn = conn\<lparr>decodeError := True\<rparr>"

text \<open>Messages with a negative type: heartbeat, jump of the serial, anything else is ignored.\<close>

definition decode_system ::
  "endian \<Rightarrow> u64 \<Rightarrow> ('k, 'h) MessageTerminal \<Rightarrow> 'p Connection \<Rightarrow> byte list \<Rightarrow> u32 \<Rightarrow>
   'p Connection \<times> 'p MessageWorkerTask option" where
  "decode_system e nowms t conn hb msgType =
     (if msgType = CORPC_MSG_TYPE_HEARTBEAT then
        let conn = conn\<lparr>lastRecvHBTime := nowms\<rparr> in
        if enableSerial t
        then (conn, Some \<lparr>task_type = msgType, task_tag = None, task_reqSerial = Some (get32 e hb 12),
                          task_banned = None, task_msg = NullMsg\<rparr>)
        else (conn, None)
      else if msgType = CORPC_MSG_TYPE_JUMP_SERIAL then
        let serial = get32 e hb 16 in
        if serial \<le> recvSerial conn then (setDecodeError conn, None)
        else (conn\<lparr>recvSerial := serial\<rparr>, None)
      else (conn, None))"

text \<open>
  Serial and CRC check; the result is the connection and whether the message passes.  Both are
  skipped when the terminal has them disabled.
\<close>

definition decode_checks ::
  "endian \<Rightarrow> ('k, 'h) MessageTerminal \<Rightarrow> 'p Connection \<Rightarrow> byte list \<Rightarrow> byte list \<Rightarrow> 'p Connection \<times> bool" where
  "decode_checks e t conn hb body =
     (let conn = (if enableSerial t then conn\<lparr>recvSerial := recvSerial conn + 1\<rparr> else conn) in
      if enableSerial t \<and> recvSerial conn \<noteq> get32 e hb 16 then (setDecodeError conn, False)
      else if enableRecvCRC t \<and> get16 e hb 20 \<noteq> CheckSum body 0xFFFF then (setDecodeError conn, False)
      else (conn, True))"

text \<open>The last part of \<open>decode\<close>, on the decrypted body.\<close>

definition decode_message ::
  "('p, 'k) protobuf \<Rightarrow> ('k, 'h) MessageTerminal \<Rightarrow> 'p Connection \<Rightarrow> u32 \<Rightarrow> u16 \<Rightarrow> u32 \<Rightarrow> byte list \<Rightarrow>
   ('p Connection \<times> 'p MessageWorkerTask option) option" where
  "decode_message pb t conn msgType tag reqSerial body =
     (case registerMessageMap t msgType of
        None \<Rightarrow>
          if otherMessageHandle t \<noteq> None
          then Some (conn, Some \<lparr>task_type = msgType, task_tag = Some tag, task_reqSerial = Some reqSerial,
                                 task_banned = Some False, task_msg = RawMsg body\<rparr>)
          else Some (setDecodeError conn, None)
      | Some info \<Rightarrow>
          let banned = rmi_banned info;
              task = (\<lambda>msg. Some \<lparr>task_type = msgType, task_tag = Some tag, task_reqSerial = Some reqSerial,
                                  task_banned = Some banned, task_msg = msg\<rparr>) in
          if \<not> banned then
            (case rmi_proto info of
               Some proto \<Rightarrow>
                 (case pb_parse pb proto body of
                    None \<Rightarrow> Some (setDecodeError conn, None)
                  | Some m \<Rightarrow> Some (conn, task (ProtoMsg m)))
             | None \<Rightarrow> do { assertion (length body = 0); Some (conn, task NullMsg) })
          else Some (conn, task NullMsg))"

definition decode ::
  "endian \<Rightarrow> ('p, 'k) protobuf \<Rightarrow> u64 \<Rightarrow> ('k, 'h) MessageTerminal \<Rightarrow>
   ('p Connection, 'p MessageWorkerTask) decode_fun" where
  "decode e pb nowms t conn hb body =
     (let msgType = get32 e hb 4; tag = get16 e hb 8; flag = get16 e hb 10 in
      if length hb < CORPC_MESSAGE_HEAD_SIZE then None
      else if sint msgType < 0 then
        (case decode_system e nowms t conn hb msgType of (conn, task) \<Rightarrow> Some (conn, body, task))
      else
        let reqSerial = (if enableSerial t then get32 e hb 12 else 0) in
        (case decode_checks e t conn hb body of (conn, passed) \<Rightarrow>
           if \<not> passed then Some (conn, body, None)
           else if flag AND CORPC_MESSAGE_FLAG_CRYPT \<noteq> 0 then
             (case conn_crypter conn of
                None \<Rightarrow> Some (setDecodeError conn, body, None)
              | Some crypter \<Rightarrow> do {
                  body \<leftarrow> cr_decrypt crypter body;
                  (conn, task) \<leftarrow> decode_message pb t conn msgType tag reqSerial body;
                  Some (conn, body, task)
                })
           else do {
             (conn, task) \<leftarrow> decode_message pb t conn msgType tag reqSerial body;
             Some (conn, body, task)
           }))"

section \<open>Encoding\<close>

text \<open>\<open>crypter->encrypt(buf + off, buf + off, n)\<close>\<close>

definition crypt_slice :: "Crypter option \<Rightarrow> byte list \<Rightarrow> nat \<Rightarrow> nat \<Rightarrow> byte list option" where
  "crypt_slice crypter buf off n =
     (case crypter of
        None \<Rightarrow> None
      | Some cr \<Rightarrow> do { ys \<leftarrow> cr_encrypt cr (buf_read buf off n); memcpy buf off ys })"

text \<open>
  The two ways a body is placed, shared by the raw and the protobuf branch of \<open>encode\<close>: \<open>store\<close>
  writes the serialised message to a buffer at an offset.  The body fits behind the head, or it goes
  to the overflow buffer and as much of it as fits is copied behind the head.  The result is the
  slice, \<open>size\<close>, the overflow buffer, its counter and the CRC.
\<close>

definition encode_fits ::
  "Crypter option \<Rightarrow> bool \<Rightarrow> bool \<Rightarrow> nat \<Rightarrow> (byte list \<Rightarrow> nat \<Rightarrow> byte list option) \<Rightarrow> byte list \<Rightarrow>
   (byte list \<times> nat \<times> u16) option" where
  "encode_fits crypter needCrypt needCRC msgSize store buf = do {
     buf \<leftarrow> (if msgSize > 0 then do {
               buf \<leftarrow> store buf CORPC_MESSAGE_HEAD_SIZE;
               (if needCrypt then crypt_slice crypter buf CORPC_MESSAGE_HEAD_SIZE msgSize else Some buf)
             } else Some buf);
     let crc = (if needCRC then CheckSum (buf_read buf CORPC_MESSAGE_HEAD_SIZE msgSize) 0xFFFF else 0);
     Some (buf, CORPC_MESSAGE_HEAD_SIZE + msgSize, crc)
   }"

definition encode_overflow ::
  "Crypter option \<Rightarrow> bool \<Rightarrow> bool \<Rightarrow> nat \<Rightarrow> byte list \<Rightarrow> byte list \<Rightarrow>
   (byte list \<times> nat \<times> byte list \<times> nat \<times> u16) option" where
  "encode_overflow crypter needCrypt needCRC msgSize df buf = do {
     let spaceleft = length buf - CORPC_MESSAGE_HEAD_SIZE;
     df \<leftarrow> (if needCrypt then crypt_slice crypter df 0 msgSize else Some df);
     let crc = (if needCRC then CheckSum (take msgSize df) 0xFFFF else 0);
     (if spaceleft > 0 then do {
        buf \<leftarrow> memcpy buf CORPC_MESSAGE_HEAD_SIZE (buf_read df 0 spaceleft);
        Some (buf, length buf, df, spaceleft, crc)
      } else Some (buf, length buf, df, 0, crc))
   }"

text \<open>\<open>msgSize\<close> is an \<open>uint32_t\<close>.\<close>

definition encode_raw ::
  "'p Connection \<Rightarrow> bool \<Rightarrow> 'p SendMessageInfo \<Rightarrow> byte list \<Rightarrow> byte list \<Rightarrow> nat \<Rightarrow>
   (byte list \<times> nat \<times> byte list \<times> nat \<times> u16 \<times> nat) option" where
  "encode_raw conn needCRC info buf df sent = do {
     msg \<leftarrow> (case smi_msg info of NullMsg \<Rightarrow> Some None | RawMsg s \<Rightarrow> Some (Some s) | ProtoMsg _ \<Rightarrow> None);
     let msgSize = (case msg of None \<Rightarrow> 0 | Some s \<Rightarrow> length s mod 2 ^ 32);
     (if length buf - CORPC_MESSAGE_HEAD_SIZE \<ge> msgSize then do {
        (buf, sz, crc) \<leftarrow> encode_fits (conn_crypter conn) (smi_needCrypt info) needCRC msgSize
           (\<lambda>buf off. do { s \<leftarrow> msg; memcpy buf off (take msgSize s) }) buf;
        Some (buf, sz, df, sent, crc, msgSize)
      } else do {
        s \<leftarrow> msg;
        (buf, sz, df, sent, crc) \<leftarrow> encode_overflow (conn_crypter conn) (smi_needCrypt info) needCRC msgSize s buf;
        Some (buf, sz, df, sent, crc, msgSize)
      })
   }"

definition encode_proto ::
  "('p, 'k) protobuf \<Rightarrow> 'p Connection \<Rightarrow> bool \<Rightarrow> 'p SendMessageInfo \<Rightarrow> byte list \<Rightarrow> byte list \<Rightarrow> nat \<Rightarrow>
   (byte list \<times> nat \<times> byte list \<times> nat \<times> u16 \<times> nat) option" where
  "encode_proto pb conn needCRC info buf df sent = do {
     msg \<leftarrow> (case smi_msg info of ProtoMsg m \<Rightarrow> Some m | _ \<Rightarrow> None);
     let msgSize = (if pb_cached pb msg mod 2 ^ 32 = 0 then pb_size pb msg mod 2 ^ 32 else pb_cached pb msg mod 2 ^ 32);
     (if length buf - CORPC_MESSAGE_HEAD_SIZE \<ge> msgSize then do {
        (buf, sz, crc) \<leftarrow> encode_fits (conn_crypter conn) (smi_needCrypt info) needCRC msgSize
           (\<lambda>buf off. memcpy buf off (pb_bytes pb msg)) buf;
        Some (buf, sz, df, sent, crc, msgSize)
      } else do {
        df \<leftarrow> memcpy (replicate msgSize 0) 0 (pb_bytes pb msg);
        (buf, sz, df, sent, crc) \<leftarrow> encode_overflow (conn_crypter conn) (smi_needCrypt info) needCRC msgSize df buf;
        Some (buf, sz, df, sent, crc, msgSize)
      })
   }"

definition encode_head ::
  "endian \<Rightarrow> 'p Connection \<Rightarrow> 'p SendMessageInfo \<Rightarrow> nat \<Rightarrow> u16 \<Rightarrow> byte list \<Rightarrow> byte list option" where
  "encode_head e conn info msgSize crc buf = do {
     buf \<leftarrow> put32 e buf 0 (of_nat msgSize);
     buf \<leftarrow> put32 e buf 4 (smi_type info);
     buf \<leftarrow> put16 e buf 8 (smi_tag info);
     buf \<leftarrow> put16 e buf 10 (if smi_needCrypt info then CORPC_MESSAGE_FLAG_CRYPT else 0);
     buf \<leftarrow> put32 e buf 12 (recvSerial conn);
     buf \<leftarrow> put32 e buf 16 (smi_serial info);
     put16 e buf 20 crc
   }"

definition encode_msg ::
  "endian \<Rightarrow> ('p, 'k) protobuf \<Rightarrow> ('k, 'h) MessageTerminal \<Rightarrow> ('p Connection, 'p SendMessageInfo) encode_fun" where
  "encode_msg e pb t conn info buf df sent =
     (if CORPC_MESSAGE_HEAD_SIZE > length buf then Some (True, buf, 0, df, sent)
      else if smi_needCrypt info \<and> conn_crypter conn = None then Some (False, buf, 0, df, sent)
      else do {
        (buf, sz, df, sent, crc, msgSize) \<leftarrow>
          (if smi_isRaw info then encode_raw conn (enableSendCRC t) info buf df sent
           else encode_proto pb conn (enableSendCRC t) info buf df sent);
        buf \<leftarrow> encode_head e conn info msgSize crc buf;
        Some (True, buf, sz, df, sent)
      })"

section \<open>Sending, resending and dispatch\<close>

definition new_Connection :: "'p Connection" where
  "new_Connection =
     \<lparr>conn_isOpen = True, conn_crypter = None, msgBuffer = None, recvSerial = 0, lastSendSerial = 0,
      decodeError = False, lastRecvHBTime = 0, datas = []\<rparr>"

text \<open>
  \<open>corpc::Connection::send\<close> hands the message to the sender, whose queue is first in first out and
  which appends it to the connection's waiting messages.
\<close>

definition send_data :: "'p Connection \<Rightarrow> 'p SendMessageInfo \<Rightarrow> 'p Connection" where
  "send_data conn info = conn\<lparr>datas := datas conn @ [info]\<rparr>"

definition resetMsgBuffer :: "'p Connection \<Rightarrow> 'p Connection option" where
  "resetMsgBuffer conn =
     (case msgBuffer conn of
        None \<Rightarrow> Some conn
      | Some b \<Rightarrow> do { b \<leftarrow> reset b (lastSendSerial conn); Some (conn\<lparr>msgBuffer := Some b\<rparr>) })"

definition conn_scrapMessages :: "'p Connection \<Rightarrow> u32 \<Rightarrow> 'p Connection option" where
  "conn_scrapMessages conn serial =
     (case msgBuffer conn of
        None \<Rightarrow> Some conn
      | Some b \<Rightarrow> do { b \<leftarrow> scrapMessages b serial; Some (conn\<lparr>msgBuffer := Some b\<rparr>) })"

text \<open>The middle part of \<open>send\<close>: the serial and the message buffer.\<close>

definition stamp_serial ::
  "('k, 'h) MessageTerminal \<Rightarrow> 'p Connection \<Rightarrow> bool \<Rightarrow> 'p SendMessageInfo \<Rightarrow>
   ('p Connection \<times> 'p SendMessageInfo) option" where
  "stamp_serial t conn needBuffer info =
     (if sint (smi_type info) > 0 \<and> enableSerial t then do {
        let conn = conn\<lparr>lastSendSerial := lastSendSerial conn + 1\<rparr>;
        let info = info\<lparr>smi_serial := lastSendSerial conn\<rparr>;
        (case msgBuffer conn of
           None \<Rightarrow> Some (conn, info)
         | Some b \<Rightarrow> do {
             (b, _) \<leftarrow> (if needBuffer then insertMessage b info else jumpToSerial b (smi_serial info));
             Some (conn\<lparr>msgBuffer := Some b\<rparr>, info)
           })
      }
      else Some (conn, info\<lparr>smi_serial := 0\<rparr>))"

definition send ::
  "('k, 'h) MessageTerminal \<Rightarrow> 'p Connection \<Rightarrow> u32 \<Rightarrow> bool \<Rightarrow> bool \<Rightarrow> bool \<Rightarrow> u16 \<Rightarrow> 'p msg_ptr \<Rightarrow>
   'p Connection option" where
  "send t conn type isRaw needCrypt needBuffer tag msg =
     (if \<not> conn_isOpen conn \<and> sint type < 0 then Some conn
      else if \<not> conn_isOpen conn \<and> msgBuffer conn = None then Some conn
      else if \<not> conn_isOpen conn \<and> \<not> enableSerial t then None
      else if \<not> conn_isOpen conn \<and> \<not> needBuffer then Some conn
      else do {
        (conn, info) \<leftarrow> stamp_serial t conn needBuffer
           \<lparr>smi_type = type, smi_isRaw = isRaw, smi_needCrypt = needCrypt, smi_tag = tag, smi_serial = 0,
            smi_msg = msg\<rparr>;
        Some (if conn_isOpen conn then send_data conn info else conn)
      })"

text \<open>The closure \<open>resend\<close> passes to \<open>traverse\<close>; it captures the connection and \<open>lastSerial\<close>.\<close>

definition jump_message :: "u32 \<Rightarrow> 'p SendMessageInfo" where
  "jump_message serial =
     \<lparr>smi_type = CORPC_MSG_TYPE_JUMP_SERIAL, smi_isRaw = True, smi_needCrypt = False, smi_tag = 0,
      smi_serial = serial, smi_msg = NullMsg\<rparr>"

definition resend_handle :: "'p SendMessageInfo \<Rightarrow> 'p Connection \<times> u32 \<Rightarrow> bool \<times> 'p Connection \<times> u32" where
  "resend_handle info s =
     (case s of (conn, lastSer) \<Rightarrow>
        if \<not> conn_isOpen conn then (False, conn, lastSer)
        else
          let conn = (if lastSer > 0 \<and> smi_serial info \<noteq> lastSer + 1
                      then send_data conn (jump_message (smi_serial info - 1)) else conn) in
          (True, send_data conn info, smi_serial info))"

definition resend :: "'p Connection \<Rightarrow> 'p Connection option" where
  "resend conn =
     (case msgBuffer conn of
        None \<Rightarrow> Some conn
      | Some b \<Rightarrow> do { (conn, _) \<leftarrow> traverse b resend_handle (conn, 0); Some conn })"

text \<open>
  A connection that is being closed never opens again; after a disconnection \<open>TcpClient::connect\<close> builds a
  new one and hands the serial of the last received message on to it.
\<close>

definition setMsgBuffer :: "'p Connection \<Rightarrow> 'p MessageBuffer option \<Rightarrow> 'p Connection" where
  "setMsgBuffer conn b = conn\<lparr>msgBuffer := b\<rparr>"

definition setRecvSerial :: "'p Connection \<Rightarrow> u32 \<Rightarrow> 'p Connection" where
  "setRecvSerial conn serial = conn\<lparr>recvSerial := serial\<rparr>"

definition setLastSendSerial :: "'p Connection \<Rightarrow> u32 \<Rightarrow> 'p Connection" where
  "setLastSendSerial conn serial = conn\<lparr>lastSendSerial := serial\<rparr>"

definition start_closing :: "'p Connection \<Rightarrow> 'p Connection" where
  "start_closing conn = conn\<lparr>conn_isOpen := False\<rparr>"

definition connect_again :: "'p Connection option \<Rightarrow> 'p Connection" where
  "connect_again old =
     (let con = new_Connection in
      case old of None \<Rightarrow> con | Some connection \<Rightarrow> setRecvSerial con (recvSerial connection))"

text \<open>
  What \<open>doTask\<close> makes the application do.  The tasks of \<open>onConnect\<close> and \<open>onClose\<close> leave \<open>tag\<close>
  uninitialised and hand it on as it is.
\<close>

datatype ('p, 'h) action =
    NoAction
  | CallHandle 'h u32 "u16 option" "'p msg_ptr"
  | StartCoroutine 'h u32 "u16 option" "'p msg_ptr"
  | CallOther 'h u32 "u16 option" "'p msg_ptr"

text \<open>
  The coroutine that \<open>doTask\<close> starts, which runs at once, looks the handler up again, by the type of the
  message; \<open>None\<close>: it calls through the end of the map.
\<close>

definition taskCallRoutine ::
  "('k, 'h) MessageTerminal \<Rightarrow> 'p MessageWorkerTask \<Rightarrow> ('p, 'h) action option" where
  "taskCallRoutine t task = do {
     info \<leftarrow> registerMessageMap t (task_type task);
     Some (StartCoroutine (rmi_handle info) (task_type task) (task_tag task) (task_msg task))
   }"

definition dispatch ::
  "('k, 'h) MessageTerminal \<Rightarrow> 'p MessageWorkerTask \<Rightarrow> ('p, 'h) action option" where
  "dispatch t task = do {
     banned \<leftarrow> task_banned task;
     (case registerMessageMap t (if banned then CORPC_MSG_TYPE_BANNED else task_type task) of
        None \<Rightarrow>
          (case otherMessageHandle t of
             Some h \<Rightarrow>
               Some (if \<not> banned then CallOther h (task_type task) (task_tag task) (task_msg task) else NoAction)
           | None \<Rightarrow> Some NoAction)
      | Some info \<Rightarrow>
          if rmi_needCoroutine info then taskCallRoutine t task
          else Some (CallHandle (rmi_handle info) (task_type task) (task_tag task) (task_msg task)))
   }"

definition connect_task :: "'p MessageWorkerTask" where
  "connect_task = \<lparr>task_type = CORPC_MSG_TYPE_CONNECT, task_tag = None, task_reqSerial = None,
                   task_banned = Some False, task_msg = NullMsg\<rparr>"

definition close_task :: "'p MessageWorkerTask" where
  "close_task = \<lparr>task_type = CORPC_MSG_TYPE_CLOSE, task_tag = None, task_reqSerial = None,
                 task_banned = Some False, task_msg = NullMsg\<rparr>"

definition doTask ::
  "('k, 'h) MessageTerminal \<Rightarrow> 'p Connection \<Rightarrow> 'p MessageWorkerTask \<Rightarrow> ('p Connection \<times> ('p, 'h) action) option" where
  "doTask t conn task =
     (if task_type task = CORPC_MSG_TYPE_CONNECT \<or> task_type task = CORPC_MSG_TYPE_CLOSE then do {
        act \<leftarrow> dispatch t task;
        Some (conn, act)
      }
      else do {
        conn \<leftarrow> (if enableSerial t \<and> msgBuffer conn \<noteq> None
                then do { s \<leftarrow> task_reqSerial task; conn_scrapMessages conn s } else Some conn);
        (if task_type task = CORPC_MSG_TYPE_HEARTBEAT then Some (conn, NoAction)
         else do { act \<leftarrow> dispatch t task; Some (conn, act) })
      })"

section \<open>The wire format\<close>

text \<open>
  The messages the library builds: the payload is of the kind \<open>isRaw\<close> says, shorter than \<open>2\<^sup>3\<^sup>2\<close>, and
  a crypter in use is one of the library's.
\<close>

fun payload :: "('p, 'k) protobuf \<Rightarrow> 'p msg_ptr \<Rightarrow> byte list" where
  "payload pb NullMsg = []"
| "payload pb (RawMsg s) = s"
| "payload pb (ProtoMsg m) = pb_bytes pb m"

definition valid_msg :: "('p, 'k) protobuf \<Rightarrow> 'p SendMessageInfo \<Rightarrow> bool" where
  "valid_msg pb info \<longleftrightarrow>
     (case smi_msg info of ProtoMsg m \<Rightarrow> \<not> smi_isRaw info \<and> pb_ok pb m | _ \<Rightarrow> smi_isRaw info)
     \<and> length (payload pb (smi_msg info)) < 2 ^ 32"

definition conn_ok :: "'p Connection \<Rightarrow> bool" where
  "conn_ok conn \<longleftrightarrow> (\<forall>cr. conn_crypter conn = Some cr \<longrightarrow> cr \<in> xor_crypters)"

definition body_of :: "('p, 'k) protobuf \<Rightarrow> 'p Connection \<Rightarrow> 'p SendMessageInfo \<Rightarrow> byte list option" where
  "body_of pb conn info =
     (if smi_needCrypt info then do { cr \<leftarrow> conn_crypter conn; cr_encrypt cr (payload pb (smi_msg info)) }
      else Some (payload pb (smi_msg info)))"

definition head_of :: "('k, 'h) MessageTerminal \<Rightarrow> 'p Connection \<Rightarrow> 'p SendMessageInfo \<Rightarrow> byte list \<Rightarrow> byte list" where
  "head_of t conn info body =
     be_bytes 4 (of_nat (length body) :: u32) @ be_bytes 4 (smi_type info) @ be_bytes 2 (smi_tag info)
     @ be_bytes 2 (if smi_needCrypt info then CORPC_MESSAGE_FLAG_CRYPT else 0)
     @ be_bytes 4 (recvSerial conn) @ be_bytes 4 (smi_serial info)
     @ be_bytes 2 (if enableSendCRC t then CheckSum body 0xFFFF else 0)"

definition wire ::
  "('p, 'k) protobuf \<Rightarrow> ('k, 'h) MessageTerminal \<Rightarrow> 'p Connection \<Rightarrow> 'p SendMessageInfo \<Rightarrow> byte list option" where
  "wire pb t conn info = map_option (\<lambda>body. head_of t conn info body @ body) (body_of pb conn info)"

lemma encode_head_eq:
  assumes "length buf \<ge> 22"
  shows "encode_head e conn info n crc buf =
     Some (be_bytes 4 (of_nat n :: u32) @ be_bytes 4 (smi_type info) @ be_bytes 2 (smi_tag info)
       @ be_bytes 2 (if smi_needCrypt info then CORPC_MESSAGE_FLAG_CRYPT else 0)
       @ be_bytes 4 (recvSerial conn) @ be_bytes 4 (smi_serial info) @ be_bytes 2 crc @ drop 22 buf)"
proof -
  have "memcpy buf 0 ys = Some (ys @ drop (length ys) buf)" if "length ys \<le> 22" for ys
    using memcpy_append [of "[]" 0 ys buf] assms that by simp
  then show ?thesis
    using assms unfolding encode_head_def put16_eq put32_eq
    by (simp add: memcpy_append del: append_assoc)
qed

text \<open>What placing a payload does, given the body it becomes.\<close>

definition encrypts :: "Crypter option \<Rightarrow> bool \<Rightarrow> byte list \<Rightarrow> byte list \<Rightarrow> bool" where
  "encrypts crypter needCrypt pl body \<longleftrightarrow>
     (if needCrypt then \<exists>cr. crypter = Some cr \<and> cr_encrypt cr pl = Some body else body = pl)
     \<and> length body = length pl"

lemma crypt_slice_eq:
  assumes "encrypts crypter True pl body" "buf_read buf off n = pl" "off + n \<le> length buf" "length pl = n"
  shows "crypt_slice crypter buf off n = Some (buf_write buf off body)"
  using assms by (auto simp: encrypts_def crypt_slice_def memcpy_def)

lemma encode_fits_eq:
  assumes enc: "encrypts crypter needCrypt pl body" and n: "length pl = n" "22 + n \<le> length buf"
    and st: "\<And>buf off. store buf off = memcpy buf off pl"
  shows "encode_fits crypter needCrypt needCRC n store buf =
     Some (take 22 buf @ body @ drop (22 + n) buf, 22 + n, if needCRC then CheckSum body 0xFFFF else 0)"
proof -
  have b: "length body = n" using enc n by (simp add: encrypts_def)
  have over: "buf_write (buf_write buf 22 pl) 22 body = take 22 buf @ body @ drop (22 + n) buf"
    using n b by (simp add: buf_write_def)
  have pl: "buf_read (buf_write buf 22 pl) 22 n = pl" using read_write_same [of 22 pl buf] n by simp
  have body: "buf_read (take 22 buf @ body @ drop (22 + n) buf) 22 n = body"
    using n b by (simp add: buf_read_def)
  have store: "store buf 22 = Some (buf_write buf 22 pl)" using n st by (simp add: memcpy_def)
  show ?thesis
  proof (cases "n = 0")
    case True
    with n b show ?thesis by (simp add: encode_fits_def CORPC_MESSAGE_HEAD_SIZE_def buf_read_def)
  next
    case False
    show ?thesis
    proof (cases needCrypt)
      case True
      have "crypt_slice crypter (buf_write buf 22 pl) 22 n = Some (take 22 buf @ body @ drop (22 + n) buf)"
        using crypt_slice_eq [of crypter pl body "buf_write buf 22 pl" 22 n] enc True pl n over by simp
      with True False store body show ?thesis by (simp add: encode_fits_def CORPC_MESSAGE_HEAD_SIZE_def)
    next
      case plain: False
      with enc have "body = pl" by (simp add: encrypts_def)
      with plain False store body n show ?thesis
        by (simp add: encode_fits_def CORPC_MESSAGE_HEAD_SIZE_def buf_write_def)
    qed
  qed
qed

lemma encode_overflow_eq:
  assumes enc: "encrypts crypter needCrypt pl body" and n: "length pl = n" "22 \<le> length buf" "length buf < 22 + n"
  shows "encode_overflow crypter needCrypt needCRC n pl buf =
     Some (take 22 buf @ take (length buf - 22) body, length buf, body, length buf - 22,
           if needCRC then CheckSum body 0xFFFF else 0)"
proof -
  have b: "length body = n" using enc n by (simp add: encrypts_def)
  have "(if needCrypt then crypt_slice crypter pl 0 n else Some pl) = Some body"
    using enc crypt_slice_eq [of crypter pl body pl 0 n] n b
    by (auto simp: encrypts_def buf_read_def buf_write_def)
  then show ?thesis
    using n b by (auto simp: encode_overflow_def CORPC_MESSAGE_HEAD_SIZE_def memcpy_def buf_read_def
        buf_write_def Let_def)
qed

lemma length_head_of [simp]: "length (head_of t conn info body) = 22"
  by (simp add: head_of_def)

lemma body_of_encrypts:
  assumes "conn_ok conn" "body_of pb conn info = Some body"
  shows "encrypts (conn_crypter conn) (smi_needCrypt info) (payload pb (smi_msg info)) body"
  using assms xorc.encrypt_length
  by (fastforce simp: body_of_def encrypts_def conn_ok_def bind_eq_Some_conv split: if_splits)

lemma body_of_None_iff:
  assumes "conn_ok conn"
  shows "body_of pb conn info = None \<longleftrightarrow> smi_needCrypt info \<and> conn_crypter conn = None"
proof (cases "conn_crypter conn")
  case None
  then show ?thesis by (simp add: body_of_def)
next
  case (Some cr)
  with assms have "cr \<in> xor_crypters" by (simp add: conn_ok_def)
  with xorc.encrypt_total [of cr "payload pb (smi_msg info)"] Some show ?thesis
    by (auto simp: body_of_def)
qed

lemma encode_msg_eq:
  assumes valid: "valid_msg pb info" and conn: "conn_ok conn" and body: "body_of pb conn info = Some body"
    and buf: "22 \<le> length buf"
  shows "encode_msg e pb t conn info buf df sent =
     (if 22 + length body \<le> length buf
      then Some (True, head_of t conn info body @ body @ drop (22 + length body) buf, 22 + length body, df, sent)
      else Some (True, head_of t conn info body @ take (length buf - 22) body, length buf, body, length buf - 22))"
proof -
  let ?pl = "payload pb (smi_msg info)"
  have enc: "encrypts (conn_crypter conn) (smi_needCrypt info) ?pl body"
    using conn body by (rule body_of_encrypts)
  then have len: "length body = length ?pl" by (simp add: encrypts_def)
  have nocrypt: "\<not> (smi_needCrypt info \<and> conn_crypter conn = None)"
    using body body_of_None_iff [OF conn, of pb info] by auto
  let ?crc = "if enableSendCRC t then CheckSum body 0xFFFF else 0"
  let ?res = "if 22 + length body \<le> length buf
      then Some (take 22 buf @ body @ drop (22 + length body) buf, 22 + length body, df, sent, ?crc, length body)
      else Some (take 22 buf @ take (length buf - 22) body, length buf, body, length buf - 22, ?crc, length body)"
  have "(if smi_isRaw info then encode_raw conn (enableSendCRC t) info buf df sent
         else encode_proto pb conn (enableSendCRC t) info buf df sent) = ?res"
  proof (cases "smi_msg info")
    case NullMsg
    have "encode_fits (conn_crypter conn) (smi_needCrypt info) (enableSendCRC t) 0 (\<lambda>buf off. None) buf
        = Some (buf, 22, ?crc)"
      using NullMsg len by (simp add: encode_fits_def CORPC_MESSAGE_HEAD_SIZE_def buf_read_def)
    with NullMsg valid len buf show ?thesis
      by (simp add: valid_msg_def encode_raw_def Let_def)
  next
    case (RawMsg s)
    then show ?thesis
      using valid len buf enc encode_fits_eq [OF enc, of "length s" buf "\<lambda>buf off. memcpy buf off s" "enableSendCRC t"]
        encode_overflow_eq [OF enc, of "length s" buf "enableSendCRC t"]
      by (auto simp: valid_msg_def encode_raw_def CORPC_MESSAGE_HEAD_SIZE_def not_le Let_def)
  next
    case (ProtoMsg m)
    then have "(if pb_cached pb m mod 2 ^ 32 = 0 then pb_size pb m mod 2 ^ 32 else pb_cached pb m mod 2 ^ 32)
        = length (pb_bytes pb m)"
      using valid by (auto simp: valid_msg_def pb_ok_def)
    moreover have "memcpy (replicate (length (pb_bytes pb m)) 0) 0 (pb_bytes pb m) = Some (pb_bytes pb m)"
      by (simp add: memcpy_def buf_write_def)
    ultimately show ?thesis
      using ProtoMsg valid len buf enc
        encode_fits_eq [OF enc, of "length (pb_bytes pb m)" buf "\<lambda>buf off. memcpy buf off (pb_bytes pb m)" "enableSendCRC t"]
        encode_overflow_eq [OF enc, of "length (pb_bytes pb m)" buf "enableSendCRC t"]
      by (auto simp: valid_msg_def encode_proto_def CORPC_MESSAGE_HEAD_SIZE_def not_le Let_def)
  qed
  moreover have "encode_head e conn info (length body) ?crc (take 22 buf @ rest) = Some (head_of t conn info body @ rest)" for rest
    using encode_head_eq [of "take 22 buf @ rest" e conn info "length body" ?crc] buf by (simp add: head_of_def)
  ultimately show ?thesis
    using buf nocrypt by (simp add: encode_msg_def CORPC_MESSAGE_HEAD_SIZE_def)
qed

interpretation msgenc: encoder "encode_msg e pb t" "wire pb t" 22 "\<lambda>conn info. conn_ok conn \<and> valid_msg pb info"
  for e and pb :: "('p, 'k) protobuf" and t :: "('k, 'h) MessageTerminal"
proof unfold_locales
  fix conn :: "'p Connection" and info :: "'p SendMessageInfo" and w buf df :: "byte list" and sent :: nat
  assume v: "conn_ok conn \<and> valid_msg pb info"
  show "22 \<le> length w" if "wire pb t conn info = Some w"
    using that by (auto simp: wire_def)
  show "encode_msg e pb t conn info buf df sent = Some (True, buf, 0, df, sent)" if "length buf < 22"
    using that by (simp add: encode_msg_def CORPC_MESSAGE_HEAD_SIZE_def)
  show "encode_msg e pb t conn info buf df sent = Some (False, buf, 0, df, sent)"
    if "22 \<le> length buf" "wire pb t conn info = None"
    using that v body_of_None_iff [of conn pb info]
    by (simp add: wire_def encode_msg_def CORPC_MESSAGE_HEAD_SIZE_def)
  show "encode_msg e pb t conn info buf df sent = Some (True, w @ drop (length w) buf, length w, df, sent)"
    if "22 \<le> length buf" "wire pb t conn info = Some w" "length w \<le> length buf"
    using that v encode_msg_eq [of pb info conn _ buf e t df sent] by (auto simp: wire_def)
  show "\<exists>df' sent'. encode_msg e pb t conn info buf [] 0 = Some (True, take (length buf) w, length buf, df', sent')
      \<and> sent' < length df' \<and> drop sent' df' = drop (length buf) w"
    if "22 \<le> length buf" "wire pb t conn info = Some w" "length buf < length w"
    using that v encode_msg_eq [of pb info conn _ buf e t "[]" 0] by (auto simp: wire_def)
qed simp

lemma decode_message_conn:
  assumes "decode_message pb t conn msgType tag reqSerial body = Some (conn', task)"
  shows "conn_crypter conn' = conn_crypter conn"
  using assms
  by (auto simp: decode_message_def setDecodeError_def Let_def bind_eq_Some_conv
      split: option.splits if_splits)

lemma decode_crypter_length:
  assumes "decode e pb nowms t conn hb bd = Some (conn', bd', task)"
  shows "conn_crypter conn' = conn_crypter conn" and "conn_ok conn \<Longrightarrow> length bd' = length bd"
proof -
  have sys: "conn_crypter (fst (decode_system e nowms t conn hb ty)) = conn_crypter conn" for ty
    by (simp add: decode_system_def setDecodeError_def Let_def)
  have chk: "conn_crypter (fst (decode_checks e t conn hb bd)) = conn_crypter conn"
    by (simp add: decode_checks_def setDecodeError_def Let_def)
  show "conn_crypter conn' = conn_crypter conn"
    using assms sys chk
    by (auto simp: decode_def Let_def bind_eq_Some_conv setDecodeError_def split_beta
        split: option.splits if_splits dest!: decode_message_conn)
  show "length bd' = length bd" if ok: "conn_ok conn"
  proof -
    have "length ys = length xs" if "Some cr = conn_crypter conn" "cr_decrypt cr xs = Some ys" for cr xs ys
      using that(2) that(1) [symmetric] ok by (auto simp: conn_ok_def xor_crypters_def xor_crypter_encrypt)
    then show ?thesis
      using assms chk
      by (auto simp: decode_def Let_def bind_eq_Some_conv split_beta split: option.splits if_splits)
  qed
qed

interpretation msgdec: decoder "decode e pb nowms t" conn_ok for e pb nowms t
proof unfold_locales
  fix conn hb bd conn' bd' task
  assume "conn_ok conn" "decode e pb nowms t conn hb bd = Some (conn', bd', task)"
  with decode_crypter_length [OF this(2)] show "length bd' = length bd" "conn_ok conn'"
    by (auto simp: conn_ok_def)
qed

section \<open>Decoding what was encoded\<close>

lemma head_of_fields:
  "get32 e (head_of t conn info body) 0 = of_nat (length body)"
  "get32 e (head_of t conn info body) 4 = smi_type info"
  "get16 e (head_of t conn info body) 8 = smi_tag info"
  "get16 e (head_of t conn info body) 10 = (if smi_needCrypt info then CORPC_MESSAGE_FLAG_CRYPT else 0)"
  "get32 e (head_of t conn info body) 12 = recvSerial conn"
  "get32 e (head_of t conn info body) 16 = smi_serial info"
  "get16 e (head_of t conn info body) 20 = (if enableSendCRC t then CheckSum body 0xFFFF else 0)"
proof -
  let ?a = "be_bytes 4 (of_nat (length body) :: u32)"
  let ?b = "be_bytes 4 (smi_type info)"
  let ?c = "be_bytes 2 (smi_tag info)"
  let ?d = "be_bytes 2 (if smi_needCrypt info then CORPC_MESSAGE_FLAG_CRYPT else 0)"
  let ?f = "be_bytes 4 (recvSerial conn)"
  let ?g = "be_bytes 4 (smi_serial info)"
  let ?h = "be_bytes 2 (if enableSendCRC t then CheckSum body 0xFFFF else 0)"
  show "get32 e (head_of t conn info body) 0 = of_nat (length body)"
    using get32_field [of "[]" 0 e] by (simp add: head_of_def)
  show "get32 e (head_of t conn info body) 4 = smi_type info"
    using get32_field [of ?a 4 e] by (simp add: head_of_def)
  show "get16 e (head_of t conn info body) 8 = smi_tag info"
    using get16_field [of "?a @ ?b" 8 e] by (simp add: head_of_def)
  show "get16 e (head_of t conn info body) 10 = (if smi_needCrypt info then CORPC_MESSAGE_FLAG_CRYPT else 0)"
    using get16_field [of "?a @ ?b @ ?c" 10 e "if smi_needCrypt info then CORPC_MESSAGE_FLAG_CRYPT else 0"]
    by (simp add: head_of_def)
  show "get32 e (head_of t conn info body) 12 = recvSerial conn"
    using get32_field [of "?a @ ?b @ ?c @ ?d" 12 e] by (simp add: head_of_def)
  show "get32 e (head_of t conn info body) 16 = smi_serial info"
    using get32_field [of "?a @ ?b @ ?c @ ?d @ ?f" 16 e] by (simp add: head_of_def)
  show "get16 e (head_of t conn info body) 20 = (if enableSendCRC t then CheckSum body 0xFFFF else 0)"
    using get16_field [of "?a @ ?b @ ?c @ ?d @ ?f @ ?g" 20 e "if enableSendCRC t then CheckSum body 0xFFFF else 0" "[]"]
    by (simp add: head_of_def)
qed

end
