(* ===== verification/Transport.thy ===== *)
theory Transport
  imports Pipeline
begin

text \<open>
  The two pipelines joined by a byte stream.  The locale \<open>transport\<close> is the contract of a codec whose
  encoder and decoder fit together: \<open>recv r c d\<close> is what the receiving connection \<open>r\<close> makes of the
  message \<open>d\<close> that the connection \<open>c\<close> has encoded (\<open>None\<close>: it closes).  Its lemmas carry this from
  one message to streams, through \<open>MessagePipeline::downflow\<close>, any way of cutting the bytes into
  chunks, and \<open>TcpPipeline::upflow\<close>.
\<close>

fun recv_all ::
  "('r \<Rightarrow> 'c \<Rightarrow> 'd \<Rightarrow> ('r \<times> 't option) option) \<Rightarrow> 'r \<Rightarrow> ('c \<times> 'd) list \<Rightarrow> 't list \<Rightarrow> ('r \<times> 't list) option" where
  "recv_all recv r [] q = Some (r, q)"
| "recv_all recv r ((c, d) # ms) q = do {
     (r, task) \<leftarrow> recv r c d;
     recv_all recv r ms (addTask q task)
   }"

definition pipeline_for :: "framing \<Rightarrow> TcpPipeline" where
  "pipeline_for fr = new_TcpPipeline (fr_head fr) (fr_max fr) (fr_off fr) (fr_type fr)"

lemma pipeline_for_idle [simp]: "overflow_ok (pipeline_for fr)" "unsent (pipeline_for fr) = []"
  by (simp_all add: overflow_ok_def unsent_def pipeline_for_def new_TcpPipeline_def)

locale transport = encoder enc wire hsize valid + decoder dec conn_ok
  for enc :: "('c, 'd) encode_fun" and wire hsize valid and dec :: "('r, 't) decode_fun" and conn_ok +
  fixes e :: endian and fr :: framing and err :: "'r \<Rightarrow> bool"
    and recv :: "'r \<Rightarrow> 'c \<Rightarrow> 'd \<Rightarrow> ('r \<times> 't option) option" and sendable :: "'r \<Rightarrow> 'c \<Rightarrow> 'd \<Rightarrow> bool"
  assumes framing_ok: "wf_framing fr" "fr_head fr = hsize"
    and sendable_wire: "sendable r c d \<Longrightarrow> valid c d \<and> (\<exists>w. wire c d = Some w)"
    and sendable_frame: "sendable r c d \<Longrightarrow> wire c d = Some w \<Longrightarrow>
      frame_size e fr (take hsize w) = length w - hsize \<and> length w - hsize \<le> fr_max fr"
    and recv_decodes: "conn_ok r \<Longrightarrow> \<not> err r \<Longrightarrow> sendable r c d \<Longrightarrow> wire c d = Some w \<Longrightarrow>
      recv r c d = Some (r', task) \<Longrightarrow> \<not> err r' \<and> (\<exists>bd. dec r (take hsize w) (drop hsize w) = Some (r', bd, task))"
    and sendable_kept: "sendable r c d \<Longrightarrow> recv r c d = Some (r', task) \<Longrightarrow> sendable r c' d' \<Longrightarrow> sendable r' c' d'"
begin

lemma drain_stream:
  assumes "\<forall>(c, d)\<in>set ms. sendable r c d" "conn_ok r" "\<not> err r" "recv_all recv r ms q = Some (r', q')"
  shows "drain e fr dec err (stamped wire ms @ rest) r q = drain e fr dec err rest r' q'"
  using assms
proof (induction ms arbitrary: r q)
  case Nil
  then show ?case by simp
next
  case (Cons m ms)
  obtain c d where m: "m = (c, d)" by force
  have sd: "sendable r c d" using Cons.prems(1) m by simp
  then obtain w where w: "valid c d" "wire c d = Some w" using sendable_wire by blast
  obtain r1 task where st: "recv r c d = Some (r1, task)" "recv_all recv r1 ms (addTask q task) = Some (r', q')"
    using Cons.prems(4) m by (auto simp: bind_eq_Some_conv)
  obtain bd where dec: "\<not> err r1" "dec r (take hsize w) (drop hsize w) = Some (r1, bd, task)"
    using recv_decodes [OF Cons.prems(2,3) sd w(2) st(1)] by blast
  have "\<forall>(c, d)\<in>set ms. sendable r1 c d" using Cons.prems(1) sendable_kept [OF sd st(1)] by auto
  note IH = Cons.IH [OF this decode_conn [OF Cons.prems(2) dec(2)] dec(1) st(2)]
  have "stamped wire (m # ms) @ rest = take hsize w @ drop hsize w @ stamped wire ms @ rest"
    using w(2) m by (simp add: append_assoc [symmetric] del: append_assoc)
  also have "drain e fr dec err \<dots> r q = drain e fr dec err (stamped wire ms @ rest) r1 (addTask q task)"
    using sendable_frame [OF sd w(2)] wire_head [OF w] dec framing_ok(2) hsize_pos
    by (subst drain_frame [of _ _ "length w - hsize"]) simp_all
  finally show ?case using IH by simp
qed

text \<open>A stream of messages, cut into chunks in any way, reaches the worker.\<close>

lemma upflow_stream:
  assumes "\<forall>(c, d)\<in>set ms. sendable r c d" "conn_ok r" "\<not> err r" "recv_all recv r ms q = Some (r', q')"
    "concat chunks = stamped wire ms"
  shows "\<exists>p. tcp_upflow_all e dec err chunks (pipeline_for fr) r q = Some (p, r', q', True) \<and> tcp_pending e fr p []"
proof -
  have pend: "tcp_pending e fr (pipeline_for fr) []"
    using new_TcpPipeline_pending [of "fr_head fr" e "fr_max fr" "fr_off fr" "fr_type fr"] framing_ok(2) hsize_pos
    by (cases fr) (simp add: pipeline_for_def)
  have "drain e fr dec err ([] @ concat chunks) r q = Some (Waiting [] r' q')"
    using drain_stream [OF assms(1-4), of "[]"] assms(5) hsize_pos framing_ok(2)
    by (simp add: drain.simps [of _ _ _ _ "[]"])
  moreover have "upflow_agrees e fr (tcp_upflow_all e dec err chunks (pipeline_for fr) r q)
      (drain e fr dec err ([] @ concat chunks) r q)"
    by (rule tcp_upflow_all_drains [OF framing_ok(1) pend assms(2)])
  ultimately show ?thesis by (auto simp: upflow_agrees_def)
qed

text \<open>A stream whose first message the decoder refuses, cut into chunks in any way, closes the connection.\<close>

lemma upflow_rejected:
  assumes "sendable r c d" "conn_ok r" "wire c d = Some w" "dec r (take hsize w) (drop hsize w) = Some (r', bd, task)" "err r'"
    "concat chunks = w @ rest"
  shows "\<exists>p. tcp_upflow_all e dec err chunks (pipeline_for fr) r q = Some (p, r', q, False)"
proof -
  have pend: "tcp_pending e fr (pipeline_for fr) []"
    using new_TcpPipeline_pending [of "fr_head fr" e "fr_max fr" "fr_off fr" "fr_type fr"] framing_ok(2) hsize_pos
    by (cases fr) (simp add: pipeline_for_def)
  have v: "valid c d" using sendable_wire [OF assms(1)] by blast
  have "concat chunks = take hsize w @ drop hsize w @ rest" using assms(6) by (simp add: append_assoc [symmetric] del: append_assoc)
  moreover have "drain e fr dec err (take hsize w @ drop hsize w @ rest) r q = Some (Closed r' q)"
    using sendable_frame [OF assms(1,3)] wire_head [OF v assms(3)] assms(4,5) framing_ok(2) hsize_pos
    by (subst drain_frame [of _ _ "length w - hsize"]) simp_all
  ultimately have "drain e fr dec err ([] @ concat chunks) r q = Some (Closed r' q)" by simp
  moreover have "upflow_agrees e fr (tcp_upflow_all e dec err chunks (pipeline_for fr) r q)
      (drain e fr dec err ([] @ concat chunks) r q)"
    by (rule tcp_upflow_all_drains [OF framing_ok(1) pend assms(2)])
  ultimately show ?thesis by (auto simp: upflow_agrees_def)
qed

text \<open>
  What the sending side puts on the wire: with enough calls of \<open>downflow\<close>, every waiting message.
\<close>

lemma sent_stream:
  assumes ds: "\<And>c buf d. (c, buf) \<in> set calls \<Longrightarrow> d \<in> set ds \<Longrightarrow>
      valid c d \<and> (\<exists>w. wire c d = Some w \<and> length w = hsize + len d)"
    and calls: "\<forall>(c, buf)\<in>set calls. hsize \<le> length buf" and enough: "(\<Sum>d\<leftarrow>ds. hsize + len d) \<le> length calls"
    and p: "overflow_ok p" "unsent p = []"
  shows "\<exists>p' outs cds. downflow_all enc p ds calls = Some (p', [], outs, True) \<and> map snd cds = ds
     \<and> fst ` set cds \<subseteq> fst ` set calls \<and> concat outs = stamped wire cds \<and> overflow_ok p' \<and> unsent p' = []"
proof -
  have "\<exists>p' datas' outs cds. downflow_all enc p ds calls = Some (p', datas', outs, True)
     \<and> overflow_ok p' \<and> ds = map snd cds @ datas' \<and> fst ` set cds \<subseteq> fst ` set calls
     \<and> unsent p @ stamped wire cds = concat outs @ unsent p'
     \<and> (length (unsent p) + (\<Sum>d\<leftarrow>ds. hsize + len d) \<le> length calls \<longrightarrow> datas' = [] \<and> unsent p' = [])"
  proof (rule downflow_all_streams [OF _ _ _ p(1)])
    fix c buf d assume "(c, buf) \<in> set calls" "d \<in> set ds"
    from ds [OF this] show "valid c d \<and> wire c d \<noteq> None \<and> length (the (wire c d)) = hsize + len d" by auto
  qed (use calls hsize_pos in auto)
  then obtain p' datas' outs cds where
    "downflow_all enc p ds calls = Some (p', datas', outs, True)" "overflow_ok p'"
    "ds = map snd cds @ datas'" "fst ` set cds \<subseteq> fst ` set calls"
    "stamped wire cds = concat outs @ unsent p'" "datas' = [] \<and> unsent p' = []"
    using p(2) enough by auto
  then show ?thesis by auto
qed

text \<open>
  End to end: whatever send buffers \<open>downflow\<close> is given and whatever chunks the peer reads, the peer
  makes of the stream what \<open>recv\<close> makes of the messages one by one.
\<close>

lemma stream_delivered:
  assumes ds: "\<And>c buf d. (c, buf) \<in> set calls \<Longrightarrow> d \<in> set ds \<Longrightarrow> sendable r c d"
    "\<And>c buf d w. (c, buf) \<in> set calls \<Longrightarrow> d \<in> set ds \<Longrightarrow> wire c d = Some w \<Longrightarrow> length w = hsize + len d"
    and calls: "\<forall>(c, buf)\<in>set calls. hsize \<le> length buf" and enough: "(\<Sum>d\<leftarrow>ds. hsize + len d) \<le> length calls"
    and r: "conn_ok r" "\<not> err r"
    and recv: "\<And>cds. map snd cds = ds \<Longrightarrow> fst ` set cds \<subseteq> fst ` set calls \<Longrightarrow>
      \<exists>r' q'. recv_all recv r cds q = Some (r', q') \<and> P r' q'"
    and p: "overflow_ok p" "unsent p = []"
  shows "\<exists>p' outs. downflow_all enc p ds calls = Some (p', [], outs, True)
     \<and> (\<forall>chunks. concat chunks = concat outs \<longrightarrow>
          (\<exists>p' r' q'. tcp_upflow_all e dec err chunks (pipeline_for fr) r q = Some (p', r', q', True) \<and> P r' q'))"
proof -
  have v: "valid c d \<and> (\<exists>w. wire c d = Some w \<and> length w = hsize + len d)"
    if "(c, buf) \<in> set calls" "d \<in> set ds" for c buf d
    using sendable_wire [OF ds(1) [OF that]] ds(2) [OF that] by blast
  have "\<exists>p' outs cds. downflow_all enc p ds calls = Some (p', [], outs, True) \<and> map snd cds = ds
     \<and> fst ` set cds \<subseteq> fst ` set calls \<and> concat outs = stamped wire cds \<and> overflow_ok p' \<and> unsent p' = []"
    by (rule sent_stream [OF _ calls enough p]) (rule v)
  then obtain p' outs cds where s: "downflow_all enc p ds calls = Some (p', [], outs, True)" "map snd cds = ds"
      "fst ` set cds \<subseteq> fst ` set calls" "concat outs = stamped wire cds"
    by blast
  obtain r' q' where q: "recv_all recv r cds q = Some (r', q')" "P r' q'" using recv [OF s(2,3)] by blast
  have "sendable r c d" if "(c, d) \<in> set cds" for c d
  proof -
    have "c \<in> fst ` set cds" using that by (force intro: image_eqI)
    then obtain buf where "(c, buf) \<in> set calls" using s(3) by force
    moreover have "d \<in> set ds" using that s(2) by force
    ultimately show ?thesis by (rule ds(1))
  qed
  then have all: "\<forall>(c, d)\<in>set cds. sendable r c d" by blast
  have up: "\<exists>p' r' q'. tcp_upflow_all e dec err chunks (pipeline_for fr) r q = Some (p', r', q', True) \<and> P r' q'"
    if "concat chunks = concat outs" for chunks
    using upflow_stream [OF all r q(1), of chunks] that s(4) q(2) by auto
  show ?thesis using s(1) up by blast
qed

end

end
