(* ===== verification/Delivery.thy ===== *)
theory Delivery
  imports Terminal Transport
begin

text \<open>
  Messages from \<open>MessageTerminal::Connection::send\<close> to the worker of the peer: what a message that
  was put on the wire by one terminal means to the terminal that decodes it (\<open>recv_step\<close>), and from
  there the delivery of whole streams through \<open>MessagePipeline::downflow\<close>, any way of cutting the
  bytes into chunks, and \<open>TcpPipeline::upflow\<close>.
\<close>

section \<open>What a receiver makes of a message\<close>

definition received_msg ::
  "('p, 'k) protobuf \<Rightarrow> ('k, 'h) MessageTerminal \<Rightarrow> 'p SendMessageInfo \<Rightarrow> 'p msg_ptr option" where
  "received_msg pb t info =
     (case registerMessageMap t (smi_type info) of
        None \<Rightarrow> if otherMessageHandle t \<noteq> None then Some (RawMsg (payload pb (smi_msg info))) else None
      | Some reg \<Rightarrow>
          if rmi_banned reg then Some NullMsg
          else (case rmi_proto reg of
                  Some proto \<Rightarrow> map_option ProtoMsg (pb_parse pb proto (payload pb (smi_msg info)))
                | None \<Rightarrow> if payload pb (smi_msg info) = [] then Some NullMsg else None))"

definition is_banned :: "('k, 'h) MessageTerminal \<Rightarrow> u32 \<Rightarrow> bool" where
  "is_banned t type = (case registerMessageMap t type of None \<Rightarrow> False | Some reg \<Rightarrow> rmi_banned reg)"

text \<open>
  \<open>None\<close>: the receiver closes the connection, or fails the assertion that a message without a prototype
  is empty.  \<open>cs\<close> is the sending connection at the time of the
  encoding; its \<open>recvSerial_\<close> travels with the message as the acknowledgement.
\<close>

definition recv_step ::
  "('p, 'k) protobuf \<Rightarrow> u64 \<Rightarrow> ('k, 'h) MessageTerminal \<Rightarrow> 'p Connection \<Rightarrow> 'p Connection \<Rightarrow> 'p SendMessageInfo \<Rightarrow>
   ('p Connection \<times> 'p MessageWorkerTask option) option" where
  "recv_step pb nowms t conn cs info =
     (if sint (smi_type info) < 0 then
        if smi_type info = CORPC_MSG_TYPE_HEARTBEAT then
          Some (conn\<lparr>lastRecvHBTime := nowms\<rparr>,
                if enableSerial t
                then Some \<lparr>task_type = CORPC_MSG_TYPE_HEARTBEAT, task_tag = None, task_reqSerial = Some (recvSerial cs),
                           task_banned = None, task_msg = NullMsg\<rparr>
                else None)
        else if smi_type info = CORPC_MSG_TYPE_JUMP_SERIAL then
          if smi_serial info \<le> recvSerial conn then None
          else Some (conn\<lparr>recvSerial := smi_serial info\<rparr>, None)
        else Some (conn, None)
      else if enableSerial t \<and> recvSerial conn + 1 \<noteq> smi_serial info then None
      else map_option
        (\<lambda>msg. (if enableSerial t then conn\<lparr>recvSerial := recvSerial conn + 1\<rparr> else conn,
                Some \<lparr>task_type = smi_type info, task_tag = Some (smi_tag info),
                      task_reqSerial = Some (if enableSerial t then recvSerial cs else 0),
                      task_banned = Some (is_banned t (smi_type info)), task_msg = msg\<rparr>))
        (received_msg pb t info))"

text \<open>The two ends fit together: same crypter, and no CRC expected that is not sent.\<close>

definition ends_match ::
  "('k, 'h) MessageTerminal \<Rightarrow> ('l, 'g) MessageTerminal \<Rightarrow> 'p Connection \<Rightarrow> 'p Connection \<Rightarrow> bool" where
  "ends_match ts tr cs cr \<longleftrightarrow>
     (enableRecvCRC tr \<longrightarrow> enableSendCRC ts) \<and> conn_crypter cr = conn_crypter cs \<and> conn_ok cs"

lemma decode_message_received:
  assumes "received_msg pb t info = Some msg"
  shows "decode_message pb t conn (smi_type info) tag req (payload pb (smi_msg info)) =
     Some (conn, Some \<lparr>task_type = smi_type info, task_tag = Some tag, task_reqSerial = Some req,
                       task_banned = Some (is_banned t (smi_type info)), task_msg = msg\<rparr>)"
  using assms
  by (auto simp: received_msg_def decode_message_def is_banned_def assertion_def Let_def
      split: option.splits if_splits)

lemma decode_wire_crypt:
  assumes "ends_match ts tr cs cr" "body_of pb cs info = Some body"
  shows "smi_needCrypt info \<Longrightarrow>
      \<exists>cry. conn_crypter cr = Some cry \<and> cr_decrypt cry body = Some (payload pb (smi_msg info))"
    and "\<not> smi_needCrypt info \<Longrightarrow> body = payload pb (smi_msg info)"
proof -
  show "\<exists>cry. conn_crypter cr = Some cry \<and> cr_decrypt cry body = Some (payload pb (smi_msg info))"
    if crypt: "smi_needCrypt info"
  proof -
    obtain cry where "conn_crypter cs = Some cry" "cr_encrypt cry (payload pb (smi_msg info)) = Some body"
      using assms(2) crypt by (auto simp: body_of_def bind_eq_Some_conv)
    moreover then have "cry \<in> xor_crypters" using assms(1) by (simp add: ends_match_def conn_ok_def)
    ultimately show ?thesis
      using assms(1) xorc.decrypt_encrypt by (auto simp: ends_match_def)
  qed
  show "body = payload pb (smi_msg info)" if "\<not> smi_needCrypt info"
    using assms(2) that by (simp add: body_of_def)
qed

lemma decode_wire:
  assumes ends: "ends_match ts tr cs cr" and body: "body_of pb cs info = Some body"
    and step: "recv_step pb nowms tr cr cs info = Some (cr', task)"
  shows "\<exists>bd. decode e pb nowms tr cr (head_of ts cs info body) body = Some (cr', bd, task)"
proof (cases "sint (smi_type info) < 0")
  case True
  with step show ?thesis
    by (auto simp: decode_def decode_system_def recv_step_def head_of_fields Let_def
        CORPC_MESSAGE_HEAD_SIZE_def split: if_splits)
next
  case False
  let ?cr = "if enableSerial tr then cr\<lparr>recvSerial := recvSerial cr + 1\<rparr> else cr"
  obtain msg where msg: "received_msg pb tr info = Some msg"
    and serial: "enableSerial tr \<longrightarrow> recvSerial cr + 1 = smi_serial info"
    and r: "cr' = ?cr" "task = Some \<lparr>task_type = smi_type info, task_tag = Some (smi_tag info),
        task_reqSerial = Some (if enableSerial tr then recvSerial cs else 0),
        task_banned = Some (is_banned tr (smi_type info)), task_msg = msg\<rparr>"
    using step False by (auto simp: recv_step_def split: if_splits)
  have chk: "decode_checks e tr cr (head_of ts cs info body) body = (?cr, True)"
    using serial ends by (auto simp: decode_checks_def head_of_fields ends_match_def Let_def)
  have crypter: "conn_crypter ?cr = conn_crypter cr" by simp
  show ?thesis
  proof (cases "smi_needCrypt info")
    case True
    with decode_wire_crypt(1) [OF ends body] show ?thesis
      using False chk r decode_message_received [OF msg, of ?cr "smi_tag info"]
      by (auto simp: decode_def head_of_fields CORPC_MESSAGE_FLAG_CRYPT_def CORPC_MESSAGE_HEAD_SIZE_def Let_def)
  next
    case plain: False
    with decode_wire_crypt(2) [OF ends body] show ?thesis
      using False chk r decode_message_received [OF msg, of ?cr "smi_tag info"]
      by (auto simp: decode_def head_of_fields CORPC_MESSAGE_HEAD_SIZE_def Let_def)
  qed
qed

lemma decode_wrong_serial:
  assumes "enableSerial tr" "sint (smi_type info) \<ge> 0" "recvSerial cr + 1 \<noteq> smi_serial info"
  shows "decode e pb nowms tr cr (head_of ts cs info body) body =
     Some (setDecodeError (cr\<lparr>recvSerial := recvSerial cr + 1\<rparr>), body, None)"
  using assms by (simp add: decode_def decode_checks_def head_of_fields CORPC_MESSAGE_HEAD_SIZE_def Let_def)

section \<open>Streams of messages\<close>

text \<open>The framing of \<open>TcpMessageServer\<close> and \<open>TcpClient\<close>: the body size stands in the first four bytes.\<close>

definition msg_framing :: "nat \<Rightarrow> framing" where
  "msg_framing mx = \<lparr>fr_head = CORPC_MESSAGE_HEAD_SIZE, fr_max = mx, fr_off = 0, fr_type = FOUR_BYTES\<rparr>"

abbreviation msg_pipeline :: "nat \<Rightarrow> TcpPipeline" where
  "msg_pipeline mx \<equiv> pipeline_for (msg_framing mx)"

abbreviation recv_run ::
  "('p, 'k) protobuf \<Rightarrow> u64 \<Rightarrow> ('k, 'h) MessageTerminal \<Rightarrow> 'p Connection \<Rightarrow> ('p Connection \<times> 'p SendMessageInfo) list \<Rightarrow>
   'p MessageWorkerTask list \<Rightarrow> ('p Connection \<times> 'p MessageWorkerTask list) option" where
  "recv_run pb nowms t \<equiv> recv_all (recv_step pb nowms t)"

definition sendable ::
  "('p, 'k) protobuf \<Rightarrow> ('k, 'h) MessageTerminal \<Rightarrow> ('l, 'g) MessageTerminal \<Rightarrow> nat \<Rightarrow> 'p Connection \<Rightarrow> 'p Connection \<Rightarrow>
   'p SendMessageInfo \<Rightarrow> bool" where
  "sendable pb ts tr mx cr cs info \<longleftrightarrow>
     ends_match ts tr cs cr \<and> valid_msg pb info \<and> (smi_needCrypt info \<longrightarrow> conn_crypter cs \<noteq> None)
     \<and> length (payload pb (smi_msg info)) \<le> mx"

lemma sendable_wire:
  assumes "sendable pb ts tr mx cr cs info"
  obtains body where "body_of pb cs info = Some body" "length body = length (payload pb (smi_msg info))"
    "wire pb ts cs info = Some (head_of ts cs info body @ body)"
proof -
  have ok: "conn_ok cs" using assms by (simp add: sendable_def ends_match_def)
  then obtain body where b: "body_of pb cs info = Some body"
    using assms body_of_None_iff [of cs pb info] by (cases "body_of pb cs info") (auto simp: sendable_def)
  moreover have "length body = length (payload pb (smi_msg info))"
    using body_of_encrypts [OF ok b] by (simp add: encrypts_def)
  ultimately show thesis using that by (simp add: wire_def)
qed

lemma recv_step_conn:
  assumes "recv_step pb nowms t conn cs info = Some (conn', task)"
  shows "conn_crypter conn' = conn_crypter conn" "decodeError conn' = decodeError conn"
  using assms by (auto simp: recv_step_def split: if_splits)

lemma wf_msg_framing [simp]: "wf_framing (msg_framing mx)"
  by (simp add: wf_framing_def msg_framing_def CORPC_MESSAGE_HEAD_SIZE_def size_bytes_def)

interpretation msgs: transport "encode_msg e pb ts" "wire pb ts" 22 "\<lambda>conn info. conn_ok conn \<and> valid_msg pb info"
    "decode e' pb nowms tr" conn_ok e' "msg_framing mx" decodeError "recv_step pb nowms tr" "sendable pb ts tr mx"
  for e e' pb ts tr mx nowms
proof unfold_locales
  fix r cs and info :: "'a SendMessageInfo" and w r' task c' and d' :: "'a SendMessageInfo"
  show "wf_framing (msg_framing mx)" "fr_head (msg_framing mx) = 22"
    by (rule wf_msg_framing) (simp add: msg_framing_def CORPC_MESSAGE_HEAD_SIZE_def)
  assume sd: "sendable pb ts tr mx r cs info"
  obtain body where b: "body_of pb cs info = Some body" "length body = length (payload pb (smi_msg info))"
      "wire pb ts cs info = Some (head_of ts cs info body @ body)"
    using sd by (rule sendable_wire)
  have len: "length body < 2 ^ 32" "length body \<le> mx" using sd b(2) by (auto simp: sendable_def valid_msg_def)
  show "(conn_ok cs \<and> valid_msg pb info) \<and> (\<exists>w. wire pb ts cs info = Some w)"
    using sd b(3) by (simp add: sendable_def ends_match_def)
  show "frame_size e' (msg_framing mx) (take 22 w) = length w - 22 \<and> length w - 22 \<le> fr_max (msg_framing mx)"
    if "wire pb ts cs info = Some w"
    using that b(3) len by (auto simp: frame_size_def msg_framing_def head_of_fields)
  show "\<not> decodeError r' \<and> (\<exists>bd. decode e' pb nowms tr r (take 22 w) (drop 22 w) = Some (r', bd, task))"
    if "\<not> decodeError r" "wire pb ts cs info = Some w" "recv_step pb nowms tr r cs info = Some (r', task)"
    using that b(3) decode_wire [OF _ b(1) that(3), of ts e'] sd recv_step_conn(2) [OF that(3)]
    by (auto simp: sendable_def)
  show "sendable pb ts tr mx r' c' d'" if "recv_step pb nowms tr r cs info = Some (r', task)" "sendable pb ts tr mx r c' d'"
    using that recv_step_conn(1) [OF that(1)] by (simp add: sendable_def ends_match_def)
qed

section \<open>Sending\<close>

text \<open>
  A connection's message buffer in step with it: intact, and the last serial it has seen is the last
  one the connection has given out.  \<open>n\<close> bounds the number of serials given out.
\<close>

definition buffer_in_step :: "nat \<Rightarrow> 'p Connection \<Rightarrow> bool" where
  "buffer_in_step n conn \<longleftrightarrow>
     (\<forall>b. msgBuffer conn = Some b \<longrightarrow>
        (\<exists>a. buffer_rel b a \<and> buffer_inv n a \<and> \<not> ab_broken a \<and> ab_last a = lastSendSerial conn))"

lemma buffer_in_step_mono: "buffer_in_step n conn \<Longrightarrow> n \<le> k \<Longrightarrow> buffer_in_step k conn"
  unfolding buffer_in_step_def using buffer_inv_mono by blast

lemma stamp_serial_in_step:
  assumes "buffer_in_step n conn" "n < 2 ^ 32"
  shows "\<exists>conn'. stamp_serial t conn needBuffer info =
         Some (conn', info\<lparr>smi_serial := if sint (smi_type info) > 0 \<and> enableSerial t then lastSendSerial conn + 1 else 0\<rparr>)
     \<and> buffer_in_step (Suc n) conn' \<and> datas conn' = datas conn \<and> conn_isOpen conn' = conn_isOpen conn
     \<and> conn_crypter conn' = conn_crypter conn \<and> recvSerial conn' = recvSerial conn
     \<and> lastSendSerial conn' = lastSendSerial conn + (if sint (smi_type info) > 0 \<and> enableSerial t then 1 else 0)"
proof (cases "sint (smi_type info) > 0 \<and> enableSerial t")
  case False
  with assms show ?thesis
    by (auto simp: stamp_serial_def intro: buffer_in_step_mono)
next
  case True
  show ?thesis
  proof (cases "msgBuffer conn")
    case None
    with True show ?thesis by (auto simp: stamp_serial_def buffer_in_step_def Let_def)
  next
    case (Some b)
    then obtain a where a: "buffer_rel b a" "buffer_inv n a" "\<not> ab_broken a" "ab_last a = lastSendSerial conn"
      using assms(1) by (auto simp: buffer_in_step_def)
    let ?op = "if needBuffer then OpInsert (info\<lparr>smi_serial := lastSendSerial conn + 1\<rparr>)
               else OpJump (lastSendSerial conn + 1)"
    obtain b' where b': "buffer_step ?op b = Some (b', snd (spec_step ?op a))"
        "buffer_rel b' (fst (spec_step ?op a))" "buffer_inv (Suc n) (fst (spec_step ?op a))"
      using buffer_step_rel [OF a(1,2), of ?op] assms(2) by (cases needBuffer) auto
    have "\<not> ab_broken (fst (spec_step ?op a))" "ab_last (fst (spec_step ?op a)) = lastSendSerial conn + 1"
      using a(3,4) by (auto simp: insert_spec_def jump_spec_def Let_def)
    with b' Some True show ?thesis
      by (cases needBuffer) (auto simp: stamp_serial_def buffer_in_step_def Let_def)
  qed
qed

text \<open>Requests to send: the message without its serial, and whether it is to be buffered.\<close>

type_synonym 'p request = "'p SendMessageInfo \<times> bool"

fun send_all :: "('k, 'h) MessageTerminal \<Rightarrow> 'p Connection \<Rightarrow> 'p request list \<Rightarrow> 'p Connection option" where
  "send_all t conn [] = Some conn"
| "send_all t conn ((info, needBuffer) # reqs) = do {
     conn \<leftarrow> send t conn (smi_type info) (smi_isRaw info) (smi_needCrypt info) needBuffer (smi_tag info) (smi_msg info);
     send_all t conn reqs
   }"

fun number_from :: "bool \<Rightarrow> u32 \<Rightarrow> 'p SendMessageInfo list \<Rightarrow> 'p SendMessageInfo list" where
  "number_from on s [] = []"
| "number_from on s (info # infos) =
     (if on then info\<lparr>smi_serial := s + 1\<rparr> # number_from on (s + 1) infos
      else info\<lparr>smi_serial := 0\<rparr> # number_from on s infos)"

lemma send_all_numbers:
  "\<forall>(info, nb)\<in>set reqs. sint (smi_type info) > 0 \<Longrightarrow> conn_isOpen conn \<Longrightarrow> buffer_in_step n conn \<Longrightarrow>
   n + length reqs \<le> 2 ^ 32 \<Longrightarrow>
   \<exists>conn'. send_all t conn reqs = Some conn'
     \<and> datas conn' = datas conn @ number_from (enableSerial t) (lastSendSerial conn) (map fst reqs)
     \<and> buffer_in_step (n + length reqs) conn' \<and> conn_isOpen conn' \<and> conn_crypter conn' = conn_crypter conn
     \<and> recvSerial conn' = recvSerial conn"
proof (induction reqs arbitrary: conn n)
  case Nil
  then show ?case by simp
next
  case (Cons r reqs)
  obtain info nb where r: "r = (info, nb)" by force
  let ?info = "\<lparr>smi_type = smi_type info, smi_isRaw = smi_isRaw info, smi_needCrypt = smi_needCrypt info,
      smi_tag = smi_tag info, smi_serial = 0, smi_msg = smi_msg info\<rparr>"
  have same: "?info\<lparr>smi_serial := x\<rparr> = info\<lparr>smi_serial := x\<rparr>" for x by (cases info) simp
  obtain conn1 where c1: "stamp_serial t conn nb ?info =
        Some (conn1, info\<lparr>smi_serial := if enableSerial t then lastSendSerial conn + 1 else 0\<rparr>)"
      "buffer_in_step (Suc n) conn1" "datas conn1 = datas conn" "conn_isOpen conn1" "conn_crypter conn1 = conn_crypter conn"
      "recvSerial conn1 = recvSerial conn" "lastSendSerial conn1 = lastSendSerial conn + (if enableSerial t then 1 else 0)"
    using stamp_serial_in_step [OF Cons.prems(3), of t nb ?info] Cons.prems(1,2,4) r same by auto
  let ?conn = "send_data conn1 (info\<lparr>smi_serial := if enableSerial t then lastSendSerial conn + 1 else 0\<rparr>)"
  have snd: "send t conn (smi_type info) (smi_isRaw info) (smi_needCrypt info) nb (smi_tag info) (smi_msg info) = Some ?conn"
    using c1(1,4) Cons.prems(2) by (simp add: send_def)
  have "\<forall>(info, nb)\<in>set reqs. sint (smi_type info) > 0" "conn_isOpen ?conn" "buffer_in_step (Suc n) ?conn"
    "Suc n + length reqs \<le> 2 ^ 32"
    using Cons.prems c1 by (auto simp: send_data_def buffer_in_step_def)
  from Cons.IH [OF this] snd c1 r show ?case
    by (cases "enableSerial t") (auto simp: send_data_def)
qed

section \<open>Delivery\<close>

definition expected_task ::
  "('p, 'k) protobuf \<Rightarrow> ('k, 'h) MessageTerminal \<Rightarrow> 'p Connection \<times> 'p SendMessageInfo \<Rightarrow> 'p MessageWorkerTask" where
  "expected_task pb t m =
     (case m of (cs, info) \<Rightarrow>
        \<lparr>task_type = smi_type info, task_tag = Some (smi_tag info),
         task_reqSerial = Some (if enableSerial t then recvSerial cs else 0),
         task_banned = Some (is_banned t (smi_type info)), task_msg = the (received_msg pb t info)\<rparr>)"

lemma received_msg_serial [simp]: "received_msg pb t (info\<lparr>smi_serial := s\<rparr>) = received_msg pb t info"
  by (simp add: received_msg_def split: option.split)

lemma recv_run_numbered:
  "map snd ms = number_from on s infos \<Longrightarrow> enableSerial t \<longrightarrow> on \<and> s = recvSerial cr \<Longrightarrow>
   \<forall>info\<in>set infos. sint (smi_type info) > 0 \<and> received_msg pb t info \<noteq> None \<Longrightarrow>
   \<exists>cr'. recv_all (recv_step pb nowms t) cr ms q = Some (cr', q @ map (expected_task pb t) ms)
     \<and> recvSerial cr' = recvSerial cr + (if enableSerial t then of_nat (length ms) else 0)"
proof (induction infos arbitrary: ms cr q s)
  case Nil
  then show ?case by simp
next
  case (Cons info infos)
  then obtain cs m ms' where ms: "ms = (cs, m) # ms'" by (cases ms) (auto split: if_splits)
  have m: "m = info\<lparr>smi_serial := if on then s + 1 else 0\<rparr>"
      "map snd ms' = number_from on (if on then s + 1 else s) infos"
    using Cons.prems(1) ms by (auto split: if_splits)
  let ?cr = "if enableSerial t then cr\<lparr>recvSerial := recvSerial cr + 1\<rparr> else cr"
  have step: "recv_step pb nowms t cr cs m = Some (?cr, Some (expected_task pb t (cs, m)))"
    using Cons.prems(2,3) m(1) by (auto simp: recv_step_def expected_task_def)
  have "enableSerial t \<longrightarrow> on \<and> (if on then s + 1 else s) = recvSerial ?cr" using Cons.prems(2) by auto
  from Cons.IH [OF m(2) this, of "addTask q (Some (expected_task pb t (cs, m)))"] Cons.prems(3) step ms
  show ?case by (auto simp: addTask_def)
qed

lemma number_from_map:
  "(\<And>info k. f (info\<lparr>smi_serial := k\<rparr>) = f info) \<Longrightarrow> map f (number_from on s infos) = map f infos"
  by (induction infos arbitrary: s; cases on) simp_all

lemma number_from_all:
  assumes "\<And>info k. P (info\<lparr>smi_serial := k\<rparr>) = P info"
  shows "(\<forall>info\<in>set (number_from on s infos). P info) \<longleftrightarrow> (\<forall>info\<in>set infos. P info)"
  using number_from_map [of P on s infos] assms by (metis (mono_tags, lifting) imageE image_eqI image_set)

lemma valid_msg_serial [simp]: "valid_msg pb (info\<lparr>smi_serial := k\<rparr>) = valid_msg pb info"
  by (simp add: valid_msg_def split: msg_ptr.split)

lemma wire_length:
  assumes "conn_ok c" "wire pb t c info = Some w"
  shows "length w = 22 + length (payload pb (smi_msg info))"
proof -
  obtain body where b: "body_of pb c info = Some body" "w = head_of t c info body @ body"
    using assms(2) by (auto simp: wire_def)
  then show ?thesis using body_of_encrypts [OF assms(1) b(1)] by (simp add: encrypts_def)
qed

text \<open>What the sending side puts on the wire, from the requests to the last byte.\<close>

lemma messages_stream:
  assumes infos: "\<forall>info\<in>set infos. valid_msg pb info \<and> (smi_needCrypt info \<longrightarrow> conn_crypter cs \<noteq> None)"
    and cs: "conn_ok cs" and calls: "\<forall>(c, buf)\<in>set calls. conn_crypter c = conn_crypter cs \<and> 22 \<le> length buf"
    and enough: "(\<Sum>info\<leftarrow>infos. 22 + length (payload pb (smi_msg info))) \<le> length calls"
  shows "\<exists>p outs cds. downflow_all (encode_msg e pb ts) (msg_pipeline mx) infos calls = Some (p, [], outs, True)
     \<and> map snd cds = infos \<and> fst ` set cds \<subseteq> fst ` set calls \<and> concat outs = stamped (wire pb ts) cds
     \<and> overflow_ok p \<and> unsent p = []"
proof (rule msgs.sent_stream [OF _ _ enough])
  fix c buf info assume c: "(c, buf) \<in> set calls" and info: "info \<in> set infos"
  have ok: "conn_ok c" using c cs calls by (auto simp: conn_ok_def)
  have "smi_needCrypt info \<longrightarrow> conn_crypter c \<noteq> None" using c info infos calls by fastforce
  then obtain w where w: "wire pb ts c info = Some w"
    using body_of_None_iff [OF ok, of pb info] by (cases "wire pb ts c info") (auto simp: wire_def)
  with info infos ok wire_length [OF ok w]
  show "(conn_ok c \<and> valid_msg pb info) \<and> (\<exists>w. wire pb ts c info = Some w \<and> length w = 22 + length (payload pb (smi_msg info)))"
    by simp
qed (use calls in auto)

lemma received_stream:
  assumes infos: "map snd cds = number_from on s infos"
    "\<forall>info\<in>set infos. sint (smi_type info) > 0 \<and> valid_msg pb info \<and> length (payload pb (smi_msg info)) \<le> mx
        \<and> (smi_needCrypt info \<longrightarrow> conn_crypter cr \<noteq> None) \<and> received_msg pb tr info \<noteq> None"
    and ends: "enableRecvCRC tr \<longrightarrow> enableSendCRC ts" "\<forall>c\<in>fst ` set cds. conn_crypter c = conn_crypter cr"
    and cr: "conn_ok cr" "\<not> decodeError cr" "enableSerial tr \<longrightarrow> on \<and> s = recvSerial cr"
    and chunks: "concat chunks = stamped (wire pb ts) cds"
  shows "\<exists>p cr'. tcp_upflow_all e (decode e pb nowms tr) decodeError chunks (msg_pipeline mx) cr []
         = Some (p, cr', map (expected_task pb tr) cds, True)
     \<and> recvSerial cr' = recvSerial cr + (if enableSerial tr then of_nat (length cds) else 0)"
proof -
  have "\<forall>(c, info)\<in>set cds. sendable pb ts tr mx cr c info"
  proof (intro ballI, clarify)
    fix c info assume m: "(c, info) \<in> set cds"
    have "\<forall>info\<in>set (map snd cds). valid_msg pb info \<and> length (payload pb (smi_msg info)) \<le> mx
        \<and> (smi_needCrypt info \<longrightarrow> conn_crypter cr \<noteq> None)"
      unfolding infos(1) using infos(2) by (subst number_from_all) auto
    with m ends cr(1) show "sendable pb ts tr mx cr c info"
      by (force simp: sendable_def ends_match_def conn_ok_def)
  qed
  moreover obtain cr' where "recv_all (recv_step pb nowms tr) cr cds [] = Some (cr', map (expected_task pb tr) cds)"
      "recvSerial cr' = recvSerial cr + (if enableSerial tr then of_nat (length cds) else 0)"
    using recv_run_numbered [OF infos(1) cr(3), of pb nowms "[]"] infos(2) by auto
  ultimately show ?thesis using msgs.upflow_stream [OF _ cr(1,2) _ chunks] by blast
qed

section \<open>Properties\<close>

text \<open>
  C1: messages an application hands to \<open>send\<close> on an open connection are encoded by \<open>downflow\<close> into
  send buffers of any sizes that hold a head, travel as a byte stream, and, whatever chunks the peer
  reads them in and whatever the byte orders of the two hosts, reach the peer's worker exactly once,
  in order, with their type, tag and content, the connection's serial check and CRC check passing.
  The peer's crypter, CRC setting and received serial fit the sender's, each message is of a type the
  peer accepts and no longer than its limit.
\<close>

theorem messages_delivered:
  assumes reqs: "\<forall>(info, nb)\<in>set reqs. sint (smi_type info) > 0 \<and> valid_msg pb info
      \<and> length (payload pb (smi_msg info)) \<le> mx \<and> (smi_needCrypt info \<longrightarrow> conn_crypter cs \<noteq> None)
      \<and> received_msg pb tr info \<noteq> None"
    and cs: "conn_isOpen cs" "datas cs = []" "buffer_in_step n cs" "n + length reqs \<le> 2 ^ 32"
    and ends: "ends_match ts tr cs cr" "\<not> decodeError cr"
      "enableSerial tr \<longrightarrow> enableSerial ts \<and> lastSendSerial cs = recvSerial cr"
    and calls: "\<forall>(c, buf)\<in>set calls. conn_crypter c = conn_crypter cs \<and> CORPC_MESSAGE_HEAD_SIZE \<le> length buf"
      "(\<Sum>(info, nb)\<leftarrow>reqs. CORPC_MESSAGE_HEAD_SIZE + length (payload pb (smi_msg info))) \<le> length calls"
  shows "\<exists>cs' p outs. send_all ts cs reqs = Some cs'
     \<and> downflow_all (encode_msg e pb ts) (msg_pipeline mx) (datas cs') calls = Some (p, [], outs, True)
     \<and> (\<forall>chunks. concat chunks = concat outs \<longrightarrow>
          (\<exists>p' cr' q. tcp_upflow_all e' (decode e' pb nowms tr) decodeError chunks (msg_pipeline mx) cr []
               = Some (p', cr', q, True)
             \<and> map (\<lambda>t. (task_type t, task_tag t, task_banned t, task_msg t)) q
               = map (\<lambda>(info, nb). (smi_type info, Some (smi_tag info), Some (is_banned tr (smi_type info)),
                     the (received_msg pb tr info))) reqs
             \<and> recvSerial cr' = recvSerial cr + (if enableSerial tr then of_nat (length reqs) else 0)))"
proof -
  let ?infos = "number_from (enableSerial ts) (lastSendSerial cs) (map fst reqs)"
  obtain cs' where cs': "send_all ts cs reqs = Some cs'" "datas cs' = ?infos"
    using send_all_numbers [OF _ cs(1,3,4), of ts] reqs cs(2) by auto
  have ok: "conn_ok cs" "conn_ok cr" using ends(1) by (auto simp: ends_match_def conn_ok_def)
  have "(\<Sum>info\<leftarrow>?infos. 22 + length (payload pb (smi_msg info)))
      = (\<Sum>(info, nb)\<leftarrow>reqs. CORPC_MESSAGE_HEAD_SIZE + length (payload pb (smi_msg info)))"
    by (subst number_from_map) (simp_all add: CORPC_MESSAGE_HEAD_SIZE_def o_def case_prod_unfold)
  then have enough: "(\<Sum>info\<leftarrow>?infos. 22 + length (payload pb (smi_msg info))) \<le> length calls" using calls(2) by simp
  have "\<forall>info\<in>set ?infos. valid_msg pb info \<and> (smi_needCrypt info \<longrightarrow> conn_crypter cs \<noteq> None)"
    using reqs by (subst number_from_all) auto
  from messages_stream [OF this ok(1) _ enough, of e ts mx] calls(1) obtain p outs cds where
    out: "downflow_all (encode_msg e pb ts) (msg_pipeline mx) ?infos calls = Some (p, [], outs, True)"
      "map snd cds = ?infos" "fst ` set cds \<subseteq> fst ` set calls" "concat outs = stamped (wire pb ts) cds"
    by (auto simp: CORPC_MESSAGE_HEAD_SIZE_def)
  have crypters: "\<forall>c\<in>fst ` set cds. conn_crypter c = conn_crypter cr"
    using out(3) calls(1) ends(1) by (force simp: ends_match_def)
  have infos: "\<forall>info\<in>set (map fst reqs). sint (smi_type info) > 0 \<and> valid_msg pb info
      \<and> length (payload pb (smi_msg info)) \<le> mx \<and> (smi_needCrypt info \<longrightarrow> conn_crypter cr \<noteq> None)
      \<and> received_msg pb tr info \<noteq> None"
    using reqs ends(1) by (auto simp: ends_match_def)
  have len: "length cds = length reqs"
    using arg_cong [OF out(2), of length] number_from_map [of "\<lambda>_. ()" "enableSerial ts" "lastSendSerial cs" "map fst reqs"]
    by (metis length_map)
  have fields: "map (\<lambda>t. (task_type t, task_tag t, task_banned t, task_msg t)) (map (expected_task pb tr) cds)
      = map (\<lambda>(info, nb). (smi_type info, Some (smi_tag info), Some (is_banned tr (smi_type info)),
              the (received_msg pb tr info))) reqs"
  proof -
    let ?f = "\<lambda>info. (smi_type info, Some (smi_tag info), Some (is_banned tr (smi_type info)), the (received_msg pb tr info))"
    have "map (\<lambda>t. (task_type t, task_tag t, task_banned t, task_msg t)) (map (expected_task pb tr) cds) = map ?f (map snd cds)"
      by (simp add: expected_task_def case_prod_beta)
    also have "\<dots> = map ?f (map fst reqs)" unfolding out(2) by (rule number_from_map) simp
    finally show ?thesis by (simp add: case_prod_beta o_def)
  qed
  have recv: "\<exists>p cr'. tcp_upflow_all e' (decode e' pb nowms tr) decodeError chunks (msg_pipeline mx) cr []
         = Some (p, cr', map (expected_task pb tr) cds, True)
     \<and> recvSerial cr' = recvSerial cr + (if enableSerial tr then of_nat (length cds) else 0)"
    if "concat chunks = concat outs" for chunks
    by (rule received_stream [OF out(2) infos _ crypters ok(2) ends(2,3)])
       (use ends(1) that out(4) in \<open>auto simp: ends_match_def\<close>)
  show ?thesis
    using cs' out(1) recv fields len by fastforce
qed

text \<open>
  An instance: messages are byte strings that serialise to themselves, the peers share an XOR key and
  check serials and CRCs, and type 5 is registered.
\<close>

definition sample_terminal :: "(unit, nat) MessageTerminal" where
  "sample_terminal = fst (registerMessage (new_MessageTerminal True True True True) 5 (Some ()) False 7)"

definition sample_conn :: "byte list Connection" where
  "sample_conn = new_Connection\<lparr>conn_crypter := Some (xor_crypter \<lparr>key = [3, 1]\<rparr>)\<rparr>"

definition sample_reqs :: "byte list request list" where
  "sample_reqs =
     [(\<lparr>smi_type = 5, smi_isRaw = False, smi_needCrypt = True, smi_tag = 9, smi_serial = 0, smi_msg = ProtoMsg [1, 2, 3]\<rparr>, True),
      (\<lparr>smi_type = 5, smi_isRaw = True, smi_needCrypt = False, smi_tag = 0, smi_serial = 0, smi_msg = RawMsg []\<rparr>, False)]"

theorem messages_delivered_witness:
  "\<exists>cs' p outs. send_all sample_terminal sample_conn sample_reqs = Some cs'
     \<and> downflow_all (encode_msg LittleEndian bytes_pb sample_terminal) (msg_pipeline 16) (datas cs')
         (replicate 47 (sample_conn, replicate 23 0)) = Some (p, [], outs, True)
     \<and> (\<forall>chunks. concat chunks = concat outs \<longrightarrow>
          (\<exists>p' cr' q. tcp_upflow_all BigEndian (decode BigEndian bytes_pb 0 sample_terminal) decodeError chunks
               (msg_pipeline 16) sample_conn [] = Some (p', cr', q, True)
             \<and> map (\<lambda>t. (task_type t, task_tag t, task_banned t, task_msg t)) q
               = [(5, Some 9, Some False, ProtoMsg [1, 2, 3]), (5, Some 0, Some False, ProtoMsg [])]
             \<and> recvSerial cr' = 2))"
proof -
  have rcv: "received_msg bytes_pb sample_terminal info = Some (ProtoMsg (payload bytes_pb (smi_msg info)))"
    if "smi_type info = 5" for info
    using that by (simp add: received_msg_def sample_terminal_def registerMessage_def new_MessageTerminal_def bytes_pb_def)
  have ban: "is_banned sample_terminal 5 = False"
    by (simp add: is_banned_def sample_terminal_def registerMessage_def new_MessageTerminal_def)
  have trm: "enableSerial sample_terminal" "enableSendCRC sample_terminal"
    by (simp_all add: sample_terminal_def registerMessage_def new_MessageTerminal_def)
  have conn: "conn_crypter sample_conn = Some (xor_crypter \<lparr>key = [3, 1]\<rparr>)" "conn_isOpen sample_conn"
      "datas sample_conn = []" "msgBuffer sample_conn = None" "\<not> decodeError sample_conn"
      "lastSendSerial sample_conn = 0" "recvSerial sample_conn = 0"
    by (simp_all add: sample_conn_def new_Connection_def)
  have crypter: "xor_crypter \<lparr>key = [3, 1]\<rparr> \<in> xor_crypters" by (simp add: xor_crypters_def keySize_def)
  have hyps: "\<forall>(info, nb)\<in>set sample_reqs. sint (smi_type info) > 0 \<and> valid_msg bytes_pb info
      \<and> length (payload bytes_pb (smi_msg info)) \<le> 16 \<and> (smi_needCrypt info \<longrightarrow> conn_crypter sample_conn \<noteq> None)
      \<and> received_msg bytes_pb sample_terminal info \<noteq> None"
    by (simp add: sample_reqs_def rcv valid_msg_def pb_ok_def conn)
  have ends: "ends_match sample_terminal sample_terminal sample_conn sample_conn"
    using crypter by (simp add: ends_match_def conn_ok_def conn trm)
  show ?thesis
    using messages_delivered [OF hyps _ _ _ _ ends, of 0 "replicate 47 (sample_conn, replicate 23 0)"
        LittleEndian BigEndian 0]
    by (simp add: sample_reqs_def rcv buffer_in_step_def CORPC_MESSAGE_HEAD_SIZE_def trm conn ban)
qed

end
