(* ===== verification/Resend.thy ===== *)
theory Resend
  imports Delivery
begin

text \<open>
  Around a connection's message buffer: the buffer stays in step with the connection whatever is
  sent, acknowledged or resent, and when it is handed on to the next connection together with the
  serial of the last message sent; and what a peer makes of the bytes that \<open>resend\<close> sends after a
  reconnection.  Further, what \<open>decode\<close> does with a corrupted body and how a ban list acts on
  registered messages.
\<close>

section \<open>The buffer in use\<close>

datatype 'p conn_op =
    ConnSend "'p SendMessageInfo" bool
  | ConnAck u32
  | ConnResend
  | ConnReset
  | ConnClose
  | ConnReconnect

text \<open>
  After a disconnection the application attaches the buffer to the new connection and tells it the serial
  of the last message sent.
\<close>

definition reattach :: "u32 \<Rightarrow> 'p Connection \<Rightarrow> 'p Connection" where
  "reattach serial conn = setMsgBuffer (setLastSendSerial (connect_again (Some conn)) serial) (msgBuffer conn)"

fun conn_step :: "('k, 'h) MessageTerminal \<Rightarrow> 'p conn_op \<Rightarrow> 'p Connection \<Rightarrow> 'p Connection option" where
  "conn_step t (ConnSend info nb) conn =
     send t conn (smi_type info) (smi_isRaw info) (smi_needCrypt info) nb (smi_tag info) (smi_msg info)"
| "conn_step t (ConnAck s) conn = conn_scrapMessages conn s"
| "conn_step t ConnResend conn = resend conn"
| "conn_step t ConnReset conn = resetMsgBuffer conn"
| "conn_step t ConnClose conn = Some (start_closing conn)"
| "conn_step t ConnReconnect conn = Some (if conn_isOpen conn then conn else reattach (lastSendSerial conn) conn)"

fun conn_run :: "('k, 'h) MessageTerminal \<Rightarrow> 'p conn_op list \<Rightarrow> 'p Connection \<Rightarrow> 'p Connection option" where
  "conn_run t [] conn = Some conn"
| "conn_run t (x # xs) conn = Option.bind (conn_step t x conn) (conn_run t xs)"

text \<open>The messages \<open>resend\<close> sends for a list of buffered messages, after one with serial \<open>last\<close>.\<close>

fun resend_list :: "u32 \<Rightarrow> 'p SendMessageInfo list \<Rightarrow> 'p SendMessageInfo list" where
  "resend_list lastSer [] = []"
| "resend_list lastSer (m # ms) =
     (if lastSer > 0 \<and> smi_serial m \<noteq> lastSer + 1 then [jump_message (smi_serial m - 1)] else [])
     @ m # resend_list (smi_serial m) ms"

lemma handle_until_resend:
  "conn_isOpen conn \<Longrightarrow>
   \<exists>s'. handle_until resend_handle ms (conn, s) = (conn\<lparr>datas := datas conn @ resend_list s ms\<rparr>, s')"
proof (induction ms arbitrary: conn s)
  case Nil
  then show ?case by simp
next
  case (Cons m ms)
  let ?conn = "conn\<lparr>datas := datas conn @ (if s > 0 \<and> smi_serial m \<noteq> s + 1
       then [jump_message (smi_serial m - 1)] else []) @ [m]\<rparr>"
  have "resend_handle m (conn, s) = (True, ?conn, smi_serial m)"
    using Cons.prems by (simp add: resend_handle_def send_data_def)
  with Cons.IH [of ?conn "smi_serial m"] Cons.prems show ?case by simp
qed

lemma handle_until_resend_closed:
  "\<not> conn_isOpen conn \<Longrightarrow> handle_until resend_handle ms (conn, s) = (conn, s)"
  by (cases ms) (simp_all add: resend_handle_def)

lemma resend_eq:
  assumes "msgBuffer conn = Some b" "buffer_rel b a"
  shows "resend conn = Some (conn\<lparr>datas := datas conn @ (if conn_isOpen conn then resend_list 0 (ab_msgs a) else [])\<rparr>)"
  using assms handle_until_resend [of conn "ab_msgs a" 0] handle_until_resend_closed [of conn "ab_msgs a" 0]
  by (auto simp: resend_def traverse_rel [OF assms(2)])

lemma buffer_in_step_cong:
  "msgBuffer conn' = msgBuffer conn \<Longrightarrow> lastSendSerial conn' = lastSendSerial conn \<Longrightarrow>
   buffer_in_step n conn' = buffer_in_step n conn"
  by (simp add: buffer_in_step_def)

lemma reattach_simps:
  "conn_isOpen (reattach s conn)" "msgBuffer (reattach s conn) = msgBuffer conn" "lastSendSerial (reattach s conn) = s"
  by (simp_all add: reattach_def setMsgBuffer_def setLastSendSerial_def connect_again_def setRecvSerial_def new_Connection_def)

text \<open>A buffer that is attached with another serial breaks with the next message.\<close>

lemma reattach_send:
  assumes "buffer_in_step n conn" "n < 2 ^ 32" "msgBuffer conn = Some b" "enableSerial t" "sint (smi_type info) > 0"
  shows "\<exists>conn' b'. conn_step t (ConnSend info nb) (reattach s conn) = Some conn' \<and> msgBuffer conn' = Some b'
     \<and> (mb_broken b' \<longleftrightarrow> s \<noteq> lastSendSerial conn)"
proof -
  obtain a where a: "buffer_rel b a" "buffer_inv n a" "\<not> ab_broken a" "ab_last a = lastSendSerial conn"
    using assms(1,3) by (auto simp: buffer_in_step_def)
  let ?info = "\<lparr>smi_type = smi_type info, smi_isRaw = smi_isRaw info, smi_needCrypt = smi_needCrypt info,
      smi_tag = smi_tag info, smi_serial = s + 1, smi_msg = smi_msg info\<rparr>"
  let ?op = "if nb then OpInsert ?info else OpJump (s + 1)"
  obtain b' where b': "buffer_step ?op b = Some (b', snd (spec_step ?op a))" "buffer_rel b' (fst (spec_step ?op a))"
    using buffer_step_rel [OF a(1,2), of ?op] assms(2) by (cases nb) auto
  have "ab_broken (fst (spec_step ?op a)) \<longleftrightarrow> s \<noteq> lastSendSerial conn"
    using a(3,4) by (auto simp: insert_spec_def jump_spec_def evict_spec_def Let_def)
  then have "mb_broken b' \<longleftrightarrow> s \<noteq> lastSendSerial conn" using b'(2) by (simp add: buffer_rel_def)
  then show ?thesis
    using b'(1) assms(3-5) by (cases nb) (auto simp: send_def stamp_serial_def send_data_def reattach_simps Let_def)
qed

lemma send_in_step:
  assumes "buffer_in_step n conn" "n < 2 ^ 32" "msgBuffer conn \<noteq> None \<longrightarrow> enableSerial t"
  shows "\<exists>conn'. send t conn type isRaw needCrypt nb tag msg = Some conn' \<and> buffer_in_step (Suc n) conn'
     \<and> (msgBuffer conn' = None \<longleftrightarrow> msgBuffer conn = None)"
proof -
  let ?info = "\<lparr>smi_type = type, smi_isRaw = isRaw, smi_needCrypt = needCrypt, smi_tag = tag, smi_serial = 0, smi_msg = msg\<rparr>"
  obtain conn1 info where c1: "stamp_serial t conn nb ?info = Some (conn1, info)" "buffer_in_step (Suc n) conn1"
      "conn_isOpen conn1 = conn_isOpen conn"
    using stamp_serial_in_step [OF assms(1,2), of t nb ?info] by auto
  have "msgBuffer conn1 = None \<longleftrightarrow> msgBuffer conn = None"
    using c1(1) by (auto simp: stamp_serial_def Let_def bind_eq_Some_conv split: if_splits option.splits)
  moreover have "buffer_in_step (Suc n) (send_data conn1 info)" "msgBuffer (send_data conn1 info) = msgBuffer conn1"
    using c1(2) by (simp_all add: send_data_def buffer_in_step_def)
  ultimately show ?thesis
    using c1 assms buffer_in_step_mono [OF assms(1), of "Suc n"] by (auto simp: send_def)
qed

lemma conn_step_in_step:
  assumes "buffer_in_step n conn" "n < 2 ^ 32" "msgBuffer conn \<noteq> None \<longrightarrow> enableSerial t"
  shows "\<exists>conn'. conn_step t x conn = Some conn' \<and> buffer_in_step (Suc n) conn'
     \<and> (msgBuffer conn' = None \<longleftrightarrow> msgBuffer conn = None)"
proof (cases x)
  case (ConnSend info nb)
  with send_in_step [OF assms] show ?thesis by simp
next
  case ConnClose
  with buffer_in_step_mono [OF assms(1), of "Suc n"] show ?thesis by (auto simp: buffer_in_step_def start_closing_def)
next
  case ConnReconnect
  with buffer_in_step_mono [OF assms(1), of "Suc n"] show ?thesis by (auto simp: buffer_in_step_def reattach_simps)
next
  case (ConnAck s)
  show ?thesis
  proof (cases "msgBuffer conn")
    case None
    with ConnAck assms show ?thesis by (auto simp: conn_scrapMessages_def buffer_in_step_def)
  next
    case (Some b)
    then obtain a where a: "buffer_rel b a" "buffer_inv n a" "\<not> ab_broken a" "ab_last a = lastSendSerial conn"
      using assms(1) by (auto simp: buffer_in_step_def)
    then have inv: "buffer_inv (Suc n) (scrap_spec a s)" by (intro buffer_inv_mono [OF scrap_inv, of n]) auto
    obtain b' where "scrapMessages b s = Some b'" "buffer_rel b' (scrap_spec a s)"
      using scrapMessages_rel [OF a(1)] by blast
    with ConnAck Some a inv show ?thesis
      by (auto simp: conn_scrapMessages_def buffer_in_step_def scrap_spec_def)
  qed
next
  case ConnReset
  show ?thesis
  proof (cases "msgBuffer conn")
    case None
    with ConnReset assms show ?thesis by (auto simp: resetMsgBuffer_def buffer_in_step_def)
  next
    case (Some b)
    then obtain a where a: "buffer_rel b a" using assms(1) by (auto simp: buffer_in_step_def)
    obtain b' where "reset b (lastSendSerial conn) = Some b'" "buffer_rel b' (reset_spec a (lastSendSerial conn))"
      using reset_rel [OF a] by blast
    with ConnReset Some show ?thesis
      by (auto simp: resetMsgBuffer_def buffer_in_step_def reset_spec_def buffer_inv_Nil)
  qed
next
  case ConnResend
  show ?thesis
  proof (cases "msgBuffer conn")
    case None
    with ConnResend assms show ?thesis by (auto simp: resend_def buffer_in_step_def)
  next
    case (Some b)
    then obtain a where "buffer_rel b a" using assms(1) by (auto simp: buffer_in_step_def)
    with Some ConnResend buffer_in_step_mono [OF assms(1), of "Suc n"] show ?thesis
      by (auto simp: resend_eq buffer_in_step_def)
  qed
qed

lemma conn_run_in_step:
  "buffer_in_step n conn \<Longrightarrow> n + length ops \<le> 2 ^ 32 \<Longrightarrow> msgBuffer conn \<noteq> None \<longrightarrow> enableSerial t \<Longrightarrow>
   \<exists>conn'. conn_run t ops conn = Some conn' \<and> buffer_in_step (n + length ops) conn'
     \<and> (msgBuffer conn' = None \<longleftrightarrow> msgBuffer conn = None)"
proof (induction ops arbitrary: conn n)
  case Nil
  then show ?case by simp
next
  case (Cons x ops)
  obtain conn1 where c1: "conn_step t x conn = Some conn1" "buffer_in_step (Suc n) conn1"
      "msgBuffer conn1 = None \<longleftrightarrow> msgBuffer conn = None"
    using conn_step_in_step [OF Cons.prems(1) _ Cons.prems(3), of x] Cons.prems(2) by auto
  from Cons.IH [OF c1(2)] Cons.prems(2,3) c1(1,3) show ?case by auto
qed

lemma new_buffer_in_step: "buffer_in_step 0 (new_Connection\<lparr>msgBuffer := Some (new_MessageBuffer k)\<rparr>)"
  using new_rel [of k] by (auto simp: buffer_in_step_def new_Connection_def new_spec_def buffer_inv_Nil intro!: exI [of _ "new_spec k"])

section \<open>What the peer makes of a resend\<close>









lemma jump_message_simps [simp]:
  "valid_msg pb (jump_message k)" "\<not> smi_needCrypt (jump_message k)" "payload pb (smi_msg (jump_message k)) = []"
  by (simp_all add: jump_message_def valid_msg_def)




section \<open>A corrupted body\<close>

lemma decode_rejects_bad_crc:
  assumes "enableRecvCRC t" "length hb = CORPC_MESSAGE_HEAD_SIZE" "sint (get32 e hb 4) \<ge> 0"
    "get16 e hb 20 \<noteq> CheckSum body 0xFFFF"
  shows "\<exists>conn'. decode e pb nowms t conn hb body = Some (conn', body, None) \<and> decodeError conn'"
  using assms by (auto simp: decode_def decode_checks_def setDecodeError_def Let_def)

section \<open>Properties\<close>

text \<open>
  C12: a message buffer never breaks and never crashes, whatever sequence of sends (buffered or not, on
  an open or a closed connection), acknowledgements, resends, resets, disconnections and reconnections
  there is, when each new connection is given the buffer together with the serial of the last message
  sent: the serials \<open>send\<close> gives out are always the ones the buffer expects.  And the serial is needed:
  when a new connection is given the buffer of a closed one and any other serial, the next message that
  takes a serial breaks the buffer.
\<close>

theorem connection_buffer_never_breaks:
  assumes "enableSerial t" "length ops < 2 ^ 32"
  shows "\<exists>conn b. conn_run t ops (new_Connection\<lparr>msgBuffer := Some (new_MessageBuffer k)\<rparr>) = Some conn
     \<and> msgBuffer conn = Some b \<and> \<not> mb_broken b \<and> lastSerial b = lastSendSerial conn
     \<and> (\<not> conn_isOpen conn \<longrightarrow> sint (smi_type info) > 0 \<longrightarrow>
          (\<exists>conn' b'. conn_step t (ConnSend info nb) (reattach s conn) = Some conn' \<and> msgBuffer conn' = Some b'
             \<and> (mb_broken b' \<longleftrightarrow> s \<noteq> lastSendSerial conn)))"
proof -
  obtain conn where c: "conn_run t ops (new_Connection\<lparr>msgBuffer := Some (new_MessageBuffer k)\<rparr>) = Some conn"
      "buffer_in_step (length ops) conn" "msgBuffer conn \<noteq> None"
    using conn_run_in_step [OF new_buffer_in_step, of ops k t] assms by auto
  then obtain b where b: "msgBuffer conn = Some b" "\<not> mb_broken b" "lastSerial b = lastSendSerial conn"
    by (auto simp: buffer_in_step_def buffer_rel_def)
  with c(1) reattach_send [OF c(2) assms(2) b(1) assms(1), of info nb s] show ?thesis by blast
qed

theorem connection_buffer_never_breaks_witness:
  "\<exists>conn b conn' b'. conn_run sample_terminal
       [ConnSend (fst (hd sample_reqs)) True, ConnClose, ConnSend (fst (hd sample_reqs)) True, ConnAck 1,
        ConnReconnect, ConnResend, ConnSend (fst (hd sample_reqs)) False, ConnClose]
       (new_Connection\<lparr>msgBuffer := Some (new_MessageBuffer 2)\<rparr>) = Some conn
     \<and> msgBuffer conn = Some b \<and> \<not> mb_broken b \<and> lastSerial b = lastSendSerial conn
     \<and> conn_step sample_terminal (ConnSend (fst (hd sample_reqs)) True) (reattach (lastSendSerial conn + 1) conn) = Some conn'
     \<and> msgBuffer conn' = Some b' \<and> mb_broken b'"
proof -
  let ?ops = "[ConnSend (fst (hd sample_reqs)) True, ConnClose, ConnSend (fst (hd sample_reqs)) True, ConnAck 1,
        ConnReconnect, ConnResend, ConnSend (fst (hd sample_reqs)) False, ConnClose]"
  let ?new = "new_Connection\<lparr>msgBuffer := Some (new_MessageBuffer 2)\<rparr>"
  have t: "enableSerial sample_terminal" by (simp add: sample_terminal_def registerMessage_def new_MessageTerminal_def)
  have ty: "sint (smi_type (fst (hd sample_reqs))) > 0" by (simp add: sample_reqs_def)
  have len: "length ?ops < 2 ^ 32" by simp
  obtain conn b where c: "conn_run sample_terminal ?ops ?new = Some conn" "msgBuffer conn = Some b" "\<not> mb_broken b"
      "lastSerial b = lastSendSerial conn"
    using connection_buffer_never_breaks [OF t len, of 2] by blast
  then have closed: "\<not> conn_isOpen conn" by (auto simp: bind_eq_Some_conv start_closing_def)
  obtain conn1 b1 where "conn_run sample_terminal ?ops ?new = Some conn1"
      "\<not> conn_isOpen conn1 \<longrightarrow> (\<exists>conn' b'. conn_step sample_terminal (ConnSend (fst (hd sample_reqs)) True)
          (reattach (lastSendSerial conn + 1) conn1) = Some conn' \<and> msgBuffer conn' = Some b'
         \<and> (mb_broken b' \<longleftrightarrow> lastSendSerial conn + 1 \<noteq> lastSendSerial conn1))"
    using connection_buffer_never_breaks [OF t len, of 2 "fst (hd sample_reqs)" True "lastSendSerial conn + 1"] ty by blast
  with c(1) closed obtain conn' b' where
    "conn_step sample_terminal (ConnSend (fst (hd sample_reqs)) True) (reattach (lastSendSerial conn + 1) conn) = Some conn'"
    "msgBuffer conn' = Some b'" "mb_broken b'" by auto
  with c show ?thesis by blast
qed





text \<open>
  C14: with CRC checking on, a message whose body was changed on the way in one byte or in two
  adjacent bytes is never handed on: \<open>decode\<close> returns no task and marks the connection for closing.
\<close>

theorem corrupted_body_rejected:
  assumes "enableSendCRC ts" "enableRecvCRC tr" "sint (smi_type info) \<ge> 0" "(x, y) \<noteq> (x', y')"
  shows "\<exists>conn'. decode e pb nowms tr conn (head_of ts cs info (pre @ [x, y] @ post)) (pre @ [x', y'] @ post)
       = Some (conn', pre @ [x', y'] @ post, None) \<and> decodeError conn'"
  using assms CheckSum_pair_inj [where pre = pre and post = post and c = "0xFFFF"]
  by (intro decode_rejects_bad_crc) (auto simp: head_of_fields CORPC_MESSAGE_HEAD_SIZE_def)

theorem corrupted_body_rejected_witness:
  "\<exists>conn'. decode LittleEndian bytes_pb 0 sample_terminal sample_conn
       (head_of sample_terminal sample_conn (fst (hd sample_reqs)) ([1] @ [2, 3] @ [])) ([1] @ [2, 7] @ [])
     = Some (conn', [1] @ [2, 7] @ [], None) \<and> decodeError conn'"
  by (rule corrupted_body_rejected)
     (simp_all add: sample_terminal_def registerMessage_def new_MessageTerminal_def sample_reqs_def)

text \<open>
  C15: \<open>setBanMessages\<close> takes the complete list of banned types: afterwards exactly the registered types
  in the list are banned, and nothing else of the registrations changes.  A message of a banned type goes,
  whatever its body, with no content to the handler registered for \<open>CORPC_MSG_TYPE_BANNED\<close>, or to none when
  there is no such handler; except that when that handler is registered to run in a coroutine, the
  coroutine calls the handler of the banned type, with no content, instead.
\<close>

theorem banned_messages_handled:
  assumes "t' = setBanMessages t msgTypes" "smi_type info \<in> set msgTypes" "registerMessageMap t (smi_type info) = Some own"
    and "sint (smi_type info) \<ge> 0" "enableSerial t \<longrightarrow> recvSerial cr + 1 = smi_serial info"
    and "ends_match ts t' cs cr" "body_of pb cs info = Some body"
  shows "(\<forall>type. registerMessageMap t' type
            = map_option (\<lambda>reg. reg\<lparr>rmi_banned := type \<in> set msgTypes\<rparr>) (registerMessageMap t type))
     \<and> (\<exists>cr' bd task. decode e pb nowms t' cr (head_of ts cs info body) body = Some (cr', bd, Some task)
         \<and> decodeError cr' = decodeError cr
         \<and> dispatch t' task = Some
             (case registerMessageMap t' CORPC_MSG_TYPE_BANNED of
                None \<Rightarrow> NoAction
              | Some h \<Rightarrow>
                  if rmi_needCoroutine h then StartCoroutine (rmi_handle own) (smi_type info) (Some (smi_tag info)) NullMsg
                  else CallHandle (rmi_handle h) (smi_type info) (Some (smi_tag info)) NullMsg))"
proof -
  have reg: "registerMessageMap t' type = map_option (\<lambda>reg. reg\<lparr>rmi_banned := type \<in> set msgTypes\<rparr>) (registerMessageMap t type)" for type
    using assms(1) by (cases "registerMessageMap t type") (auto simp: setBanMessages_def)
  let ?cr = "if enableSerial t then cr\<lparr>recvSerial := recvSerial cr + 1\<rparr> else cr"
  let ?task = "\<lparr>task_type = smi_type info, task_tag = Some (smi_tag info),
      task_reqSerial = Some (if enableSerial t then recvSerial cs else 0), task_banned = Some True, task_msg = NullMsg\<rparr>"
  have "is_banned t' (smi_type info)" "received_msg pb t' info = Some NullMsg"
    using assms(2,3) reg [of "smi_type info"] by (auto simp: is_banned_def received_msg_def)
  moreover have "enableSerial t' = enableSerial t" using assms(1) by (simp add: setBanMessages_def)
  ultimately have step: "recv_step pb nowms t' cr cs info = Some (?cr, Some ?task)"
    using assms(4,5) by (simp add: recv_step_def)
  have "dispatch t' ?task = Some (case registerMessageMap t' CORPC_MSG_TYPE_BANNED of
        None \<Rightarrow> NoAction
      | Some h \<Rightarrow>
          if rmi_needCoroutine h then StartCoroutine (rmi_handle own) (smi_type info) (Some (smi_tag info)) NullMsg
          else CallHandle (rmi_handle h) (smi_type info) (Some (smi_tag info)) NullMsg)"
    using reg [of "smi_type info"] assms(3) by (simp add: dispatch_def taskCallRoutine_def split: option.split)
  with decode_wire [OF assms(6,7) step, of e] reg show ?thesis by auto
qed

definition ban_terminal :: "(unit, nat) MessageTerminal" where
  "ban_terminal = fst (registerMessage sample_terminal CORPC_MSG_TYPE_BANNED None True 8)"

theorem banned_messages_handled_witness:
  "\<exists>cr' bd task. decode BigEndian bytes_pb 0 (setBanMessages ban_terminal [5, 6]) sample_conn
       (head_of ban_terminal sample_conn (\<lparr>smi_type = 5, smi_isRaw = True, smi_needCrypt = False, smi_tag = 9,
           smi_serial = 1, smi_msg = RawMsg [1]\<rparr>) [1]) [1] = Some (cr', bd, Some task)
     \<and> dispatch (setBanMessages ban_terminal [5, 6]) task = Some (StartCoroutine 7 5 (Some 9) NullMsg)"
proof -
  let ?info = "\<lparr>smi_type = 5, smi_isRaw = True, smi_needCrypt = False, smi_tag = 9, smi_serial = 1, smi_msg = RawMsg [1]\<rparr>"
  let ?own = "\<lparr>rmi_proto = Some (), rmi_handle = 7, rmi_needCoroutine = False, rmi_banned = False\<rparr>"
  note defs = ban_terminal_def sample_terminal_def registerMessage_def new_MessageTerminal_def msg_type_defs
  have "xor_crypter \<lparr>key = [3, 1]\<rparr> \<in> xor_crypters" by (simp add: xor_crypters_def keySize_def)
  then have "ends_match ban_terminal (setBanMessages ban_terminal [5, 6]) sample_conn sample_conn"
    by (simp add: ends_match_def conn_ok_def sample_conn_def defs)
  moreover have "body_of bytes_pb sample_conn ?info = Some [1]" by (simp add: body_of_def)
  moreover have "registerMessageMap (setBanMessages ban_terminal [5, 6]) CORPC_MSG_TYPE_BANNED =
        Some \<lparr>rmi_proto = None, rmi_handle = 8, rmi_needCoroutine = True, rmi_banned = False\<rparr>"
      "registerMessageMap ban_terminal 5 = Some ?own"
    by (simp_all add: setBanMessages_def defs)
  ultimately show ?thesis
    using banned_messages_handled [of "setBanMessages ban_terminal [5, 6]" ban_terminal "[5, 6]" ?info ?own
        sample_conn ban_terminal sample_conn bytes_pb "[1]" BigEndian 0]
    by (auto simp: sample_conn_def new_Connection_def)
qed

end
