(* ===== verification/Datagram.thy ===== *)
theory Datagram
  imports Delivery
begin

text \<open>
  Messages over UDP: \<open>UdpPipeline::downflow\<close> puts one message into one datagram and
  \<open>UdpPipeline::upflow\<close> takes it out again, with the pipeline \<open>UdpMessageServer\<close> and \<open>UdpClient\<close> build
  (head of 22 bytes, body buffer of \<open>CORPC_MAX_UDP_MESSAGE_SIZE\<close> bytes).
\<close>

definition udp_pipeline :: MessagePipeline where
  "udp_pipeline = new_MessagePipeline CORPC_MESSAGE_HEAD_SIZE CORPC_MAX_UDP_MESSAGE_SIZE"

text \<open>A pipeline between datagrams: buffers of their sizes, nothing waiting in the overflow buffer.\<close>

definition udp_idle :: "MessagePipeline \<Rightarrow> bool" where
  "udp_idle p \<longleftrightarrow>
     headSize p = CORPC_MESSAGE_HEAD_SIZE \<and> length (headBuf p) = CORPC_MESSAGE_HEAD_SIZE
     \<and> length (bodyBuf p) = CORPC_MAX_UDP_MESSAGE_SIZE \<and> downflowBuf p = []"

lemma udp_pipeline_idle: "udp_idle udp_pipeline"
  by (simp add: udp_idle_def udp_pipeline_def new_MessagePipeline_def)

lemma udp_upflow_eq:
  assumes p: "udp_idle p" and len: "CORPC_MESSAGE_HEAD_SIZE \<le> length buf"
  shows "udp_upflow e dec err sys_write buf p c q =
     (if length buf \<le> CORPC_MESSAGE_HEAD_SIZE + CORPC_MAX_UDP_MESSAGE_SIZE then
        (case dec c (take CORPC_MESSAGE_HEAD_SIZE buf) (drop CORPC_MESSAGE_HEAD_SIZE buf) of
           None \<Rightarrow> None
         | Some (c', bd, task) \<Rightarrow>
             Some (p\<lparr>headBuf := take CORPC_MESSAGE_HEAD_SIZE buf, bodySize := length buf - CORPC_MESSAGE_HEAD_SIZE,
                     bodyBuf := bd @ drop (length buf - CORPC_MESSAGE_HEAD_SIZE) (bodyBuf p)\<rparr>,
                   c', if err c' then q else addTask q task, \<not> err c'))
      else None)"
proof -
  let ?n = "length buf - 22"
  let ?p = "\<lambda>bb. p\<lparr>headBuf := take 22 buf, bodySize := ?n, bodyBuf := bb\<rparr>"
  have hs: "headSize p = 22" "length (headBuf p) = 22" "length (bodyBuf p) = 540" "22 \<le> length buf"
    using p len by (simp_all add: udp_idle_def CORPC_MESSAGE_HEAD_SIZE_def CORPC_MAX_UDP_MESSAGE_SIZE_def)
  have hb: "memcpy (headBuf p) 0 (buf_read buf 0 (headSize p)) = Some (take 22 buf)"
    using hs by (simp add: memcpy_def buf_write_def buf_read_def)
  have bb: "(if ?n \<noteq> 0 then memcpy (bodyBuf p) 0 (buf_read buf (headSize p) ?n) else Some (bodyBuf p)) =
      (if length buf \<le> 562 then Some (drop 22 buf @ drop ?n (bodyBuf p)) else None)"
    using hs by (auto simp: memcpy_def buf_write_def buf_read_def)
  have unfolded: "udp_upflow e dec err sys_write buf p c q =
     Option.bind (if ?n \<noteq> 0 then memcpy (bodyBuf p) 0 (buf_read buf (headSize p) ?n) else Some (bodyBuf p))
       (\<lambda>bb. Option.bind (decode_body dec (?p bb) c)
          (\<lambda>(p, c, task). if err c then Some (p, c, q, False) else Some (p, c, addTask q task, True)))"
    using hs hb by (simp add: udp_upflow_def CORPC_UDP_HANDSHAKE_SIZE_def Let_def)
  have decoded: "decode_body dec (?p (drop 22 buf @ drop ?n (bodyBuf p))) c =
     (case dec c (take 22 buf) (drop 22 buf) of
        None \<Rightarrow> None
      | Some (c', bd, task) \<Rightarrow> Some (?p (bd @ drop ?n (bodyBuf p)), c', task))"
  proof -
    have "take ?n (drop 22 buf @ r) = drop 22 buf" "drop ?n (drop 22 buf @ r) = r" "?n \<le> length (drop 22 buf @ r)" for r
      by simp_all
    then show ?thesis
      by (simp add: decode_body_def del: take_append drop_append length_append split: option.split)
  qed
  show ?thesis
    unfolding unfolded bb using decoded
    by (auto simp: CORPC_MESSAGE_HEAD_SIZE_def CORPC_MAX_UDP_MESSAGE_SIZE_def split: option.split)
qed

section \<open>Properties\<close>

lemma udp_downflow_eq:
  assumes p: "udp_idle p" and valid: "conn_ok cs" "valid_msg pb info" and w: "wire pb ts cs info = Some w"
    and buf: "length w \<le> length buf"
  shows "udp_downflow (encode_msg e pb ts) cs p (info # infos) buf
     = Some (p\<lparr>downflowBufSentNum := downflowBufSentNum p\<rparr>, infos, w @ drop (length w) buf, length w, True)"
proof -
  have "22 \<le> length w" using w by (auto simp: wire_def)
  then have "encode_msg e pb ts cs info buf (downflowBuf p) (downflowBufSentNum p)
      = Some (True, w @ drop (length w) buf, length w, downflowBuf p, downflowBufSentNum p)"
    using msgenc.enc_fits [of cs pb info buf ts w e] valid w buf by simp
  then show ?thesis using p by (simp add: udp_downflow_def udp_idle_def Let_def)
qed

text \<open>
  C16: a message whose encoded form fits the send buffer leaves as one datagram, and when its body is
  no longer than \<open>CORPC_MAX_UDP_MESSAGE_SIZE\<close> the receiving pipeline, on a host of any byte order,
  hands exactly that message to the worker.
\<close>

theorem udp_message_delivered:
  assumes "udp_idle p" "udp_idle p'" "sendable pb ts tr CORPC_MAX_UDP_MESSAGE_SIZE cr cs info" "\<not> decodeError cr"
    and "recv_step pb nowms tr cr cs info = Some (cr', task)"
    and "CORPC_MESSAGE_HEAD_SIZE + length (payload pb (smi_msg info)) \<le> length buf"
  shows "\<exists>p1 buf' n p2. udp_downflow (encode_msg e pb ts) cs p (info # infos) buf = Some (p1, infos, buf', n, True)
     \<and> udp_upflow e' (decode e' pb nowms tr) decodeError sys_write (take n buf') p' cr q
         = Some (p2, cr', addTask q task, True)"
proof -
  obtain body where b: "body_of pb cs info = Some body" "length body = length (payload pb (smi_msg info))"
      "wire pb ts cs info = Some (head_of ts cs info body @ body)"
    using assms(3) by (rule sendable_wire)
  let ?w = "head_of ts cs info body @ body"
  have ok: "conn_ok cs" "valid_msg pb info" "ends_match ts tr cs cr" "length body \<le> 540"
    using assms(3) b(2) by (simp_all add: sendable_def ends_match_def CORPC_MAX_UDP_MESSAGE_SIZE_def)
  have down: "udp_downflow (encode_msg e pb ts) cs p (info # infos) buf
     = Some (p\<lparr>downflowBufSentNum := downflowBufSentNum p\<rparr>, infos, ?w @ drop (length ?w) buf, length ?w, True)"
    using assms(6) b(2) by (intro udp_downflow_eq [OF assms(1) ok(1,2) b(3)]) (simp add: CORPC_MESSAGE_HEAD_SIZE_def)
  obtain bd where "decode e' pb nowms tr cr (head_of ts cs info body) body = Some (cr', bd, task)"
    using decode_wire [OF ok(3) b(1) assms(5)] by blast
  moreover have "\<not> decodeError cr'" using recv_step_conn(2) [OF assms(5)] assms(4) by simp
  ultimately have "\<exists>p2. udp_upflow e' (decode e' pb nowms tr) decodeError sys_write ?w p' cr q
      = Some (p2, cr', addTask q task, True)"
    using ok(4) by (subst udp_upflow_eq [OF assms(2)])
      (simp_all add: CORPC_MESSAGE_HEAD_SIZE_def CORPC_MAX_UDP_MESSAGE_SIZE_def)
  with down show ?thesis by auto
qed

theorem udp_message_delivered_witness:
  "\<exists>p1 buf' n p2 cr' task. udp_downflow (encode_msg LittleEndian bytes_pb sample_terminal) sample_conn udp_pipeline
         [\<lparr>smi_type = 5, smi_isRaw = True, smi_needCrypt = False, smi_tag = 9, smi_serial = 1, smi_msg = RawMsg [1, 2]\<rparr>]
         (replicate 1000 0) = Some (p1, [], buf', n, True)
     \<and> udp_upflow BigEndian (decode BigEndian bytes_pb 0 sample_terminal) decodeError (\<lambda>c _. (0, c)) (take n buf')
         udp_pipeline sample_conn [] = Some (p2, cr', [task], True)
     \<and> task_type task = 5 \<and> task_msg task = ProtoMsg [1, 2]"
proof -
  let ?info = "\<lparr>smi_type = 5, smi_isRaw = True, smi_needCrypt = False, smi_tag = 9, smi_serial = 1, smi_msg = RawMsg [1, 2]\<rparr>"
  have trm: "enableSerial sample_terminal" "enableSendCRC sample_terminal"
    by (simp_all add: sample_terminal_def registerMessage_def new_MessageTerminal_def)
  have conn: "\<not> decodeError sample_conn" "recvSerial sample_conn = 0"
    by (simp_all add: sample_conn_def new_Connection_def)
  have "xor_crypter \<lparr>key = [3, 1]\<rparr> \<in> xor_crypters" by (simp add: xor_crypters_def keySize_def)
  then have sd: "sendable bytes_pb sample_terminal sample_terminal CORPC_MAX_UDP_MESSAGE_SIZE sample_conn sample_conn ?info"
    by (simp add: sendable_def ends_match_def conn_ok_def valid_msg_def trm CORPC_MAX_UDP_MESSAGE_SIZE_def)
       (simp add: sample_conn_def)
  have rcv: "received_msg bytes_pb sample_terminal ?info = Some (ProtoMsg [1, 2])"
    by (simp add: received_msg_def sample_terminal_def registerMessage_def new_MessageTerminal_def bytes_pb_def)
  obtain cr' task where st: "recv_step bytes_pb 0 sample_terminal sample_conn sample_conn ?info = Some (cr', Some task)"
      "task_type task = 5" "task_msg task = ProtoMsg [1, 2]"
    using rcv trm conn by (simp add: recv_step_def)
  from udp_message_delivered [OF udp_pipeline_idle udp_pipeline_idle sd conn(1) st(1), of "replicate 1000 0"
      LittleEndian "[]" BigEndian "\<lambda>c _. (0, c)" "[]"] st(2,3)
  show ?thesis by (auto simp: CORPC_MESSAGE_HEAD_SIZE_def addTask_def)
qed

text \<open>
  C17: \<open>UdpPipeline::upflow\<close> never compares the size of a datagram with its body buffer.  For every
  datagram that holds a head the copy of the body stays inside the buffer exactly when the datagram
  is no longer than the head plus \<open>CORPC_MAX_UDP_MESSAGE_SIZE\<close>; a longer one, which the receive buffer
  of \<open>CORPC_MAX_BUFFER_SIZE\<close> bytes admits and \<open>UdpPipeline::downflow\<close> does not refuse to send, is
  written past its end.
\<close>

theorem udp_upflow_bounds:
  assumes "udp_idle p" "CORPC_MESSAGE_HEAD_SIZE \<le> length buf"
    and "\<And>c hb bd. \<exists>c' bd' task. dec c hb bd = Some (c', bd', task)"
  shows "udp_upflow e dec err sys_write buf p c q = None
     \<longleftrightarrow> CORPC_MESSAGE_HEAD_SIZE + CORPC_MAX_UDP_MESSAGE_SIZE < length buf"
  using assms(3) [of c "take CORPC_MESSAGE_HEAD_SIZE buf" "drop CORPC_MESSAGE_HEAD_SIZE buf"]
  by (auto simp: udp_upflow_eq [OF assms(1,2)])

theorem udp_upflow_bounds_witness:
  "udp_upflow LittleEndian (\<lambda>c _ bd. Some (c, bd, Some (length bd))) (\<lambda>_. False) (\<lambda>c _. (0, c))
       (replicate 600 0) udp_pipeline (0 :: nat) [] = None
   \<and> udp_upflow LittleEndian (\<lambda>c _ bd. Some (c, bd, Some (length bd))) (\<lambda>_. False) (\<lambda>c _. (0, c))
       (replicate 562 0) udp_pipeline (0 :: nat) [] \<noteq> None"
  using udp_upflow_bounds [OF udp_pipeline_idle, of "replicate 600 0" "\<lambda>(c :: nat) _ bd. Some (c, bd, Some (length bd))"]
    udp_upflow_bounds [OF udp_pipeline_idle, of "replicate 562 0" "\<lambda>(c :: nat) _ bd. Some (c, bd, Some (length bd))"]
  by (simp add: CORPC_MESSAGE_HEAD_SIZE_def CORPC_MAX_UDP_MESSAGE_SIZE_def)

end
