(* ===== verification/TimeoutList.thy ===== *)
theory TimeoutList
  imports Link
begin

text \<open>
  \<open>TimeoutList<T>\<close> of \<open>corpc_timeout_list.h\<close>: the expiry times of the RPC calls of a thread, a skip
  list ordered by descending time whose nodes head rings of the entries with the same time, and a map
  from the identifier of an entry to its node.

  The heap maps addresses to nodes.  \<open>None\<close> is undefined behaviour (a null or dangling pointer, an
  index outside \<open>links\<close>), a failing assertion, or a loop that does not end.  \<open>rand()\<close> and the
  addresses \<open>new\<close> returns are arguments.
\<close>

section \<open>The code\<close>

record 'a TNode =
  tn_expireTime :: u64
  tn_id :: u64
  tn_data :: "'a option"
  tn_links :: "(addr option \<times> addr option) list"
  tn_next :: addr
  tn_prev :: addr

type_synonym 'a tnode_heap = "addr \<rightharpoonup> 'a TNode"

record 'a TimeoutList =
  tl_heap :: "'a tnode_heap"
  maxCurLevel :: nat
  pHeader :: addr
  pTail :: addr
  nodeMap :: "u64 \<rightharpoonup> addr"

definition CORPC_MAX_UINT64 :: u64 where "CORPC_MAX_UINT64 = 0xFFFFFFFFFFFFFFFF"
definition CORPC_MIN_UINT64 :: u64 where "CORPC_MIN_UINT64 = 0"
definition CORPC_SKIP_LIST_MAX_LEVEL :: nat where "CORPC_SKIP_LIST_MAX_LEVEL = 16"

text \<open>
  \<open>links[i].next\<close> and \<open>links[i].prev\<close>; the code dereferences every pointer it reads there, so a null
  pointer is treated as the failure to follow.
\<close>

definition next_at :: "'a tnode_heap \<Rightarrow> nat \<Rightarrow> addr \<Rightarrow> addr option" where
  "next_at h i a = (case h a of None \<Rightarrow> None | Some nd \<Rightarrow> if i < length (tn_links nd) then fst (tn_links nd ! i) else None)"

definition prev_at :: "'a tnode_heap \<Rightarrow> nat \<Rightarrow> addr \<Rightarrow> addr option" where
  "prev_at h i a = (case h a of None \<Rightarrow> None | Some nd \<Rightarrow> if i < length (tn_links nd) then snd (tn_links nd ! i) else None)"

definition set_next_at :: "'a tnode_heap \<Rightarrow> nat \<Rightarrow> addr \<Rightarrow> addr \<Rightarrow> 'a tnode_heap option" where
  "set_next_at h i a v = do {
     nd \<leftarrow> h a;
     (if i < length (tn_links nd)
      then Some (h(a \<mapsto> nd\<lparr>tn_links := (tn_links nd)[i := (Some v, snd (tn_links nd ! i))]\<rparr>)) else None)
   }"

definition set_prev_at :: "'a tnode_heap \<Rightarrow> nat \<Rightarrow> addr \<Rightarrow> addr \<Rightarrow> 'a tnode_heap option" where
  "set_prev_at h i a v = do {
     nd \<leftarrow> h a;
     (if i < length (tn_links nd)
      then Some (h(a \<mapsto> nd\<lparr>tn_links := (tn_links nd)[i := (fst (tn_links nd ! i), Some v)]\<rparr>)) else None)
   }"

definition set_ring_next :: "'a tnode_heap \<Rightarrow> addr \<Rightarrow> addr \<Rightarrow> 'a tnode_heap option" where
  "set_ring_next h a v = do { nd \<leftarrow> h a; Some (h(a \<mapsto> nd\<lparr>tn_next := v\<rparr>)) }"

definition set_ring_prev :: "'a tnode_heap \<Rightarrow> addr \<Rightarrow> addr \<Rightarrow> 'a tnode_heap option" where
  "set_ring_prev h a v = do { nd \<leftarrow> h a; Some (h(a \<mapsto> nd\<lparr>tn_prev := v\<rparr>)) }"

definition set_links :: "'a tnode_heap \<Rightarrow> addr \<Rightarrow> (addr option \<times> addr option) list \<Rightarrow> 'a tnode_heap option" where
  "set_links h a ls = do { nd \<leftarrow> h a; Some (h(a \<mapsto> nd\<lparr>tn_links := ls\<rparr>)) }"

definition new_TNode :: "addr \<Rightarrow> u64 \<Rightarrow> u64 \<Rightarrow> nat \<Rightarrow> 'a option \<Rightarrow> 'a TNode" where
  "new_TNode this expireTime ident level dat =
     \<lparr>tn_expireTime = expireTime, tn_id = ident, tn_data = dat, tn_links = replicate level (None, None),
      tn_next = this, tn_prev = this\<rparr>"

text \<open>The constructor; \<open>hdr\<close> and \<open>tail\<close> are the addresses of the two sentinels, whose \<open>id\<close> is not set.\<close>

definition new_TimeoutList :: "addr \<Rightarrow> addr \<Rightarrow> u64 \<Rightarrow> 'a TimeoutList" where
  "new_TimeoutList hdr tail junk =
     \<lparr>tl_heap = [hdr \<mapsto> (new_TNode hdr CORPC_MAX_UINT64 junk CORPC_SKIP_LIST_MAX_LEVEL None)
                    \<lparr>tn_links := replicate CORPC_SKIP_LIST_MAX_LEVEL (Some tail, None)\<rparr>,
                 tail \<mapsto> (new_TNode tail CORPC_MIN_UINT64 junk CORPC_SKIP_LIST_MAX_LEVEL None)
                    \<lparr>tn_links := replicate CORPC_SKIP_LIST_MAX_LEVEL (None, Some hdr)\<rparr>],
      maxCurLevel = 1, pHeader = hdr, pTail = tail, nodeMap = Map.empty\<rparr>"

text \<open>\<open>randomLevel\<close>: \<open>rnd k\<close> is the \<open>k\<close>-th value of \<open>rand()\<close>.\<close>

function randomLevel_loop :: "(nat \<Rightarrow> u32) \<Rightarrow> nat \<Rightarrow> nat \<Rightarrow> nat" where
  "randomLevel_loop rnd k level =
     (if level < CORPC_SKIP_LIST_MAX_LEVEL \<and> and (rnd k) 0xffff < 0x3fff
      then randomLevel_loop rnd (k + 1) (level + 1) else level)"
  by pat_completeness auto
termination
  by (relation "measure (\<lambda>(rnd, k, level). CORPC_SKIP_LIST_MAX_LEVEL - level)") auto

declare randomLevel_loop.simps [simp del]

definition randomLevel :: "(nat \<Rightarrow> u32) \<Rightarrow> nat" where
  "randomLevel rnd = randomLevel_loop rnd 0 1"

text \<open>\<open>insert\<close>: the walk along one level, the search through the levels, and the splice on every level.\<close>

partial_function (option) tl_walk :: "'a tnode_heap \<Rightarrow> u64 \<Rightarrow> u64 \<Rightarrow> nat \<Rightarrow> addr \<Rightarrow> addr option" where
  "tl_walk h ident expireTime i curNode = do {
     nextNode \<leftarrow> next_at h i curNode;
     nd \<leftarrow> h nextNode;
     (if tn_expireTime nd \<ge> expireTime then do {
        assertion (tn_id nd \<noteq> ident);
        tl_walk h ident expireTime i nextNode
      } else Some curNode)
   }"

fun tl_search :: "'a tnode_heap \<Rightarrow> u64 \<Rightarrow> u64 \<Rightarrow> nat \<Rightarrow> addr \<Rightarrow> (nat \<rightharpoonup> addr) \<Rightarrow> (addr \<times> (nat \<rightharpoonup> addr)) option" where
  "tl_search h ident expireTime 0 curNode prevNodes = Some (curNode, prevNodes)"
| "tl_search h ident expireTime (Suc i) curNode prevNodes = do {
     curNode \<leftarrow> tl_walk h ident expireTime i curNode;
     tl_search h ident expireTime i curNode (prevNodes(i \<mapsto> curNode))
   }"

fun tl_splice :: "'a tnode_heap \<Rightarrow> addr \<Rightarrow> (nat \<rightharpoonup> addr) \<Rightarrow> nat list \<Rightarrow> 'a tnode_heap option" where
  "tl_splice h curNode prevNodes [] = Some h"
| "tl_splice h curNode prevNodes (i # levels) = do {
     prevNode \<leftarrow> prevNodes i;
     nextNode \<leftarrow> next_at h i prevNode;
     h \<leftarrow> set_next_at h i curNode nextNode;
     h \<leftarrow> set_prev_at h i curNode prevNode;
     h \<leftarrow> set_next_at h i prevNode curNode;
     h \<leftarrow> set_prev_at h i nextNode curNode;
     tl_splice h curNode prevNodes levels
   }"

definition tl_insert :: "(nat \<Rightarrow> u32) \<Rightarrow> addr \<Rightarrow> 'a TimeoutList \<Rightarrow> u64 \<Rightarrow> u64 \<Rightarrow> 'a \<Rightarrow> 'a TimeoutList option" where
  "tl_insert rnd new s ident expireTime dat = do {
     let h = tl_heap s;
     (curNode, prevNodes) \<leftarrow> tl_search h ident expireTime (maxCurLevel s) (pHeader s) Map.empty;
     cnd \<leftarrow> h curNode;
     (h, maxl) \<leftarrow>
       (if tn_expireTime cnd = expireTime then do {
          let prevNode = tn_prev cnd;
          let nextNode = curNode;
          let h = h(new \<mapsto> (new_TNode new expireTime ident 0 (Some dat))\<lparr>tn_next := nextNode, tn_prev := prevNode\<rparr>);
          h \<leftarrow> set_ring_prev h nextNode new;
          h \<leftarrow> set_ring_next h prevNode new;
          Some (h, maxCurLevel s)
        } else do {
          let newlevel = randomLevel rnd;
          let prevNodes = (\<lambda>i. if maxCurLevel s \<le> i \<and> i < newlevel then Some (pHeader s) else prevNodes i);
          let h = h(new \<mapsto> new_TNode new expireTime ident newlevel (Some dat));
          h \<leftarrow> tl_splice h new prevNodes [0..<newlevel];
          Some (h, max newlevel (maxCurLevel s))
        });
     Some (s\<lparr>tl_heap := h, maxCurLevel := maxl, 
             nodeMap := (if nodeMap s ident = None then (nodeMap s)(ident \<mapsto> new) else nodeMap s)\<rparr>)
   }"

text \<open>\<open>remove\<close>: a node that takes over the levels of another, and a node that leaves every level.\<close>

fun tl_relink :: "'a tnode_heap \<Rightarrow> addr \<Rightarrow> nat list \<Rightarrow> 'a tnode_heap option" where
  "tl_relink h node [] = Some h"
| "tl_relink h node (i # levels) = do {
     p \<leftarrow> prev_at h i node;
     h \<leftarrow> set_next_at h i p node;
     n \<leftarrow> next_at h i node;
     h \<leftarrow> set_prev_at h i n node;
     tl_relink h node levels
   }"

fun tl_unlink :: "addr \<Rightarrow> addr \<Rightarrow> 'a tnode_heap \<Rightarrow> nat \<Rightarrow> addr \<Rightarrow> nat list \<Rightarrow> ('a tnode_heap \<times> nat) option" where
  "tl_unlink hdr tail h maxl node [] = Some (h, maxl)"
| "tl_unlink hdr tail h maxl node (i # levels) = do {
     p \<leftarrow> prev_at h i node;
     n \<leftarrow> next_at h i node;
     h \<leftarrow> set_next_at h i p n;
     h \<leftarrow> set_prev_at h i n p;
     tl_unlink hdr tail h (if i > 0 \<and> prev_at h i node = Some hdr \<and> next_at h i node = Some tail then maxl - 1 else maxl)
       node levels
   }"

definition tl_remove :: "'a TimeoutList \<Rightarrow> addr \<Rightarrow> 'a TimeoutList option" where
  "tl_remove s node = do {
     let h = tl_heap s;
     nd \<leftarrow> h node;
     let prevNode = tn_prev nd;
     let nextNode = tn_next nd;
     (h, maxl) \<leftarrow>
       (if tn_links nd = [] then do {
          assertion (nextNode \<noteq> node \<and> prevNode \<noteq> node);
          h \<leftarrow> set_ring_next h prevNode nextNode;
          h \<leftarrow> set_ring_prev h nextNode prevNode;
          Some (h, maxCurLevel s)
        } else if nextNode \<noteq> node then do {
          h \<leftarrow> set_ring_next h prevNode nextNode;
          h \<leftarrow> set_ring_prev h nextNode prevNode;
          h \<leftarrow> set_links h nextNode (tn_links nd);
          h \<leftarrow> set_links h node [];
          h \<leftarrow> tl_relink h nextNode [0..<length (tn_links nd)];
          Some (h, maxCurLevel s)
        } else tl_unlink (pHeader s) (pTail s) h (maxCurLevel s) node [0..<length (tn_links nd)]);
     Some (s\<lparr>tl_heap := h(node := None), maxCurLevel := maxl, nodeMap := (nodeMap s)(tn_id nd := None)\<rparr>)
   }"

definition tl_getLast :: "'a TimeoutList \<Rightarrow> addr option option" where
  "tl_getLast s = do {
     n \<leftarrow> prev_at (tl_heap s) 0 (pTail s);
     (if n = pHeader s then Some None
      else do { nd \<leftarrow> tl_heap s n; Some (Some (tn_prev nd)) })
   }"

definition tl_getNode :: "'a TimeoutList \<Rightarrow> u64 \<Rightarrow> addr option" where
  "tl_getNode s ident = nodeMap s ident"

definition tl_empty :: "'a TimeoutList \<Rightarrow> bool option" where
  "tl_empty s = do { n \<leftarrow> next_at (tl_heap s) 0 (pHeader s); Some (n = pTail s) }"

text \<open>The destructor, a walk along the lowest level that frees the rings and then the two sentinels.\<close>

partial_function (option) tl_free_ring :: "'a tnode_heap \<Rightarrow> addr \<Rightarrow> addr \<Rightarrow> 'a tnode_heap option" where
  "tl_free_ring h n1 n2 =
     (if n2 = n1 then Some h
      else do {
        nd \<leftarrow> h n2;
        tl_free_ring (h(n2 := None)) n1 (tn_next nd)
      })"

partial_function (option) tl_free_all :: "'a tnode_heap \<Rightarrow> addr \<Rightarrow> addr \<Rightarrow> 'a tnode_heap option" where
  "tl_free_all h tail n =
     (if n = tail then Some h
      else do {
        n' \<leftarrow> next_at h 0 n;
        nd \<leftarrow> h n;
        h \<leftarrow> tl_free_ring h n (tn_next nd);
        tl_free_all (h(n := None)) tail n'
      })"

definition destroy_TimeoutList :: "'a TimeoutList \<Rightarrow> 'a tnode_heap option" where
  "destroy_TimeoutList s = do {
     n \<leftarrow> next_at (tl_heap s) 0 (pHeader s);
     h \<leftarrow> tl_free_all (tl_heap s) (pTail s) n;
     Some (h(pHeader s := None, pTail s := None))
   }"

section \<open>Chains\<close>

text \<open>Doubly linked chains, as seen through the functions that give an element's neighbours.\<close>

fun chain :: "('n \<Rightarrow> 'n option) \<Rightarrow> ('n \<Rightarrow> 'n option) \<Rightarrow> 'n list \<Rightarrow> bool" where
  "chain nx pv (x # y # ys) \<longleftrightarrow> nx x = Some y \<and> pv y = Some x \<and> chain nx pv (y # ys)"
| "chain nx pv _ \<longleftrightarrow> True"

lemma chain_append: "chain nx pv (xs @ p # ys) \<longleftrightarrow> chain nx pv (xs @ [p]) \<and> chain nx pv (p # ys)"
  by (induction nx pv xs rule: chain.induct) auto

lemma chain_pair: "chain nx pv (xs @ p # q # ys) \<Longrightarrow> nx p = Some q \<and> pv q = Some p"
  using chain_append [of nx pv xs p "q # ys"] by simp

lemma chain_cong:
  "\<forall>x\<in>set (butlast xs). nx x = nx' x \<Longrightarrow> \<forall>x\<in>set (tl xs). pv x = pv' x \<Longrightarrow> chain nx pv xs \<longleftrightarrow> chain nx' pv' xs"
  by (induction nx pv xs rule: chain.induct) auto

lemma chain_update:
  "p \<notin> set (butlast xs) \<Longrightarrow> q \<notin> set (tl xs) \<Longrightarrow> chain (nx(p := v)) (pv(q := w)) xs \<longleftrightarrow> chain nx pv xs"
  by (rule chain_cong) auto

lemma chain_insert:
  assumes "chain nx pv (xs @ p # q # ys)" "distinct (butlast (xs @ p # q # ys))" "distinct (tl (xs @ p # q # ys))"
    "n \<notin> set (xs @ p # q # ys)"
  shows "chain (nx(n := Some q, p := Some n)) (pv(n := Some p, q := Some n)) (xs @ p # n # q # ys)"
proof -
  have "chain nx pv (xs @ [p])" "chain nx pv (q # ys)" using assms(1) chain_append [of nx pv xs p "q # ys"] by simp_all
  moreover have "p \<notin> set xs" "p \<notin> set (butlast (q # ys))" using assms(2) by (auto simp: butlast_append split: if_splits)
  moreover have "q \<notin> set (tl (xs @ [p]))" "q \<notin> set ys" using assms(3) by (cases xs; auto)+
  moreover have "n \<notin> set (butlast (q # ys))" by (metis assms(4) in_set_butlastD Un_iff list.set_intros(2) set_append)
  moreover have "n \<notin> set (tl (xs @ [p]))" "n \<notin> set ys" "n \<noteq> p" "n \<noteq> q" "n \<notin> set xs"
    using assms(4) by (cases xs; auto)+
  ultimately have "chain (nx(n := Some q, p := Some n)) (pv(n := Some p, q := Some n)) (xs @ [p])"
    "chain (nx(n := Some q, p := Some n)) (pv(n := Some p, q := Some n)) (q # ys)"
    by (simp_all add: chain_update)
  then show ?thesis using \<open>n \<noteq> p\<close> \<open>n \<noteq> q\<close> by (subst chain_append) simp
qed

lemma chain_delete:
  assumes "chain nx pv (xs @ p # n # q # ys)" "distinct (butlast (xs @ p # n # q # ys))"
    "distinct (tl (xs @ p # n # q # ys))"
  shows "chain (nx(p := Some q)) (pv(q := Some p)) (xs @ p # q # ys)"
proof -
  have "chain nx pv (xs @ [p])" "chain nx pv (q # ys)"
    using assms(1) chain_append [of nx pv xs p "n # q # ys"] by simp_all
  moreover have "p \<notin> set xs" "p \<notin> set (butlast (q # ys))" using assms(2) by (auto simp: butlast_append split: if_splits)
  moreover have "q \<notin> set (tl (xs @ [p]))" "q \<notin> set ys" using assms(3) by (cases xs; auto)+
  ultimately have "chain (nx(p := Some q)) (pv(q := Some p)) (xs @ [p])" "chain (nx(p := Some q)) (pv(q := Some p)) (q # ys)"
    by (simp_all add: chain_update)
  then show ?thesis by (subst chain_append) simp
qed

text \<open>A chain that closes to a ring loses its first element.\<close>

lemma chain_ring_tail:
  assumes "chain nx pv (a # us @ [l, a])" "distinct (us @ [l])" "b = hd (us @ [l])"
  shows "chain (nx(l := Some b)) (pv(b := Some l)) (us @ [l, b])"
proof -
  have "chain nx pv (us @ [l])"
    using assms(1) chain_append [of nx pv "a # us" l "[a]"] by (cases us) auto
  moreover have "l \<notin> set us" "b \<notin> set (tl (us @ [l]))" using assms(2,3) by (cases us; auto)+
  ultimately have "chain (nx(l := Some b)) (pv(b := Some l)) (us @ [l])"
    by (simp add: chain_update)
  then show ?thesis using chain_append [of "nx(l := Some b)" "pv(b := Some l)" us l "[b]"] by simp
qed

section \<open>The heap through its fields\<close>

definition time_of :: "'a tnode_heap \<Rightarrow> addr \<Rightarrow> u64" where
  "time_of h a = (case h a of None \<Rightarrow> 0 | Some nd \<Rightarrow> tn_expireTime nd)"

definition id_of :: "'a tnode_heap \<Rightarrow> addr \<Rightarrow> u64" where
  "id_of h a = (case h a of None \<Rightarrow> 0 | Some nd \<Rightarrow> tn_id nd)"

definition data_of :: "'a tnode_heap \<Rightarrow> addr \<Rightarrow> 'a option" where
  "data_of h a = (case h a of None \<Rightarrow> None | Some nd \<Rightarrow> tn_data nd)"

definition lvl :: "'a tnode_heap \<Rightarrow> addr \<Rightarrow> nat" where
  "lvl h a = (case h a of None \<Rightarrow> 0 | Some nd \<Rightarrow> length (tn_links nd))"

definition rnext :: "'a tnode_heap \<Rightarrow> addr \<Rightarrow> addr option" where
  "rnext h a = map_option tn_next (h a)"

definition rprev :: "'a tnode_heap \<Rightarrow> addr \<Rightarrow> addr option" where
  "rprev h a = map_option tn_prev (h a)"

lemmas field_defs = time_of_def id_of_def data_of_def lvl_def rnext_def rprev_def next_at_def prev_at_def

definition same_fields :: "'a tnode_heap \<Rightarrow> 'a tnode_heap \<Rightarrow> bool" where
  "same_fields h h' \<longleftrightarrow> dom h' = dom h \<and> time_of h' = time_of h \<and> id_of h' = id_of h \<and> data_of h' = data_of h"

lemma same_fields_refl [simp]: "same_fields h h"
  by (simp add: same_fields_def)

lemma same_fields_trans: "same_fields h h' \<Longrightarrow> same_fields h' h'' \<Longrightarrow> same_fields h h''"
  by (simp add: same_fields_def)

lemma lvl_pos_dom: "i < lvl h a \<Longrightarrow> \<exists>nd. h a = Some nd \<and> i < length (tn_links nd)"
  by (auto simp: lvl_def split: option.splits)

lemma set_next_at_fields:
  assumes "i < lvl h a"
  shows "\<exists>h'. set_next_at h i a v = Some h' \<and> same_fields h h' \<and> lvl h' = lvl h \<and> rnext h' = rnext h \<and> rprev h' = rprev h
    \<and> next_at h' = (next_at h)(i := (next_at h i)(a := Some v)) \<and> prev_at h' = prev_at h"
proof -
  obtain nd where nd: "h a = Some nd" "i < length (tn_links nd)" using lvl_pos_dom [OF assms] by blast
  then show ?thesis
    by (intro exI [of _ "h(a \<mapsto> nd\<lparr>tn_links := (tn_links nd)[i := (Some v, snd (tn_links nd ! i))]\<rparr>)"])
       (auto simp: set_next_at_def same_fields_def field_defs fun_eq_iff nth_list_update split: option.splits)
qed

lemma set_prev_at_fields:
  assumes "i < lvl h a"
  shows "\<exists>h'. set_prev_at h i a v = Some h' \<and> same_fields h h' \<and> lvl h' = lvl h \<and> rnext h' = rnext h \<and> rprev h' = rprev h
    \<and> prev_at h' = (prev_at h)(i := (prev_at h i)(a := Some v)) \<and> next_at h' = next_at h"
proof -
  obtain nd where nd: "h a = Some nd" "i < length (tn_links nd)" using lvl_pos_dom [OF assms] by blast
  then show ?thesis
    by (intro exI [of _ "h(a \<mapsto> nd\<lparr>tn_links := (tn_links nd)[i := (fst (tn_links nd ! i), Some v)]\<rparr>)"])
       (auto simp: set_prev_at_def same_fields_def field_defs fun_eq_iff nth_list_update split: option.splits)
qed

lemma set_ring_next_fields:
  assumes "a \<in> dom h"
  shows "\<exists>h'. set_ring_next h a v = Some h' \<and> same_fields h h' \<and> lvl h' = lvl h \<and> rnext h' = (rnext h)(a := Some v)
    \<and> rprev h' = rprev h \<and> next_at h' = next_at h \<and> prev_at h' = prev_at h \<and> (\<forall>b. map_option tn_links (h' b) = map_option tn_links (h b))"
proof -
  obtain nd where "h a = Some nd" using assms by blast
  then show ?thesis
    by (intro exI [of _ "h(a \<mapsto> nd\<lparr>tn_next := v\<rparr>)"])
       (auto simp: set_ring_next_def same_fields_def field_defs fun_eq_iff split: option.splits)
qed

lemma set_ring_prev_fields:
  assumes "a \<in> dom h"
  shows "\<exists>h'. set_ring_prev h a v = Some h' \<and> same_fields h h' \<and> lvl h' = lvl h \<and> rprev h' = (rprev h)(a := Some v)
    \<and> rnext h' = rnext h \<and> next_at h' = next_at h \<and> prev_at h' = prev_at h \<and> (\<forall>b. map_option tn_links (h' b) = map_option tn_links (h b))"
proof -
  obtain nd where "h a = Some nd" using assms by blast
  then show ?thesis
    by (intro exI [of _ "h(a \<mapsto> nd\<lparr>tn_prev := v\<rparr>)"])
       (auto simp: set_ring_prev_def same_fields_def field_defs fun_eq_iff split: option.splits)
qed

lemma alloc_fields:
  assumes "h a = None"
  shows "dom (h(a \<mapsto> nd)) = insert a (dom h)" "time_of (h(a \<mapsto> nd)) = (time_of h)(a := tn_expireTime nd)"
    "id_of (h(a \<mapsto> nd)) = (id_of h)(a := tn_id nd)" "data_of (h(a \<mapsto> nd)) = (data_of h)(a := tn_data nd)"
    "lvl (h(a \<mapsto> nd)) = (lvl h)(a := length (tn_links nd))" "rnext (h(a \<mapsto> nd)) = (rnext h)(a := Some (tn_next nd))"
    "rprev (h(a \<mapsto> nd)) = (rprev h)(a := Some (tn_prev nd))"
    "tn_links nd = replicate k (None, None) \<Longrightarrow> next_at (h(a \<mapsto> nd)) = next_at h \<and> prev_at (h(a \<mapsto> nd)) = prev_at h"
  using assms by (auto simp: field_defs fun_eq_iff)

lemma free_fields:
  "dom (h(a := None)) = dom h - {a}" "b \<noteq> a \<Longrightarrow> time_of (h(a := None)) b = time_of h b"
  "b \<noteq> a \<Longrightarrow> id_of (h(a := None)) b = id_of h b" "b \<noteq> a \<Longrightarrow> data_of (h(a := None)) b = data_of h b"
  "b \<noteq> a \<Longrightarrow> lvl (h(a := None)) b = lvl h b" "b \<noteq> a \<Longrightarrow> rnext (h(a := None)) b = rnext h b"
  "b \<noteq> a \<Longrightarrow> rprev (h(a := None)) b = rprev h b" "b \<noteq> a \<Longrightarrow> next_at (h(a := None)) i b = next_at h i b"
  "b \<noteq> a \<Longrightarrow> prev_at (h(a := None)) i b = prev_at h i b"
  by (auto simp: field_defs)

section \<open>Representation\<close>

text \<open>
  \<open>gs\<close> are the groups of entries with the same time, in the order of the skip list; the first entry of
  a group is its node in the skip list.
\<close>

definition group_ok :: "'a tnode_heap \<Rightarrow> addr list \<Rightarrow> bool" where
  "group_ok h g \<longleftrightarrow> g \<noteq> [] \<and> chain (rnext h) (rprev h) (g @ [hd g])
     \<and> (\<exists>t. 0 < t \<and> t < CORPC_MAX_UINT64 \<and> (\<forall>a\<in>set g. time_of h a = t)) \<and> (\<forall>a\<in>set (tl g). lvl h a = 0)
     \<and> 0 < lvl h (hd g) \<and> lvl h (hd g) \<le> 16
     \<and> (\<forall>a\<in>set g. data_of h a \<noteq> None)"

abbreviation on_level :: "'a tnode_heap \<Rightarrow> nat \<Rightarrow> addr list \<Rightarrow> addr list" where
  "on_level h i xs \<equiv> filter (\<lambda>a. i < lvl h a) xs"

definition levels_ok :: "'a tnode_heap \<Rightarrow> addr \<Rightarrow> addr \<Rightarrow> addr list \<Rightarrow> bool" where
  "levels_ok h hdr tail heads \<longleftrightarrow>
     (\<forall>i<16. chain (next_at h i) (prev_at h i) (hdr # on_level h i heads @ [tail]))"

definition max_ok :: "'a tnode_heap \<Rightarrow> nat \<Rightarrow> addr list \<Rightarrow> bool" where
  "max_ok h m heads \<longleftrightarrow> 1 \<le> m \<and> (\<forall>a\<in>set heads. lvl h a \<le> m) \<and> (m = 1 \<or> (\<exists>a\<in>set heads. lvl h a = m))"

definition sentinels_ok :: "'a tnode_heap \<Rightarrow> addr \<Rightarrow> addr \<Rightarrow> bool" where
  "sentinels_ok h hdr tail \<longleftrightarrow> lvl h hdr = 16 \<and> lvl h tail = 16 \<and> time_of h hdr = CORPC_MAX_UINT64 \<and> time_of h tail = 0"

definition tl_rep :: "'a TimeoutList \<Rightarrow> addr list list \<Rightarrow> bool" where
  "tl_rep s gs \<longleftrightarrow>
     (let h = tl_heap s; heads = map hd gs in
      distinct (pHeader s # pTail s # concat gs) \<and> dom h = set (pHeader s # pTail s # concat gs)
      \<and> sentinels_ok h (pHeader s) (pTail s) \<and> (\<forall>g\<in>set gs. group_ok h g)
      \<and> sorted_wrt (\<lambda>a b. time_of h b < time_of h a) heads
      \<and> levels_ok h (pHeader s) (pTail s) heads \<and> max_ok h (maxCurLevel s) heads
      \<and> (\<forall>ident a. nodeMap s ident = Some a \<longleftrightarrow> a \<in> set (concat gs) \<and> id_of h a = ident))"

text \<open>What a list holds, by identifier.\<close>

definition tl_entries :: "'a TimeoutList \<Rightarrow> u64 \<Rightarrow> (u64 \<times> 'a) option" where
  "tl_entries s ident =
     map_option (\<lambda>a. (time_of (tl_heap s) a, the (data_of (tl_heap s) a))) (nodeMap s ident)"

definition tl_inv :: "'a TimeoutList \<Rightarrow> bool" where
  "tl_inv s \<longleftrightarrow> (\<exists>gs. tl_rep s gs)"

lemma new_TimeoutList_rep:
  assumes "hdr \<noteq> tail"
  shows "tl_rep (new_TimeoutList hdr tail junk) []"
  using assms
  by (auto simp: tl_rep_def new_TimeoutList_def sentinels_ok_def levels_ok_def max_ok_def field_defs new_TNode_def
      CORPC_SKIP_LIST_MAX_LEVEL_def CORPC_MIN_UINT64_def Let_def)

lemma randomLevel_loop_bounds: "level \<le> 16 \<Longrightarrow> level \<le> randomLevel_loop rnd k level \<and> randomLevel_loop rnd k level \<le> 16"
proof (induction rnd k level rule: randomLevel_loop.induct)
  case (1 rnd k level)
  then show ?case
    by (subst (1 2) randomLevel_loop.simps) (fastforce simp: CORPC_SKIP_LIST_MAX_LEVEL_def)
qed

lemma randomLevel_bounds: "1 \<le> randomLevel rnd" "randomLevel rnd \<le> 16"
  using randomLevel_loop_bounds [of 1 rnd 0] by (simp_all add: randomLevel_def)

section \<open>Searching\<close>

lemma tl_walk_segment:
  assumes "chain (next_at h i) pv (cur # seg @ nxt # post)" "set seg \<subseteq> dom h" "nxt \<in> dom h"
    "\<forall>a\<in>set seg. t \<le> time_of h a \<and> id_of h a \<noteq> ident" "time_of h nxt < t"
  shows "tl_walk h ident t i cur = Some (last (cur # seg))"
  using assms
proof (induction seg arbitrary: cur)
  case Nil
  then show ?case by (subst tl_walk.simps) (auto simp: field_defs)
next
  case (Cons a seg)
  then have "next_at h i cur = Some a" "chain (next_at h i) pv (a # seg @ nxt # post)" by auto
  moreover obtain nd where "h a = Some nd" "t \<le> tn_expireTime nd" "tn_id nd \<noteq> ident"
    using Cons.prems(2,4) by (auto simp: time_of_def id_of_def split: option.splits)
  ultimately show ?case
    using Cons by (subst tl_walk.simps) (simp add: assertion_def)
qed

text \<open>The last node on a level that does not expire before \<open>t\<close>; \<open>early\<close> are the nodes that do not.\<close>

definition last_before :: "'a tnode_heap \<Rightarrow> addr \<Rightarrow> addr list \<Rightarrow> nat \<Rightarrow> addr" where
  "last_before h hdr early i = last (hdr # on_level h i early)"

lemma tl_search_levels:
  assumes lv: "levels_ok h hdr tail (early @ late)" and "k \<le> 16"
    and early: "\<forall>a\<in>set early. t \<le> time_of h a \<and> id_of h a \<noteq> ident" and late: "\<forall>a\<in>set late. time_of h a < t"
    and tail: "time_of h tail < t" and alloc: "set (tail # early @ late) \<subseteq> dom h"
  shows "tl_search h ident t k (last_before h hdr early k) prevs =
     Some (last_before h hdr early 0, \<lambda>i. if i < k then Some (last_before h hdr early i) else prevs i)"
  using \<open>k \<le> 16\<close>
proof (induction k arbitrary: prevs)
  case 0
  then show ?case by simp
next
  case (Suc i)
  let ?p = "last_before h hdr early (Suc i)"
  have ch: "chain (next_at h i) (prev_at h i) (hdr # on_level h i early @ on_level h i late @ [tail])"
    using lv Suc.prems by (simp add: levels_ok_def)
  have "?p \<in> set (hdr # on_level h i early)"
  proof -
    have "?p \<in> set (hdr # on_level h (Suc i) early)" unfolding last_before_def by (rule last_in_set) simp
    then show ?thesis by auto
  qed
  then obtain pre seg where split: "hdr # on_level h i early = pre @ ?p # seg" by (meson split_list)
  obtain nxt post where nx: "on_level h i late @ [tail] = nxt # post" by (cases "on_level h i late") auto
  have nxt: "nxt \<in> set (tail # late)"
  proof -
    have "nxt \<in> set (on_level h i late @ [tail])" unfolding nx by simp
    then show ?thesis by auto
  qed
  have seg: "set seg \<subseteq> set early"
  proof -
    have "set seg \<subseteq> set (tl (pre @ ?p # seg))" by (cases pre) auto
    then show ?thesis unfolding split [symmetric] by auto
  qed
  have "chain (next_at h i) (prev_at h i) (pre @ ?p # seg @ nxt # post)"
    using ch split nx by (metis append_Cons append_assoc)
  then have "chain (next_at h i) (prev_at h i) (?p # seg @ nxt # post)" by (subst (asm) chain_append) simp
  then have "tl_walk h ident t i ?p = Some (last (?p # seg))"
    using early late tail alloc seg nxt by (intro tl_walk_segment [where nxt = nxt and post = post]) auto
  moreover have "last (?p # seg) = last_before h hdr early i"
    unfolding last_before_def split by simp
  ultimately show ?case using Suc by (auto simp: fun_eq_iff less_Suc_eq)
qed

section \<open>Inserting\<close>

lemma tl_splice_levels:
  assumes "distinct levels"
    "\<forall>i\<in>set levels. prevs i = Some (p i) \<and> next_at h i (p i) = Some (q i) \<and> i < lvl h new \<and> i < lvl h (p i) \<and> i < lvl h (q i)"
  shows "\<exists>h'. tl_splice h new prevs levels = Some h' \<and> same_fields h h' \<and> lvl h' = lvl h \<and> rnext h' = rnext h \<and> rprev h' = rprev h
     \<and> next_at h' = (\<lambda>i. if i \<in> set levels then (next_at h i)(new := Some (q i), p i := Some new) else next_at h i)
     \<and> prev_at h' = (\<lambda>i. if i \<in> set levels then (prev_at h i)(new := Some (p i), q i := Some new) else prev_at h i)"
  using assms
proof (induction levels arbitrary: h)
  case Nil
  then show ?case by simp
next
  case (Cons i levels)
  have i: "prevs i = Some (p i)" "next_at h i (p i) = Some (q i)" "i < lvl h new" "i < lvl h (p i)" "i < lvl h (q i)"
    using Cons.prems(2) by auto
  obtain h1 where h1: "set_next_at h i new (q i) = Some h1" "same_fields h h1" "lvl h1 = lvl h" "rnext h1 = rnext h"
      "rprev h1 = rprev h" "next_at h1 = (next_at h)(i := (next_at h i)(new := Some (q i)))" "prev_at h1 = prev_at h"
    using set_next_at_fields [OF i(3), of "q i"] by blast
  obtain h2 where h2: "set_prev_at h1 i new (p i) = Some h2" "same_fields h1 h2" "lvl h2 = lvl h" "rnext h2 = rnext h"
      "rprev h2 = rprev h" "next_at h2 = next_at h1" "prev_at h2 = (prev_at h)(i := (prev_at h i)(new := Some (p i)))"
    using set_prev_at_fields [of i h1 new "p i"] h1 i(3) by auto
  obtain h3 where h3: "set_next_at h2 i (p i) new = Some h3" "same_fields h2 h3" "lvl h3 = lvl h" "rnext h3 = rnext h"
      "rprev h3 = rprev h" "next_at h3 = (next_at h)(i := (next_at h i)(new := Some (q i), p i := Some new))" "prev_at h3 = prev_at h2"
    using set_next_at_fields [of i h2 "p i" new] h1 h2 i(4) by auto
  obtain h4 where h4: "set_prev_at h3 i (q i) new = Some h4" "same_fields h3 h4" "lvl h4 = lvl h" "rnext h4 = rnext h"
      "rprev h4 = rprev h" "next_at h4 = next_at h3" "prev_at h4 = (prev_at h)(i := (prev_at h i)(new := Some (p i), q i := Some new))"
    using set_prev_at_fields [of i h3 "q i" new] h2 h3 i(5) by auto
  have same: "same_fields h h4" using h1(2) h2(2) h3(2) h4(2) by (meson same_fields_trans)
  have "\<forall>j\<in>set levels. prevs j = Some (p j) \<and> next_at h4 j (p j) = Some (q j) \<and> j < lvl h4 new \<and> j < lvl h4 (p j) \<and> j < lvl h4 (q j)"
    using Cons.prems h4 h3(6) by auto
  with Cons.IH [of h4] Cons.prems(1) obtain h' where h': "tl_splice h4 new prevs levels = Some h'" "same_fields h4 h'"
      "lvl h' = lvl h4" "rnext h' = rnext h4" "rprev h' = rprev h4"
      "next_at h' = (\<lambda>i. if i \<in> set levels then (next_at h4 i)(new := Some (q i), p i := Some new) else next_at h4 i)"
      "prev_at h' = (\<lambda>i. if i \<in> set levels then (prev_at h4 i)(new := Some (p i), q i := Some new) else prev_at h4 i)"
    by auto
  have run: "tl_splice h new prevs (i # levels) = Some h'" using i(1,2) h1(1) h2(1) h3(1) h4(1) h'(1) by simp
  have "next_at h' = (\<lambda>j. if j \<in> set (i # levels) then (next_at h j)(new := Some (q j), p j := Some new) else next_at h j)"
    "prev_at h' = (\<lambda>j. if j \<in> set (i # levels) then (prev_at h j)(new := Some (p j), q j := Some new) else prev_at h j)"
    using Cons.prems(1) h3(6) h4(6,7) unfolding h'(6,7) by (auto simp: fun_eq_iff)
  with run same_fields_trans [OF same h'(2)] h' h4 show ?case by simp
qed

text \<open>A new node between the nodes that expire later or at the same time and the ones that expire before.\<close>

lemma levels_ok_insert:
  assumes lv: "levels_ok h hdr tail (early @ late)" and dist: "distinct (hdr # tail # early @ late)"
    and new: "new \<notin> set (hdr # tail # early @ late)" "lvl h' new = k"
    and same: "\<forall>a\<in>set (hdr # tail # early @ late). lvl h' a = lvl h a"
    and nx: "next_at h' = (\<lambda>i. if i < k then (next_at h i)(new := Some (hd (on_level h i late @ [tail])),
                                   last_before h hdr early i := Some new) else next_at h i)"
    and pv: "prev_at h' = (\<lambda>i. if i < k then (prev_at h i)(new := Some (last_before h hdr early i),
                                   hd (on_level h i late @ [tail]) := Some new) else prev_at h i)"
  shows "levels_ok h' hdr tail (early @ new # late)"
  unfolding levels_ok_def
proof (intro allI impI)
  fix i :: nat assume "i < 16"
  let ?p = "last_before h hdr early i"
  let ?q = "hd (on_level h i late @ [tail])"
  have lvls: "on_level h' i early = on_level h i early" "on_level h' i late = on_level h i late"
    using same by (auto intro!: filter_cong)
  have ch: "chain (next_at h i) (prev_at h i) (hdr # on_level h i early @ on_level h i late @ [tail])"
    using lv \<open>i < 16\<close> by (simp add: levels_ok_def)
  obtain pre where pre: "hdr # on_level h i early = pre @ [?p]"
    unfolding last_before_def by (metis append_butlast_last_id list.distinct(1))
  obtain post where post: "on_level h i late @ [tail] = ?q # post"
    by (cases "on_level h i late") auto
  have all: "hdr # on_level h i early @ on_level h i late @ [tail] = pre @ ?p # ?q # post"
    using pre post by (metis append_Cons append_assoc append_Nil)
  have d: "distinct (pre @ ?p # ?q # post)" "new \<notin> set (pre @ ?p # ?q # post)"
    unfolding all [symmetric] using dist new(1) by auto
  show "chain (next_at h' i) (prev_at h' i) (hdr # on_level h' i (early @ new # late) @ [tail])"
  proof (cases "i < k")
    case True
    have "chain ((next_at h i)(new := Some ?q, ?p := Some new)) ((prev_at h i)(new := Some ?p, ?q := Some new))
        (pre @ ?p # new # ?q # post)"
      using ch d unfolding all by (intro chain_insert) (auto simp: distinct_butlast distinct_tl)
    moreover have "hdr # on_level h' i (early @ new # late) @ [tail] = pre @ ?p # new # ?q # post"
      using True new(2) lvls pre post by (metis (no_types, lifting) append_Cons append_assoc append_Nil filter.simps(2) filter_append)
    ultimately show ?thesis using True nx pv by simp
  next
    case False
    with ch lvls new(2) nx pv show ?thesis by simp
  qed
qed

text \<open>The parts of the representation depend on the fields of their nodes only.\<close>

lemma group_ok_cong:
  assumes "\<forall>a\<in>set g. rnext h' a = rnext h a \<and> rprev h' a = rprev h a \<and> time_of h' a = time_of h a
      \<and> lvl h' a = lvl h a \<and> data_of h' a = data_of h a"
  shows "group_ok h' g \<longleftrightarrow> group_ok h g"
proof (cases g)
  case (Cons a os)
  have "chain (rnext h') (rprev h') (g @ [hd g]) \<longleftrightarrow> chain (rnext h) (rprev h) (g @ [hd g])"
    using assms Cons by (intro chain_cong) (auto simp: butlast_append)
  with assms Cons show ?thesis by (simp add: group_ok_def)
qed (simp add: group_ok_def)

lemma levels_ok_cong:
  assumes "\<forall>a\<in>set (hdr # tail # heads). lvl h' a = lvl h a"
    "\<forall>i. \<forall>a\<in>set (hdr # tail # heads). next_at h' i a = next_at h i a \<and> prev_at h' i a = prev_at h i a"
  shows "levels_ok h' hdr tail heads \<longleftrightarrow> levels_ok h hdr tail heads"
proof -
  have "chain (next_at h' i) (prev_at h' i) (hdr # on_level h' i heads @ [tail]) \<longleftrightarrow>
      chain (next_at h i) (prev_at h i) (hdr # on_level h i heads @ [tail])" for i
  proof -
    have "on_level h' i heads = on_level h i heads" using assms(1) by (auto intro!: filter_cong)
    moreover have "chain (next_at h' i) (prev_at h' i) (hdr # on_level h i heads @ [tail]) \<longleftrightarrow>
        chain (next_at h i) (prev_at h i) (hdr # on_level h i heads @ [tail])"
      using assms(2) by (intro chain_cong) (auto simp: butlast_append)
    ultimately show ?thesis by simp
  qed
  then show ?thesis by (simp add: levels_ok_def)
qed

lemma max_ok_cong:
  assumes "\<forall>a\<in>set heads. lvl h' a = lvl h a"
  shows "max_ok h' m heads \<longleftrightarrow> max_ok h m heads"
  using assms by (simp add: max_ok_def)

lemma max_ok_image:
  "max_ok h m heads \<longleftrightarrow> 1 \<le> m \<and> (\<forall>k\<in>lvl h ` set heads. k \<le> m) \<and> (m = 1 \<or> m \<in> lvl h ` set heads)"
  by (auto simp: max_ok_def)

lemma max_ok_insert:
  assumes m: "max_ok h m (xs @ ys)" and k: "1 \<le> k" "lvl h' n = k" and same: "\<forall>a\<in>set (xs @ ys). lvl h' a = lvl h a"
  shows "max_ok h' (max k m) (xs @ n # ys)"
proof -
  have m': "max_ok h' m (xs @ ys)" using max_ok_cong [OF same] m by simp
  then have le: "lvl h' a \<le> m" if "a \<in> set (xs @ ys)" for a using that unfolding max_ok_def by blast
  have "lvl h' a \<le> max k m" if "a \<in> set (xs @ n # ys)" for a
  proof (cases "a = n")
    case False
    then have "a \<in> set (xs @ ys)" using that by simp
    from le [OF this] show ?thesis by simp
  qed (use k in simp)
  moreover have "max k m = 1 \<or> (\<exists>a\<in>set (xs @ n # ys). lvl h' a = max k m)"
  proof (cases "m \<le> k")
    case True
    then show ?thesis using k by (intro disjI2 bexI [of _ n]) auto
  next
    case False
    then have "m \<noteq> 1" "max k m = m" using k by auto
    then show ?thesis using m' unfolding max_ok_def by auto
  qed
  ultimately show ?thesis using k unfolding max_ok_def by auto
qed

lemma sorted_heads_cong:
  assumes "\<forall>a\<in>set heads. time_of h' a = time_of h a"
  shows "sorted_wrt (\<lambda>a b. time_of h' b < time_of h' a) heads \<longleftrightarrow> sorted_wrt (\<lambda>a b. time_of h b < time_of h a) heads"
  using assms by (induction heads) auto

lemma tl_repD:
  assumes "tl_rep s gs"
  shows "distinct (pHeader s # pTail s # concat gs)" "dom (tl_heap s) = set (pHeader s # pTail s # concat gs)"
    "sentinels_ok (tl_heap s) (pHeader s) (pTail s)" "\<forall>g\<in>set gs. group_ok (tl_heap s) g"
    "sorted_wrt (\<lambda>a b. time_of (tl_heap s) b < time_of (tl_heap s) a) (map hd gs)"
    "levels_ok (tl_heap s) (pHeader s) (pTail s) (map hd gs)" "max_ok (tl_heap s) (maxCurLevel s) (map hd gs)"
    "\<forall>ident a. nodeMap s ident = Some a \<longleftrightarrow> a \<in> set (concat gs) \<and> id_of (tl_heap s) a = ident"
  using assms by (simp_all add: tl_rep_def Let_def)

lemma heads_on_level:
  assumes "\<forall>g\<in>set gs. group_ok h g"
  shows "on_level h 0 (map hd gs) = map hd gs"
  using assms unfolding group_ok_def filter_id_conv by simp

lemma heads_subset:
  assumes "\<forall>g\<in>set gs. group_ok h g"
  shows "set (map hd gs) \<subseteq> set (concat gs)"
proof -
  have "hd g \<in> set g" if "g \<in> set gs" for g using assms that unfolding group_ok_def by (blast intro: hd_in_set)
  then show ?thesis by auto
qed

lemma distinct_heads:
  assumes "distinct (concat gs)" "\<forall>g\<in>set gs. group_ok h g"
  shows "distinct (map hd gs)"
  using assms
proof (induction gs)
  case (Cons g gs)
  have "g \<noteq> []" using Cons.prems(2) by (simp add: group_ok_def)
  then have "hd g \<in> set g" by (rule hd_in_set)
  moreover have "set (map hd gs) \<subseteq> set (concat gs)" using Cons.prems(2) by (intro heads_subset [of _ h]) simp
  moreover have "set g \<inter> set (concat gs) = {}" "distinct (map hd gs)" using Cons by simp_all
  ultimately have "hd g \<notin> set (map hd gs)" by blast
  with \<open>distinct (map hd gs)\<close> show ?case by simp
qed simp

lemma distinct_groups:
  "distinct (hdr # tail # concat (E @ g # L)) \<Longrightarrow> g' \<in> set (E @ L) \<Longrightarrow> set g \<inter> set g' = {}"
  by auto

lemma other_groups: "\<forall>x\<in>set (E @ g # L). P x \<Longrightarrow> g' \<in> set (E @ L) \<Longrightarrow> P g'"
  by auto

lemma index_insert:
  assumes "\<forall>k a. m k = Some a \<longleftrightarrow> a \<in> A \<and> f a = k" "m ident = None" "new \<notin> A"
  shows "(m(ident \<mapsto> new)) k = Some a \<longleftrightarrow> a \<in> insert new A \<and> (f(new := ident)) a = k"
proof (cases "a = new")
  case True
  then show ?thesis using assms by auto
next
  case False
  then show ?thesis using assms(1,2) by (cases "k = ident") (simp, metis option.distinct(1), simp)
qed

text \<open>The groups that expire no earlier than a time come first.\<close>

lemma split_groups:
  assumes "sorted_wrt (\<lambda>a b. f b < (f a :: u64)) (map hd gs)"
  obtains E L where "gs = E @ L" "\<forall>g\<in>set E. t \<le> f (hd g)" "\<forall>g\<in>set L. f (hd g) < t"
proof -
  have "\<exists>E L. gs = E @ L \<and> (\<forall>g\<in>set E. t \<le> f (hd g)) \<and> (\<forall>g\<in>set L. f (hd g) < t)"
    using assms
  proof (induction gs)
    case (Cons g gs)
    show ?case
    proof (cases "t \<le> f (hd g)")
      case True
      from Cons obtain E L where "gs = E @ L" "\<forall>g\<in>set E. t \<le> f (hd g)" "\<forall>g\<in>set L. f (hd g) < t" by auto
      with True show ?thesis by (intro exI [of _ "g # E"] exI [of _ L]) auto
    next
      case False
      with Cons.prems have "\<forall>g'\<in>set (g # gs). f (hd g') < t" by fastforce
      then show ?thesis by (intro exI [of _ "[]"] exI [of _ "g # gs"]) auto
    qed
  qed simp
  with that show thesis by blast
qed

lemma tl_search_rep:
  assumes rep: "tl_rep s (E @ L)" and fresh: "nodeMap s ident = None" and t: "0 < t"
    and E: "\<forall>g\<in>set E. t \<le> time_of (tl_heap s) (hd g)" and L: "\<forall>g\<in>set L. time_of (tl_heap s) (hd g) < t"
  shows "tl_search (tl_heap s) ident t (maxCurLevel s) (pHeader s) Map.empty =
     Some (last (pHeader s # map hd E),
           \<lambda>i. if i < maxCurLevel s then Some (last_before (tl_heap s) (pHeader s) (map hd E) i) else None)"
proof -
  let ?h = "tl_heap s"
  note R = tl_repD [OF rep]
  have heads: "set (map hd (E @ L)) \<subseteq> set (concat (E @ L))" using R(4) by (rule heads_subset)
  have lv: "0 < lvl ?h a \<and> lvl ?h a \<le> 16" if "a \<in> set (map hd (E @ L))" for a using that R(4) by (auto simp: group_ok_def)
  have m: "maxCurLevel s \<le> 16" "\<forall>a\<in>set (map hd E). lvl ?h a \<le> maxCurLevel s"
    using R(7) lv unfolding max_ok_def by (metis one_le_numeral) (use R(7) in \<open>simp add: max_ok_def\<close>)
  have start: "last_before ?h (pHeader s) (map hd E) (maxCurLevel s) = pHeader s"
  proof -
    have "on_level ?h (maxCurLevel s) (map hd E) = []" using m(2) by (auto simp: filter_empty_conv not_less)
    then show ?thesis by (simp add: last_before_def)
  qed
  have stop: "last_before ?h (pHeader s) (map hd E) 0 = last (pHeader s # map hd E)"
  proof -
    have "on_level ?h 0 (map hd E) = map hd E" using lv by (auto simp: filter_id_conv)
    then show ?thesis by (simp only: last_before_def)
  qed
  have "id_of ?h a \<noteq> ident" if "a \<in> set (map hd E)" for a
  proof -
    have "a \<in> set (concat (E @ L))" using that heads by auto
    then have "nodeMap s (id_of ?h a) = Some a" using R(8) by blast
    with fresh show ?thesis by auto
  qed
  then have "tl_search ?h ident t (maxCurLevel s) (last_before ?h (pHeader s) (map hd E) (maxCurLevel s)) Map.empty =
     Some (last_before ?h (pHeader s) (map hd E) 0,
       \<lambda>i. if i < maxCurLevel s then Some (last_before ?h (pHeader s) (map hd E) i) else None)"
    using R(6,3) m(1) E L t heads R(2)
    by (intro tl_search_levels [where late = "map hd L" and tail = "pTail s"]) (auto simp: sentinels_ok_def)
  then show ?thesis unfolding start stop .
qed

lemma new_group_rep:
  assumes rep: "tl_rep s (E @ L)" and fresh: "nodeMap s ident = None" and new: "tl_heap s new = None"
    and t: "0 < t" "t < CORPC_MAX_UINT64"
    and E: "\<forall>g\<in>set E. t < time_of (tl_heap s) (hd g)" and L: "\<forall>g\<in>set L. time_of (tl_heap s) (hd g) < t"
  shows "\<exists>s'. tl_insert rnd new s ident t dat = Some s' \<and> tl_rep s' (E @ [[new]] @ L)
     \<and> tl_entries s' = (tl_entries s)(ident \<mapsto> (t, dat))"
proof -
  let ?h = "tl_heap s" and ?hdr = "pHeader s" and ?tail = "pTail s"
  let ?early = "map hd E" and ?late = "map hd L" and ?k = "randomLevel rnd"
  note R = tl_repD [OF rep]
  have heads: "set (map hd (E @ L)) \<subseteq> set (concat (E @ L))" using R(4) by (rule heads_subset)
  have new': "new \<notin> set (?hdr # ?tail # concat (E @ L))" using new R(2) by blast
  have newh: "new \<notin> set (?hdr # ?tail # ?early @ ?late)" using new' heads by auto
  have srch: "tl_search ?h ident t (maxCurLevel s) ?hdr Map.empty = Some (last (?hdr # ?early),
      \<lambda>i. if i < maxCurLevel s then Some (last_before ?h ?hdr ?early i) else None)"
    using E by (intro tl_search_rep [OF rep fresh t(1) _ L]) (auto intro: less_imp_le)
  have cur: "time_of ?h (last (?hdr # ?early)) \<noteq> t" "last (?hdr # ?early) \<in> dom ?h"
  proof -
    have l: "last (?hdr # ?early) \<in> set (?hdr # ?early)" by (rule last_in_set) simp
    with E R(3) t(2) show "time_of ?h (last (?hdr # ?early)) \<noteq> t" by (auto simp: sentinels_ok_def)
    have "set (?hdr # ?early) \<subseteq> set (?hdr # ?tail # concat (E @ L))"
      using heads by (simp only: map_append set_append list.set) blast
    with l R(2) show "last (?hdr # ?early) \<in> dom ?h" by blast
  qed
  then obtain cnd where cnd: "?h (last (?hdr # ?early)) = Some cnd" "tn_expireTime cnd \<noteq> t" by (auto simp: time_of_def)
  let ?h1 = "?h(new \<mapsto> new_TNode new t ident ?k (Some dat))"
  have links: "tn_links (new_TNode new t ident ?k (Some dat)) = replicate ?k (None, None)" by (simp add: new_TNode_def)
  note F = alloc_fields [of ?h new, OF new, of "new_TNode new t ident ?k (Some dat)"]
  have F8: "next_at ?h1 = next_at ?h" "prev_at ?h1 = prev_at ?h" using F(8) [OF links] by auto
  have Fl: "lvl ?h1 = (lvl ?h)(new := ?k)" using F(5) by (simp add: new_TNode_def)
  let ?p = "last_before ?h ?hdr ?early"
  let ?q = "\<lambda>i. hd (on_level ?h i ?late @ [?tail])"
  let ?prevs = "\<lambda>i. if maxCurLevel s \<le> i \<and> i < ?k then Some ?hdr
      else if i < maxCurLevel s then Some (?p i) else None"
  have high: "?p i = ?hdr" if "maxCurLevel s \<le> i" for i
  proof -
    have "\<not> i < lvl ?h a" if a: "a \<in> set ?early" for a
    proof -
      have "lvl ?h a \<le> maxCurLevel s" using R(7) a unfolding max_ok_def by simp
      with \<open>maxCurLevel s \<le> i\<close> show ?thesis by simp
    qed
    then have "on_level ?h i ?early = []" by (auto simp: filter_empty_conv)
    then show ?thesis by (simp add: last_before_def)
  qed
  have prevs: "?prevs i = Some (?p i)" if "i < ?k" for i using that high [of i] by auto
  have pq: "next_at ?h i (?p i) = Some (?q i) \<and> i < lvl ?h (?p i) \<and> i < lvl ?h (?q i) \<and> ?p i \<noteq> new \<and> ?q i \<noteq> new" if "i < ?k" for i
  proof -
    have i16: "i < 16" using that randomLevel_bounds(2) [of rnd] by simp
    have pin: "?p i \<in> set (?hdr # on_level ?h i ?early)" unfolding last_before_def by (rule last_in_set) simp
    have qin: "?q i \<in> set (on_level ?h i ?late @ [?tail])" by (rule hd_in_set) simp
    have "chain (next_at ?h i) (prev_at ?h i) (?hdr # on_level ?h i ?early @ on_level ?h i ?late @ [?tail])"
      using R(6) i16 by (simp add: levels_ok_def)
    moreover obtain pre where pre: "?hdr # on_level ?h i ?early = pre @ [?p i]"
      unfolding last_before_def by (metis append_butlast_last_id list.distinct(1))
    moreover obtain post where post: "on_level ?h i ?late @ [?tail] = ?q i # post" by (cases "on_level ?h i ?late") auto
    moreover have "?hdr # on_level ?h i ?early @ on_level ?h i ?late @ [?tail] = pre @ ?p i # ?q i # post"
      using pre post by (metis append_Cons append_assoc append_Nil)
    ultimately have "next_at ?h i (?p i) = Some (?q i)" using chain_pair by metis
    moreover have "i < lvl ?h (?p i)" "i < lvl ?h (?q i)" using pin qin R(3) i16 by (auto simp: sentinels_ok_def)
    moreover have "?p i \<noteq> new" "?q i \<noteq> new" using pin qin newh by auto
    ultimately show ?thesis by blast
  qed
  have "\<forall>i\<in>set [0..<?k]. ?prevs i = Some (?p i) \<and> next_at ?h1 i (?p i) = Some (?q i) \<and> i < lvl ?h1 new
      \<and> i < lvl ?h1 (?p i) \<and> i < lvl ?h1 (?q i)"
    using pq prevs unfolding Fl F8 by auto
  then obtain h2 where h2: "tl_splice ?h1 new ?prevs [0..<?k] = Some h2" "same_fields ?h1 h2" "lvl h2 = lvl ?h1"
      "rnext h2 = rnext ?h1" "rprev h2 = rprev ?h1"
      "next_at h2 = (\<lambda>i. if i \<in> set [0..<?k] then (next_at ?h1 i)(new := Some (?q i), ?p i := Some new) else next_at ?h1 i)"
      "prev_at h2 = (\<lambda>i. if i \<in> set [0..<?k] then (prev_at ?h1 i)(new := Some (?p i), ?q i := Some new) else prev_at ?h1 i)"
    using tl_splice_levels [OF distinct_upt, of 0 ?k ?prevs ?p ?h1 ?q new] by blast
  let ?s = "s\<lparr>tl_heap := h2, maxCurLevel := max ?k (maxCurLevel s), nodeMap := (nodeMap s)(ident \<mapsto> new)\<rparr>"
  have run: "tl_insert rnd new s ident t dat = Some ?s"
    using srch cnd h2(1) fresh by (simp add: tl_insert_def Let_def)
  have same: "time_of h2 = (time_of ?h)(new := t)" "id_of h2 = (id_of ?h)(new := ident)" "data_of h2 = (data_of ?h)(new := Some dat)"
      "dom h2 = insert new (dom ?h)" "lvl h2 = (lvl ?h)(new := ?k)" "rnext h2 = (rnext ?h)(new := Some new)"
      "rprev h2 = (rprev ?h)(new := Some new)"
    using h2(2-5) F(1-7) unfolding same_fields_def by (simp_all add: new_TNode_def)
  have "tl_rep ?s (E @ [[new]] @ L)"
  proof -
    have keep: "\<forall>a\<in>set g. rnext h2 a = rnext ?h a \<and> rprev h2 a = rprev ?h a \<and> time_of h2 a = time_of ?h a
        \<and> lvl h2 a = lvl ?h a \<and> data_of h2 a = data_of ?h a" if "g \<in> set (E @ L)" for g
    proof -
      have "new \<notin> set g" using new' that by auto
      then show ?thesis unfolding same by auto
    qed
    have groups: "\<forall>g\<in>set (E @ [[new]] @ L). group_ok h2 g"
    proof -
      have "group_ok h2 g" if "g \<in> set (E @ L)" for g using group_ok_cong [OF keep [OF that]] R(4) that by blast
      moreover have "group_ok h2 [new]" using t randomLevel_bounds [of rnd] by (simp add: group_ok_def same)
      ultimately show ?thesis by auto
    qed
    have sorted: "sorted_wrt (\<lambda>a b. time_of h2 b < time_of h2 a) (map hd (E @ [[new]] @ L))"
    proof -
      have "sorted_wrt (\<lambda>a b. time_of h2 b < time_of h2 a) (?early @ ?late)"
        using sorted_heads_cong [of "?early @ ?late" h2 ?h] R(5) newh same(1) by auto
      moreover have "\<forall>a\<in>set ?early. t < time_of h2 a" "\<forall>a\<in>set ?late. time_of h2 a < t"
        using E L newh by (auto simp: same(1))
      ultimately show ?thesis using same(1) by (auto simp: sorted_wrt_append)
    qed
    have levels: "levels_ok h2 ?hdr ?tail (map hd (E @ [[new]] @ L))"
    proof -
      have "distinct (?hdr # ?tail # ?early @ ?late)"
        using distinct_heads [of "E @ L" ?h] R(1,4) heads by auto
      moreover have "\<forall>a\<in>set (?hdr # ?tail # ?early @ ?late). lvl h2 a = lvl ?h a" using newh by (auto simp: same(5))
      moreover have "levels_ok ?h ?hdr ?tail (?early @ ?late)" using R(6) by simp
      ultimately have "levels_ok h2 ?hdr ?tail (?early @ new # ?late)"
        using newh h2(6,7) F8 same(5) by (intro levels_ok_insert [where h = ?h and k = ?k]) (auto simp: fun_eq_iff)
      then show ?thesis by simp
    qed
    have maxl: "max_ok h2 (max ?k (maxCurLevel s)) (map hd (E @ [[new]] @ L))"
    proof -
      have "max_ok ?h (maxCurLevel s) (?early @ ?late)" using R(7) by simp
      from max_ok_insert [OF this randomLevel_bounds(1), of h2 new rnd] newh same(5) show ?thesis by auto
    qed
    have nmap: "((nodeMap s)(ident \<mapsto> new)) i = Some a \<longleftrightarrow> a \<in> set (concat (E @ [[new]] @ L)) \<and> id_of h2 a = i" for i a
    proof -
      have "new \<notin> set (concat (E @ L))" using new' by simp
      from index_insert [OF R(8) fresh this] show ?thesis by (simp add: same(2) insert_commute)
    qed
    show ?thesis
      using R(1,2,3) new' groups sorted levels maxl nmap same(1,4,5)
      by (auto simp: tl_rep_def Let_def sentinels_ok_def)
  qed
  moreover have "tl_entries ?s = (tl_entries s)(ident \<mapsto> (t, dat))"
  proof
    fix i
    have "nodeMap s i = Some a \<Longrightarrow> a \<noteq> new" for a using R(8) new' by auto
    then show "tl_entries ?s i = ((tl_entries s)(ident \<mapsto> (t, dat))) i"
      by (cases "nodeMap s i") (auto simp: tl_entries_def same)
  qed
  ultimately show ?thesis using run by blast
qed

lemma join_group_rep:
  assumes rep: "tl_rep s (E @ g # L)" and fresh: "nodeMap s ident = None" and new: "tl_heap s new = None"
    and t: "0 < t" and g: "time_of (tl_heap s) (hd g) = t"
    and E: "\<forall>g\<in>set E. t \<le> time_of (tl_heap s) (hd g)" and L: "\<forall>g\<in>set L. time_of (tl_heap s) (hd g) < t"
  shows "\<exists>s'. tl_insert rnd new s ident t dat = Some s' \<and> tl_rep s' (E @ (g @ [new]) # L)
     \<and> tl_entries s' = (tl_entries s)(ident \<mapsto> (t, dat))"
proof -
  let ?h = "tl_heap s" and ?hdr = "pHeader s" and ?tail = "pTail s"
  note R = tl_repD [OF rep]
  have gok: "group_ok ?h g" using R(4) by simp
  then obtain a os where ga: "g = a # os" by (cases g) (auto simp: group_ok_def)
  let ?l = "last g"
  have new': "new \<notin> set (?hdr # ?tail # concat (E @ g # L))" using new R(2) by blast
  have al: "a \<in> dom ?h" "?l \<in> dom ?h" "a \<noteq> new" "?l \<noteq> new" using R(2) new' ga by auto
  have gl: "butlast g @ ?l # ys = g @ ys" for ys
    using ga by (metis append_Cons append_Nil append_assoc append_butlast_last_id list.distinct(1))
  have ring: "chain (rnext ?h) (rprev ?h) (butlast g @ ?l # [a])"
    unfolding gl using gok ga by (simp add: group_ok_def)
  then have prev: "rprev ?h a = Some ?l" using chain_pair [of _ _ "butlast g" ?l a "[]"] by simp
  have srch: "tl_search ?h ident t (maxCurLevel s) ?hdr Map.empty = Some (last (?hdr # map hd (E @ [g])),
      \<lambda>i. if i < maxCurLevel s then Some (last_before ?h ?hdr (map hd (E @ [g])) i) else None)"
    using E g rep by (intro tl_search_rep [OF _ fresh t _ L]) auto
  obtain cnd where cnd: "?h a = Some cnd" "tn_expireTime cnd = t" "tn_prev cnd = ?l"
    using al(1) g ga prev by (auto simp: time_of_def rprev_def)
  let ?nd = "(new_TNode new t ident 0 (Some dat))\<lparr>tn_next := a, tn_prev := ?l\<rparr>"
  let ?h1 = "?h(new \<mapsto> ?nd)"
  note F = alloc_fields [of ?h new, OF new, of ?nd]
  have F8: "next_at ?h1 = next_at ?h" "prev_at ?h1 = prev_at ?h" using F(8) [of 0] by (auto simp: new_TNode_def)
  obtain h2 where h2: "set_ring_prev ?h1 a new = Some h2" "same_fields ?h1 h2" "lvl h2 = lvl ?h1"
      "rprev h2 = (rprev ?h1)(a := Some new)" "rnext h2 = rnext ?h1" "next_at h2 = next_at ?h1" "prev_at h2 = prev_at ?h1"
    using set_ring_prev_fields [of a ?h1 new] al by auto
  obtain h3 where h3: "set_ring_next h2 ?l new = Some h3" "same_fields h2 h3" "lvl h3 = lvl h2"
      "rnext h3 = (rnext h2)(?l := Some new)" "rprev h3 = rprev h2" "next_at h3 = next_at h2" "prev_at h3 = prev_at h2"
    using set_ring_next_fields [of ?l h2 new] al h2(2) by (auto simp: same_fields_def)
  let ?s = "s\<lparr>tl_heap := h3, maxCurLevel := maxCurLevel s, nodeMap := (nodeMap s)(ident \<mapsto> new)\<rparr>"
  have run: "tl_insert rnd new s ident t dat = Some ?s"
    using srch cnd h2(1) h3(1) fresh ga by (simp add: tl_insert_def Let_def)
  have same: "time_of h3 = (time_of ?h)(new := t)" "id_of h3 = (id_of ?h)(new := ident)" "data_of h3 = (data_of ?h)(new := Some dat)"
      "dom h3 = insert new (dom ?h)" "lvl h3 = (lvl ?h)(new := 0)" "rnext h3 = (rnext ?h)(new := Some a, ?l := Some new)"
      "rprev h3 = (rprev ?h)(new := Some ?l, a := Some new)" "next_at h3 = next_at ?h" "prev_at h3 = prev_at ?h"
    using h2(2-7) h3(2-7) F(1-7) F8 unfolding same_fields_def by (simp_all add: new_TNode_def)
  have "tl_rep ?s (E @ (g @ [new]) # L)"
  proof -
    have heads: "map hd (E @ (g @ [new]) # L) = map hd (E @ g # L)" using ga by simp
    have sub: "set (map hd (E @ g # L)) \<subseteq> set (concat (E @ g # L))" using R(4) by (rule heads_subset)
    then have newh: "new \<notin> set (?hdr # ?tail # map hd (E @ g # L))" using new' by auto
    have keep: "group_ok h3 g'" if "g' \<in> set (E @ L)" for g'
    proof -
      have "set g \<inter> set g' = {}" using R(1) that by (rule distinct_groups)
      moreover have "new \<notin> set g'" using new' that by auto
      moreover have "a \<in> set g" "?l \<in> set g" using ga by simp_all
      ultimately have "\<forall>x\<in>set g'. rnext h3 x = rnext ?h x \<and> rprev h3 x = rprev ?h x \<and> time_of h3 x = time_of ?h x
          \<and> lvl h3 x = lvl ?h x \<and> data_of h3 x = data_of ?h x"
        unfolding same by auto
      with other_groups [OF R(4) that] show ?thesis by (simp only: group_ok_cong)
    qed
    have gnew: "group_ok h3 (g @ [new])"
    proof -
      have "chain (rnext h3) (rprev h3) (butlast g @ ?l # new # [a])"
        unfolding same(6,7)
      proof (rule chain_insert [OF ring], unfold gl)
        have "distinct g" "new \<notin> set g" using R(1) new' by simp_all
        with ga show "distinct (butlast (g @ [a]))" "distinct (tl (g @ [a]))" "new \<notin> set (g @ [a])" by auto
      qed
      then have "chain (rnext h3) (rprev h3) ((g @ [new]) @ [hd (g @ [new])])" unfolding gl using ga by simp
      moreover have "new \<notin> set g" using new' by simp
      ultimately show ?thesis using gok g ga by (auto simp: group_ok_def same)
    qed
    have nmap: "((nodeMap s)(ident \<mapsto> new)) i = Some x \<longleftrightarrow> x \<in> set (concat (E @ (g @ [new]) # L)) \<and> id_of h3 x = i" for i x
    proof -
      have "new \<notin> set (concat (E @ g # L))" using new' by simp
      from index_insert [OF R(8) fresh this] show ?thesis by (simp add: same(2) insert_commute)
    qed
    have lvls: "\<forall>x\<in>set (?hdr # ?tail # map hd (E @ g # L)). lvl h3 x = lvl ?h x" using newh by (auto simp: same(5))
    have levels: "levels_ok h3 ?hdr ?tail (map hd (E @ g # L))"
      using levels_ok_cong [OF lvls] R(6) same(8,9) by simp
    have maxl: "max_ok h3 (maxCurLevel s) (map hd (E @ g # L))" using max_ok_cong [of _ h3 ?h] lvls R(7) by simp
    have sorted: "sorted_wrt (\<lambda>a b. time_of h3 b < time_of h3 a) (map hd (E @ g # L))"
      using sorted_heads_cong [of "map hd (E @ g # L)" h3 ?h] R(5) newh same(1) by auto
    have dist: "distinct (?hdr # ?tail # concat (E @ (g @ [new]) # L))" using R(1) new' by auto
    have dom: "dom h3 = set (?hdr # ?tail # concat (E @ (g @ [new]) # L))" using R(2) by (auto simp: same(4))
    have sent: "sentinels_ok h3 ?hdr ?tail" using R(3) new' by (auto simp: sentinels_ok_def same(1,5))
    have grps: "\<forall>g'\<in>set (E @ (g @ [new]) # L). group_ok h3 g'" using keep gnew by auto
    show ?thesis unfolding tl_rep_def Let_def heads
      using dist dom sent grps sorted levels maxl nmap by simp
  qed
  moreover have "tl_entries ?s = (tl_entries s)(ident \<mapsto> (t, dat))"
  proof
    fix i
    have "nodeMap s i = Some x \<Longrightarrow> x \<noteq> new" for x using R(8) new' by auto
    then show "tl_entries ?s i = ((tl_entries s)(ident \<mapsto> (t, dat))) i"
      by (cases "nodeMap s i") (auto simp: tl_entries_def same)
  qed
  ultimately show ?thesis using run by blast
qed

lemma tl_insert_rep:
  assumes "tl_inv s" "nodeMap s ident = None" "tl_heap s new = None" "0 < t" "t < CORPC_MAX_UINT64"
  shows "\<exists>s'. tl_insert rnd new s ident t dat = Some s' \<and> tl_inv s' \<and> tl_entries s' = (tl_entries s)(ident \<mapsto> (t, dat))"
proof -
  obtain gs where rep: "tl_rep s gs" using assms(1) by (auto simp: tl_inv_def)
  obtain E L where gs: "gs = E @ L" "\<forall>g\<in>set E. t \<le> time_of (tl_heap s) (hd g)" "\<forall>g\<in>set L. time_of (tl_heap s) (hd g) < t"
    by (rule split_groups [OF tl_repD(5) [OF rep], of t])
  show ?thesis
  proof (cases "\<exists>g\<in>set E. time_of (tl_heap s) (hd g) = t")
    case False
    then have "\<forall>g\<in>set E. t < time_of (tl_heap s) (hd g)" using gs(2) by (metis order_le_less)
    from new_group_rep [OF _ assms(2-5) this gs(3)] rep gs(1) show ?thesis unfolding tl_inv_def by blast
  next
    case True
    then obtain E1 g E2 where E: "E = E1 @ g # E2" "time_of (tl_heap s) (hd g) = t" by (metis split_list)
    have "\<forall>g\<in>set E2. time_of (tl_heap s) (hd g) < t"
      using tl_repD(5) [OF rep] E gs(1) by (auto simp: sorted_wrt_append)
    then have "E2 = []" using gs(2) E(1) by (cases E2) auto
    then have "tl_rep s (E1 @ g # L)" "\<forall>g\<in>set E1. t \<le> time_of (tl_heap s) (hd g)" using rep gs E(1) by simp_all
    from join_group_rep [OF this(1) assms(2-4) E(2) this(2) gs(3)] show ?thesis unfolding tl_inv_def by blast
  qed
qed

section \<open>Removing\<close>

lemma index_delete:
  assumes "\<forall>k a. m k = Some a \<longleftrightarrow> a \<in> A \<and> f a = k" "a \<in> A"
  shows "(m(f a := None)) k = Some x \<longleftrightarrow> x \<in> A - {a} \<and> f x = k"
proof -
  have "m (f a) = Some a" using assms by blast
  then show ?thesis using assms(1) by (cases "k = f a") (simp, metis option.inject, auto)
qed

text \<open>The last step, freeing the node that has left its group and its levels.\<close>

lemma free_rep:
  assumes rep: "tl_rep s gs" and a: "a \<in> set (concat gs)" and same: "same_fields (tl_heap s) h"
    and nodes: "set (concat gs') = set (concat gs) - {a}" "distinct (concat gs')"
    and sent: "sentinels_ok h (pHeader s) (pTail s)" and groups: "\<forall>g\<in>set gs'. group_ok h g"
    and sorted: "sorted_wrt (\<lambda>a b. time_of h b < time_of h a) (map hd gs')"
    and levels: "levels_ok h (pHeader s) (pTail s) (map hd gs')" and maxl: "max_ok h m (map hd gs')"
  defines "s' \<equiv> s\<lparr>tl_heap := h(a := None), maxCurLevel := m, nodeMap := (nodeMap s)(id_of (tl_heap s) a := None)\<rparr>"
  shows "tl_rep s' gs' \<and> tl_entries s' = (tl_entries s)(id_of (tl_heap s) a := None)"
proof
  let ?h = "h(a := None)" and ?hdr = "pHeader s" and ?tail = "pTail s"
  note R = tl_repD [OF rep]
  have a': "a \<noteq> ?hdr" "a \<noteq> ?tail" using R(1) a by auto
  have sub: "set (map hd gs') \<subseteq> set (concat gs')" using groups by (rule heads_subset)
  have notin: "a \<notin> set (?hdr # ?tail # map hd gs')" using a' sub nodes(1) by auto
  have "group_ok ?h g" if "g \<in> set gs'" for g
  proof -
    have "a \<notin> set g" using nodes(1) that by auto
    then have "\<forall>x\<in>set g. rnext ?h x = rnext h x \<and> rprev ?h x = rprev h x \<and> time_of ?h x = time_of h x
        \<and> lvl ?h x = lvl h x \<and> data_of ?h x = data_of h x"
      by (metis free_fields)
    from group_ok_cong [OF this] groups that show ?thesis by blast
  qed
  then have g: "\<forall>g\<in>set gs'. group_ok ?h g" by blast
  have fields: "\<forall>x\<in>set (?hdr # ?tail # map hd gs'). lvl ?h x = lvl h x \<and> time_of ?h x = time_of h x
      \<and> (\<forall>i. next_at ?h i x = next_at h i x \<and> prev_at ?h i x = prev_at h i x)"
    using notin by (metis free_fields)
  have l: "levels_ok ?h ?hdr ?tail (map hd gs')" using levels_ok_cong [of ?hdr ?tail "map hd gs'" ?h h] fields levels by blast
  have m: "max_ok ?h m (map hd gs')" using max_ok_cong [of "map hd gs'" ?h h] fields maxl by auto
  have st: "sorted_wrt (\<lambda>a b. time_of ?h b < time_of ?h a) (map hd gs')"
    using sorted_heads_cong [of "map hd gs'" ?h h] fields sorted by auto
  have se: "sentinels_ok ?h ?hdr ?tail" using sent fields by (simp add: sentinels_ok_def)
  have d: "dom ?h = set (?hdr # ?tail # concat gs')"
    using R(2) nodes(1) a' same by (auto simp: same_fields_def)
  have di: "distinct (?hdr # ?tail # concat gs')" using R(1) nodes by auto
  have nm: "((nodeMap s)(id_of (tl_heap s) a := None)) k = Some x \<longleftrightarrow> x \<in> set (concat gs') \<and> id_of ?h x = k" for k x
  proof -
    have "((nodeMap s)(id_of (tl_heap s) a := None)) k = Some x \<longleftrightarrow> x \<in> set (concat gs') \<and> id_of (tl_heap s) x = k"
      unfolding nodes(1) using R(8) a by (rule index_delete)
    moreover have "id_of ?h x = id_of (tl_heap s) x" if "x \<in> set (concat gs')"
      using that nodes(1) same free_fields(3) [of x a h] by (auto simp: same_fields_def)
    ultimately show ?thesis by (cases "x \<in> set (concat gs')") simp_all
  qed
  show "tl_rep s' gs'" unfolding s'_def tl_rep_def Let_def using g l m st se d di nm by simp
  show "tl_entries s' = (tl_entries s)(id_of (tl_heap s) a := None)"
  proof
    fix k
    have "x \<noteq> a" if "nodeMap s k = Some x" "k \<noteq> id_of (tl_heap s) a" for x using that R(8) by auto
    then show "tl_entries s' k = ((tl_entries s)(id_of (tl_heap s) a := None)) k"
      using same by (cases "nodeMap s k") (auto simp: s'_def tl_entries_def same_fields_def free_fields)
  qed
qed

lemma ring_delete:
  assumes "chain nx pv (us @ a # vs @ [hd us])" "us \<noteq> []" "distinct (us @ a # vs)"
  shows "pv a = Some (last us)" "nx a = Some (hd (vs @ [hd us]))" "last us \<noteq> a" "hd (vs @ [hd us]) \<noteq> a"
    "chain (nx(last us := Some (hd (vs @ [hd us])))) (pv(hd (vs @ [hd us]) := Some (last us))) ((us @ vs) @ [hd (us @ vs)])"
proof -
  let ?q = "hd (vs @ [hd us])"
  obtain post where post: "vs @ [hd us] = ?q # post" by (cases vs) auto
  have us: "us = butlast us @ [last us]" using assms(2) by simp
  have eq: "us @ a # vs @ [hd us] = butlast us @ last us # a # ?q # post"
    using us post by (metis append_Cons append_Nil append_assoc)
  show "pv a = Some (last us)" using assms(1) unfolding eq by (auto dest: chain_pair)
  show "nx a = Some ?q" using assms(1) chain_pair [of nx pv "butlast us @ [last us]" a ?q post] unfolding eq by simp
  show "last us \<noteq> a" "?q \<noteq> a" using assms(2,3) by (auto simp: hd_append)
  have "distinct (butlast (us @ a # vs @ [hd us]))" "distinct (tl (us @ a # vs @ [hd us]))"
    using assms(2,3) by (auto simp: butlast_append neq_Nil_conv)
  with assms(1) have "chain (nx(last us := Some ?q)) (pv(?q := Some (last us))) (butlast us @ last us # ?q # post)"
    unfolding eq by (rule chain_delete)
  moreover have "butlast us @ last us # ?q # post = (us @ vs) @ [hd (us @ vs)]"
    using us post assms(2) by (metis append_Cons append_Nil append_assoc hd_append2)
  ultimately show "chain (nx(last us := Some ?q)) (pv(?q := Some (last us))) ((us @ vs) @ [hd (us @ vs)])" by simp
qed

lemma leave_ring_rep:
  assumes rep: "tl_rep s (E @ (us @ a # vs) # L)" and us: "us \<noteq> []"
  shows "\<exists>s'. tl_remove s a = Some s' \<and> tl_rep s' (E @ (us @ vs) # L)
     \<and> tl_entries s' = (tl_entries s)(id_of (tl_heap s) a := None)"
proof -
  let ?h = "tl_heap s" and ?p = "last us" and ?q = "hd (vs @ [hd us])"
  let ?g = "us @ a # vs"
  note R = tl_repD [OF rep]
  have gok: "group_ok ?h ?g" using R(4) by simp
  have dist: "distinct ?g" using R(1) by auto
  have ch: "chain (rnext ?h) (rprev ?h) (us @ a # vs @ [hd us])" using gok us by (simp add: group_ok_def)
  note D = ring_delete [OF ch us dist]
  have pq: "?p \<in> set ?g" "?q \<in> set ?g" using us by (auto simp: hd_append)
  have dom: "set ?g \<subseteq> dom ?h" using R(2) by auto
  have "a \<in> set (tl ?g)" using us by (cases us) auto
  then have "lvl ?h a = 0" using gok unfolding group_ok_def by blast
  then obtain nd where nd: "?h a = Some nd" "tn_links nd = []" "tn_next nd = ?q" "tn_prev nd = ?p" "tn_id nd = id_of ?h a"
    using dom D(1,2) by (auto simp: lvl_def rprev_def rnext_def id_of_def)
  obtain h1 where h1: "set_ring_next ?h ?p ?q = Some h1" "same_fields ?h h1" "lvl h1 = lvl ?h"
      "rnext h1 = (rnext ?h)(?p := Some ?q)" "rprev h1 = rprev ?h" "next_at h1 = next_at ?h" "prev_at h1 = prev_at ?h"
    using set_ring_next_fields [of ?p ?h ?q] pq(1) dom by blast
  obtain h2 where h2: "set_ring_prev h1 ?q ?p = Some h2" "same_fields h1 h2" "lvl h2 = lvl ?h"
      "rprev h2 = (rprev ?h)(?q := Some ?p)" "rnext h2 = rnext h1" "next_at h2 = next_at ?h" "prev_at h2 = prev_at ?h"
  proof -
    have "?q \<in> dom h1" using pq(2) dom h1(2) unfolding same_fields_def by blast
    from set_ring_prev_fields [OF this, of ?p] h1(3-7) that show thesis by auto
  qed
  have same: "same_fields ?h h2" using h1(2) h2(2) by (rule same_fields_trans)
  have keep: "group_ok h2 g'" if "g' \<in> set (E @ L)" for g'
  proof -
    have "set ?g \<inter> set g' = {}" using R(1) that by (rule distinct_groups)
    with pq have "?p \<notin> set g'" "?q \<notin> set g'" by blast+
    then have "\<forall>x\<in>set g'. rnext h2 x = rnext ?h x \<and> rprev h2 x = rprev ?h x \<and> time_of h2 x = time_of ?h x
        \<and> lvl h2 x = lvl ?h x \<and> data_of h2 x = data_of ?h x"
      using same h1(4) h2(3-5) by (auto simp: same_fields_def)
    with other_groups [OF R(4) that] show ?thesis by (simp only: group_ok_cong)
  qed
  have "group_ok h2 (us @ vs)"
  proof -
    have "chain (rnext h2) (rprev h2) ((us @ vs) @ [hd (us @ vs)])" using D(5) h2(4,5) h1(4) by simp
    moreover have "\<forall>x\<in>set (tl us @ a # vs). lvl ?h x = 0" "0 < lvl ?h (hd us)" "lvl ?h (hd us) \<le> 16"
        "\<forall>x\<in>set ?g. data_of ?h x \<noteq> None"
      using gok us by (simp_all add: group_ok_def)
    moreover have "\<exists>t. 0 < t \<and> t < CORPC_MAX_UINT64 \<and> (\<forall>x\<in>set (us @ vs). time_of ?h x = t)"
    proof -
      obtain t where "0 < t" "t < CORPC_MAX_UINT64" "\<forall>x\<in>set ?g. time_of ?h x = t" using gok unfolding group_ok_def by blast
      then show ?thesis by (intro exI [of _ t]) simp
    qed
    ultimately show ?thesis using us same h2(3) by (simp add: group_ok_def same_fields_def)
  qed
  then have groups: "\<forall>g\<in>set (E @ (us @ vs) # L). group_ok h2 g" using keep by auto
  have heads: "map hd (E @ (us @ vs) # L) = map hd (E @ ?g # L)" using us by simp
  have run: "tl_remove s a = Some (s\<lparr>tl_heap := h2(a := None), maxCurLevel := maxCurLevel s,
      nodeMap := (nodeMap s)(id_of ?h a := None)\<rparr>)"
    using nd h1(1) h2(1) D(3,4) by (simp add: tl_remove_def Let_def assertion_def)
  have nodes: "set (concat (E @ (us @ vs) # L)) = set (concat (E @ ?g # L)) - {a}" "distinct (concat (E @ (us @ vs) # L))"
    using R(1) by auto
  have ain: "a \<in> set (concat (E @ ?g # L))" by simp
  have sent: "sentinels_ok h2 (pHeader s) (pTail s)" using R(3) same h2(3) by (simp add: sentinels_ok_def same_fields_def)
  have sorted: "sorted_wrt (\<lambda>a b. time_of h2 b < time_of h2 a) (map hd (E @ (us @ vs) # L))"
    unfolding heads using R(5) same by (simp only: same_fields_def)
  have levels: "levels_ok h2 (pHeader s) (pTail s) (map hd (E @ (us @ vs) # L))"
    unfolding heads using R(6) unfolding levels_ok_def h2(3,6,7) .
  have maxl: "max_ok h2 (maxCurLevel s) (map hd (E @ (us @ vs) # L))"
    unfolding heads using R(7) unfolding max_ok_def h2(3) .
  from free_rep [OF rep ain same nodes sent groups sorted levels maxl] run show ?thesis by blast
qed

text \<open>The neighbours of a node on its levels.\<close>

abbreviation first_after :: "'a tnode_heap \<Rightarrow> addr \<Rightarrow> addr list \<Rightarrow> nat \<Rightarrow> addr" where
  "first_after h tail late i \<equiv> hd (on_level h i late @ [tail])"

lemma level_split:
  obtains pre post where "hdr # on_level h i early = pre @ [last_before h hdr early i]"
    "on_level h i late @ [tail] = first_after h tail late i # post"
proof -
  obtain pre where "hdr # on_level h i early = pre @ [last_before h hdr early i]"
    unfolding last_before_def by (metis append_butlast_last_id list.distinct(1))
  moreover obtain post where "on_level h i late @ [tail] = first_after h tail late i # post"
    by (cases "on_level h i late") auto
  ultimately show thesis by (rule that)
qed

lemma level_neighbours:
  assumes lv: "levels_ok h hdr tail (early @ a # late)" and i: "i < 16" "i < lvl h a"
    and sent: "sentinels_ok h hdr tail" and dist: "distinct (hdr # tail # early @ a # late)"
  shows "prev_at h i a = Some (last_before h hdr early i)" "next_at h i a = Some (first_after h tail late i)"
    "i < lvl h (last_before h hdr early i)" "i < lvl h (first_after h tail late i)"
    "last_before h hdr early i \<in> set (hdr # early)" "first_after h tail late i \<in> set (tail # late)"
proof -
  let ?p = "last_before h hdr early i" and ?q = "first_after h tail late i"
  obtain pre post where split: "hdr # on_level h i early = pre @ [?p]" "on_level h i late @ [tail] = ?q # post"
    by (rule level_split)
  have "chain (next_at h i) (prev_at h i) (hdr # on_level h i early @ a # on_level h i late @ [tail])"
    using lv [unfolded levels_ok_def, rule_format, OF i(1)] i(2) by simp
  moreover have "hdr # on_level h i early @ a # on_level h i late @ [tail] = pre @ ?p # a # ?q # post"
    using split by (metis append_Cons append_Nil append_assoc)
  ultimately have "chain (next_at h i) (prev_at h i) (pre @ ?p # a # ?q # post)"
      "chain (next_at h i) (prev_at h i) ((pre @ [?p]) @ a # ?q # post)" by simp_all
  then show "prev_at h i a = Some ?p" "next_at h i a = Some ?q" using chain_pair by metis+
  have pin: "?p \<in> set (hdr # on_level h i early)" unfolding split(1) by simp
  have qin: "?q \<in> set (on_level h i late @ [tail])" by (rule hd_in_set) simp
  show "i < lvl h ?p" "i < lvl h ?q" "?p \<in> set (hdr # early)" "?q \<in> set (tail # late)"
    using pin qin sent i(1) by (auto simp: sentinels_ok_def)
qed

lemma tl_unlink_levels:
  assumes "distinct levels"
    "\<forall>i\<in>set levels. prev_at h i node = Some (p i) \<and> next_at h i node = Some (q i) \<and> i < lvl h (p i) \<and> i < lvl h (q i)
       \<and> p i \<noteq> node \<and> q i \<noteq> node"
  shows "\<exists>h'. tl_unlink hdr tail h m node levels =
       Some (h', m - length (filter (\<lambda>i. 0 < i \<and> p i = hdr \<and> q i = tail) levels))
     \<and> same_fields h h' \<and> lvl h' = lvl h \<and> rnext h' = rnext h \<and> rprev h' = rprev h
     \<and> next_at h' = (\<lambda>i. if i \<in> set levels then (next_at h i)(p i := Some (q i)) else next_at h i)
     \<and> prev_at h' = (\<lambda>i. if i \<in> set levels then (prev_at h i)(q i := Some (p i)) else prev_at h i)"
  using assms
proof (induction levels arbitrary: h m)
  case Nil
  then show ?case by simp
next
  case (Cons i levels)
  have i: "prev_at h i node = Some (p i)" "next_at h i node = Some (q i)" "i < lvl h (p i)" "i < lvl h (q i)"
      "p i \<noteq> node" "q i \<noteq> node"
    using Cons.prems(2) by auto
  obtain h1 where h1: "set_next_at h i (p i) (q i) = Some h1" "same_fields h h1" "lvl h1 = lvl h" "rnext h1 = rnext h"
      "rprev h1 = rprev h" "next_at h1 = (next_at h)(i := (next_at h i)(p i := Some (q i)))" "prev_at h1 = prev_at h"
    using set_next_at_fields [OF i(3), of "q i"] by blast
  obtain h2 where h2: "set_prev_at h1 i (q i) (p i) = Some h2" "same_fields h1 h2" "lvl h2 = lvl h" "rnext h2 = rnext h"
      "rprev h2 = rprev h" "next_at h2 = next_at h1" "prev_at h2 = (prev_at h)(i := (prev_at h i)(q i := Some (p i)))"
    using set_prev_at_fields [of i h1 "q i" "p i"] h1 i(4) by auto
  let ?m = "if 0 < i \<and> p i = hdr \<and> q i = tail then m - 1 else m"
  have "\<forall>j\<in>set levels. prev_at h2 j node = Some (p j) \<and> next_at h2 j node = Some (q j) \<and> j < lvl h2 (p j) \<and> j < lvl h2 (q j)
       \<and> p j \<noteq> node \<and> q j \<noteq> node"
    using Cons.prems h1(6) h2(3,6,7) by auto
  with Cons.IH [of h2 ?m] Cons.prems(1) obtain h' where h': "tl_unlink hdr tail h2 ?m node levels =
        Some (h', ?m - length (filter (\<lambda>i. 0 < i \<and> p i = hdr \<and> q i = tail) levels))"
      "same_fields h2 h'" "lvl h' = lvl h2" "rnext h' = rnext h2" "rprev h' = rprev h2"
      "next_at h' = (\<lambda>i. if i \<in> set levels then (next_at h2 i)(p i := Some (q i)) else next_at h2 i)"
      "prev_at h' = (\<lambda>i. if i \<in> set levels then (prev_at h2 i)(q i := Some (p i)) else prev_at h2 i)"
    by auto
  have now: "prev_at h2 i node = Some (p i)" "next_at h2 i node = Some (q i)" using i h1(6) h2(6,7) by simp_all
  have "tl_unlink hdr tail h m node (i # levels) =
      Some (h', m - length (filter (\<lambda>i. 0 < i \<and> p i = hdr \<and> q i = tail) (i # levels)))"
    using i(1,2) h1(1) h2(1) h'(1) now by (auto split: if_splits)
  moreover have "next_at h' = (\<lambda>j. if j \<in> set (i # levels) then (next_at h j)(p j := Some (q j)) else next_at h j)"
    "prev_at h' = (\<lambda>j. if j \<in> set (i # levels) then (prev_at h j)(q j := Some (p j)) else prev_at h j)"
    using Cons.prems(1) h1(6) h2(6,7) unfolding h'(6,7) by (auto simp: fun_eq_iff)
  moreover have "same_fields h h'" using h1(2) h2(2) h'(2) by (meson same_fields_trans)
  ultimately show ?case using h' h2 by simp
qed

lemma levels_ok_delete:
  assumes lv: "levels_ok h hdr tail (early @ a # late)" and dist: "distinct (hdr # tail # early @ a # late)"
    and same: "lvl h' = lvl h"
    and nx: "next_at h' = (\<lambda>i. if i < lvl h a then (next_at h i)(last_before h hdr early i := Some (first_after h tail late i)) else next_at h i)"
    and pv: "prev_at h' = (\<lambda>i. if i < lvl h a then (prev_at h i)(first_after h tail late i := Some (last_before h hdr early i)) else prev_at h i)"
  shows "levels_ok h' hdr tail (early @ late)"
  unfolding levels_ok_def
proof (intro allI impI)
  fix i :: nat assume i: "i < 16"
  let ?p = "last_before h hdr early i" and ?q = "first_after h tail late i"
  show "chain (next_at h' i) (prev_at h' i) (hdr # on_level h' i (early @ late) @ [tail])"
  proof (cases "i < lvl h a")
    case True
    obtain pre post where split: "hdr # on_level h i early = pre @ [?p]" "on_level h i late @ [tail] = ?q # post"
      by (rule level_split)
    have eq: "hdr # on_level h i early @ a # on_level h i late @ [tail] = pre @ ?p # a # ?q # post"
      "hdr # on_level h i early @ on_level h i late @ [tail] = pre @ ?p # ?q # post"
      using split by (metis append_Cons append_Nil append_assoc)+
    have "chain (next_at h i) (prev_at h i) (pre @ ?p # a # ?q # post)"
      using lv [unfolded levels_ok_def, rule_format, OF i] True eq(1) by simp
    moreover have "distinct (pre @ ?p # a # ?q # post)" unfolding eq(1) [symmetric] using dist by auto
    ultimately have "chain ((next_at h i)(?p := Some ?q)) ((prev_at h i)(?q := Some ?p)) (pre @ ?p # ?q # post)"
      by (intro chain_delete [where n = a]) (auto simp: distinct_butlast distinct_tl)
    then show ?thesis using True nx pv same eq(2) by simp
  next
    case False
    with lv [unfolded levels_ok_def, rule_format, OF i] nx pv same show ?thesis by simp
  qed
qed

text \<open>\<open>maxCurLevel_\<close> goes down by one for every level above the first that the node leaves empty.\<close>

lemma filter_ge_upt: "filter (\<lambda>i. m \<le> i) [0..<k] = [m..<k]"
  by (induction k) auto

lemma max_ok_delete:
  assumes m: "max_ok h m (early @ a # late)"
    and empty: "\<And>i. 0 < i \<Longrightarrow> i < lvl h a \<Longrightarrow> P i \<longleftrightarrow> on_level h i (early @ late) = []"
  shows "max_ok h (m - length (filter (\<lambda>i. 0 < i \<and> P i) [0..<lvl h a])) (early @ late)"
proof -
  let ?A = "insert 1 (lvl h ` set (early @ late))"
  let ?M = "Max ?A"
  have le: "lvl h x \<le> ?M" if "x \<in> set (early @ late)" for x using that by (intro Max_ge) auto
  have one: "1 \<le> ?M" by (intro Max_ge) auto
  have in_A: "?M \<in> ?A" by (intro Max_in) auto
  have bound: "?M \<le> i \<longleftrightarrow> 1 \<le> i \<and> (\<forall>x\<in>set (early @ late). lvl h x \<le> i)" for i by (subst Max_le_iff) auto
  have "0 < i \<and> P i \<longleftrightarrow> ?M \<le> i" if "i < lvl h a" for i
    using empty [OF _ that] bound [of i] by (auto simp: filter_empty_conv not_less)
  then have "filter (\<lambda>i. 0 < i \<and> P i) [0..<lvl h a] = filter (\<lambda>i. ?M \<le> i) [0..<lvl h a]"
    by (intro filter_cong) auto
  then have count: "length (filter (\<lambda>i. 0 < i \<and> P i) [0..<lvl h a]) = lvl h a - ?M"
    by (simp only: filter_ge_upt length_upt)
  have "m = max (lvl h a) ?M"
  proof (rule antisym)
    have "m = 1 \<or> (\<exists>x\<in>set (early @ a # late). lvl h x = m)" using m unfolding max_ok_def by blast
    then show "m \<le> max (lvl h a) ?M" using one le by (auto simp: le_max_iff_disj)
    show "max (lvl h a) ?M \<le> m" using m by (auto simp: max_ok_def)
  qed
  then have eq: "m - (lvl h a - ?M) = ?M" by auto
  show ?thesis unfolding count eq max_ok_def using one le in_A by auto
qed

lemma leave_list_rep:
  assumes rep: "tl_rep s (E @ [a] # L)"
  shows "\<exists>s'. tl_remove s a = Some s' \<and> tl_rep s' (E @ L) \<and> tl_entries s' = (tl_entries s)(id_of (tl_heap s) a := None)"
proof -
  let ?h = "tl_heap s" and ?hdr = "pHeader s" and ?tail = "pTail s" and ?early = "map hd E" and ?late = "map hd L"
  let ?p = "last_before ?h ?hdr ?early" and ?q = "first_after ?h ?tail ?late"
  note R = tl_repD [OF rep]
  have gok: "group_ok ?h [a]" using R(4) by simp
  have sub: "set (map hd (E @ [a] # L)) \<subseteq> set (concat (E @ [a] # L))" using R(4) by (rule heads_subset)
  have "distinct (concat (E @ [a] # L))" using R(1) by simp
  from distinct_heads [OF this R(4)] sub R(1) have dist: "distinct (?hdr # ?tail # ?early @ a # ?late)" by auto
  have lv: "levels_ok ?h ?hdr ?tail (?early @ a # ?late)" using R(6) by simp
  have k: "0 < lvl ?h a" "lvl ?h a \<le> 16" using gok by (simp_all add: group_ok_def)
  obtain nd where nd: "?h a = Some nd" "tn_next nd = a" "tn_id nd = id_of ?h a" "length (tn_links nd) = lvl ?h a"
    using gok k by (auto simp: group_ok_def lvl_def rnext_def id_of_def split: option.splits)
  have "\<forall>i\<in>set [0..<lvl ?h a]. prev_at ?h i a = Some (?p i) \<and> next_at ?h i a = Some (?q i) \<and> i < lvl ?h (?p i)
      \<and> i < lvl ?h (?q i) \<and> ?p i \<noteq> a \<and> ?q i \<noteq> a"
  proof
    fix i assume "i \<in> set [0..<lvl ?h a]"
    then have i: "i < 16" "i < lvl ?h a" using k by auto
    note N = level_neighbours [OF lv i R(3) dist]
    have "?p i \<noteq> a" using N(5) dist by auto
    moreover have "?q i \<noteq> a" using N(6) dist by auto
    ultimately show "prev_at ?h i a = Some (?p i) \<and> next_at ?h i a = Some (?q i) \<and> i < lvl ?h (?p i)
      \<and> i < lvl ?h (?q i) \<and> ?p i \<noteq> a \<and> ?q i \<noteq> a" using N(1-4) by blast
  qed
  from tl_unlink_levels [OF distinct_upt this, of ?hdr ?tail "maxCurLevel s"]
  obtain h' where h': "tl_unlink ?hdr ?tail ?h (maxCurLevel s) a [0..<lvl ?h a] =
        Some (h', maxCurLevel s - length (filter (\<lambda>i. 0 < i \<and> ?p i = ?hdr \<and> ?q i = ?tail) [0..<lvl ?h a]))"
      "same_fields ?h h'" "lvl h' = lvl ?h" "rnext h' = rnext ?h" "rprev h' = rprev ?h"
      "next_at h' = (\<lambda>i. if i \<in> set [0..<lvl ?h a] then (next_at ?h i)(?p i := Some (?q i)) else next_at ?h i)"
      "prev_at h' = (\<lambda>i. if i \<in> set [0..<lvl ?h a] then (prev_at ?h i)(?q i := Some (?p i)) else prev_at ?h i)"
    by blast
  let ?m = "maxCurLevel s - length (filter (\<lambda>i. 0 < i \<and> ?p i = ?hdr \<and> ?q i = ?tail) [0..<lvl ?h a])"
  have "tn_links nd \<noteq> []" using nd(4) k(1) by auto
  then have run: "tl_remove s a = Some (s\<lparr>tl_heap := h'(a := None), maxCurLevel := ?m, nodeMap := (nodeMap s)(id_of ?h a := None)\<rparr>)"
    using nd h'(1) by (simp add: tl_remove_def Let_def)
  have ain: "a \<in> set (concat (E @ [a] # L))" by simp
  have nodes: "set (concat (E @ L)) = set (concat (E @ [a] # L)) - {a}" "distinct (concat (E @ L))" using R(1) by auto
  have sent: "sentinels_ok h' ?hdr ?tail" using R(3) h'(2,3) by (simp add: sentinels_ok_def same_fields_def)
  have groups: "\<forall>g\<in>set (E @ L). group_ok h' g"
  proof
    fix g assume g: "g \<in> set (E @ L)"
    have "\<forall>x\<in>set g. rnext h' x = rnext ?h x \<and> rprev h' x = rprev ?h x \<and> time_of h' x = time_of ?h x
        \<and> lvl h' x = lvl ?h x \<and> data_of h' x = data_of ?h x"
      using h'(2-5) by (simp add: same_fields_def)
    with other_groups [OF R(4) g] show "group_ok h' g" by (simp only: group_ok_cong)
  qed
  have sorted: "sorted_wrt (\<lambda>a b. time_of h' b < time_of h' a) (map hd (E @ L))"
    using R(5) h'(2) by (simp add: same_fields_def sorted_wrt_append)
  have levels: "levels_ok h' ?hdr ?tail (map hd (E @ L))"
    using levels_ok_delete [OF lv dist h'(3)] h'(6,7) by simp
  have maxl: "max_ok h' ?m (map hd (E @ L))"
  proof -
    have "max_ok ?h (maxCurLevel s) (?early @ a # ?late)" using R(7) by simp
    moreover have "(?p i = ?hdr \<and> ?q i = ?tail) \<longleftrightarrow> on_level ?h i (?early @ ?late) = []" for i
    proof -
      have "last_before ?h ?hdr ?early i = ?hdr \<longleftrightarrow> on_level ?h i ?early = []"
      proof (cases "on_level ?h i ?early")
        case (Cons x xs)
        then have "last_before ?h ?hdr ?early i = last (on_level ?h i ?early)" by (simp add: last_before_def)
        moreover have "last (on_level ?h i ?early) \<in> set ?early"
          using Cons last_in_set [of "on_level ?h i ?early"] by (metis filter_is_subset in_mono list.distinct(1))
        moreover have "?hdr \<notin> set ?early" using dist by simp
        ultimately have "last_before ?h ?hdr ?early i \<noteq> ?hdr" by metis
        with Cons show ?thesis by simp
      qed (simp add: last_before_def)
      moreover have "?q i = ?tail \<longleftrightarrow> on_level ?h i ?late = []"
      proof (cases "on_level ?h i ?late")
        case (Cons x xs)
        then have "x \<in> set ?late" by (metis filter_is_subset in_mono list.set_intros(1))
        moreover have "?tail \<notin> set ?late" using dist by simp
        ultimately have "x \<noteq> ?tail" by metis
        then show ?thesis using Cons by simp
      qed simp
      ultimately show ?thesis by simp
    qed
    ultimately have "max_ok ?h ?m (?early @ ?late)" by (rule max_ok_delete)
    then show ?thesis using max_ok_cong [of "?early @ ?late" h' ?h] h'(3) by simp
  qed
  from free_rep [OF rep ain h'(2) nodes sent groups sorted levels maxl] run show ?thesis by blast
qed

text \<open>The next entry of the group takes over the place of its head in the skip list.\<close>

lemma set_links_fields:
  assumes "a \<in> dom h"
  shows "\<exists>h'. set_links h a ls = Some h' \<and> same_fields h h' \<and> lvl h' = (lvl h)(a := length ls)
    \<and> rnext h' = rnext h \<and> rprev h' = rprev h
    \<and> next_at h' = (\<lambda>i. (next_at h i)(a := if i < length ls then fst (ls ! i) else None))
    \<and> prev_at h' = (\<lambda>i. (prev_at h i)(a := if i < length ls then snd (ls ! i) else None))"
proof -
  obtain nd where "h a = Some nd" using assms by blast
  then show ?thesis
    by (intro exI [of _ "h(a \<mapsto> nd\<lparr>tn_links := ls\<rparr>)"])
       (auto simp: set_links_def same_fields_def field_defs fun_eq_iff split: option.splits)
qed

lemma tl_relink_levels:
  assumes "distinct levels"
    "\<forall>i\<in>set levels. prev_at h i node = Some (p i) \<and> next_at h i node = Some (q i) \<and> i < lvl h (p i) \<and> i < lvl h (q i)
       \<and> p i \<noteq> node"
  shows "\<exists>h'. tl_relink h node levels = Some h' \<and> same_fields h h' \<and> lvl h' = lvl h \<and> rnext h' = rnext h \<and> rprev h' = rprev h
     \<and> next_at h' = (\<lambda>i. if i \<in> set levels then (next_at h i)(p i := Some node) else next_at h i)
     \<and> prev_at h' = (\<lambda>i. if i \<in> set levels then (prev_at h i)(q i := Some node) else prev_at h i)"
  using assms
proof (induction levels arbitrary: h)
  case Nil
  then show ?case by simp
next
  case (Cons i levels)
  have i: "prev_at h i node = Some (p i)" "next_at h i node = Some (q i)" "i < lvl h (p i)" "i < lvl h (q i)" "p i \<noteq> node"
    using Cons.prems(2) by auto
  obtain h1 where h1: "set_next_at h i (p i) node = Some h1" "same_fields h h1" "lvl h1 = lvl h" "rnext h1 = rnext h"
      "rprev h1 = rprev h" "next_at h1 = (next_at h)(i := (next_at h i)(p i := Some node))" "prev_at h1 = prev_at h"
    using set_next_at_fields [OF i(3), of node] by blast
  obtain h2 where h2: "set_prev_at h1 i (q i) node = Some h2" "same_fields h1 h2" "lvl h2 = lvl h" "rnext h2 = rnext h"
      "rprev h2 = rprev h" "next_at h2 = next_at h1" "prev_at h2 = (prev_at h)(i := (prev_at h i)(q i := Some node))"
    using set_prev_at_fields [of i h1 "q i" node] h1 i(4) by auto
  have "\<forall>j\<in>set levels. prev_at h2 j node = Some (p j) \<and> next_at h2 j node = Some (q j) \<and> j < lvl h2 (p j) \<and> j < lvl h2 (q j)
       \<and> p j \<noteq> node"
    using Cons.prems h1(6) h2(3,6,7) by auto
  with Cons.IH [of h2] Cons.prems(1) obtain h' where h': "tl_relink h2 node levels = Some h'"
      "same_fields h2 h'" "lvl h' = lvl h2" "rnext h' = rnext h2" "rprev h' = rprev h2"
      "next_at h' = (\<lambda>i. if i \<in> set levels then (next_at h2 i)(p i := Some node) else next_at h2 i)"
      "prev_at h' = (\<lambda>i. if i \<in> set levels then (prev_at h2 i)(q i := Some node) else prev_at h2 i)"
    by auto
  have "next_at h1 i node = Some (q i)" using i(2,5) h1(6) by simp
  then have "tl_relink h node (i # levels) = Some h'" using i(1) h1(1) h2(1) h'(1) by simp
  moreover have "next_at h' = (\<lambda>j. if j \<in> set (i # levels) then (next_at h j)(p j := Some node) else next_at h j)"
    "prev_at h' = (\<lambda>j. if j \<in> set (i # levels) then (prev_at h j)(q j := Some node) else prev_at h j)"
    using Cons.prems(1) h1(6) h2(6,7) unfolding h'(6,7) by (auto simp: fun_eq_iff)
  moreover have "same_fields h h'" using h1(2) h2(2) h'(2) by (meson same_fields_trans)
  ultimately show ?case using h' h2 by simp
qed

lemma chain_replace:
  assumes "chain nx pv (xs @ p # a # q # ys)" "distinct (xs @ p # a # q # ys)" "b \<notin> set (xs @ p # a # q # ys)"
  shows "chain (nx(b := Some q, p := Some b)) (pv(b := Some p, q := Some b)) (xs @ p # b # q # ys)"
proof -
  have "chain (nx(p := Some q)) (pv(q := Some p)) (xs @ p # q # ys)"
    using assms by (intro chain_delete [where n = a]) (auto simp: distinct_butlast distinct_tl)
  moreover have "distinct (butlast (xs @ p # q # ys))" "distinct (tl (xs @ p # q # ys))"
    using assms(2) by (intro distinct_butlast distinct_tl; auto)+
  ultimately have "chain ((nx(p := Some q))(b := Some q, p := Some b)) ((pv(q := Some p))(b := Some p, q := Some b)) (xs @ p # b # q # ys)"
    using assms(3) by (intro chain_insert) auto
  moreover have "(nx(p := Some q))(b := Some q, p := Some b) = nx(b := Some q, p := Some b)"
    "(pv(q := Some p))(b := Some p, q := Some b) = pv(b := Some p, q := Some b)"
    using assms(3) by (auto simp: fun_eq_iff)
  ultimately show ?thesis by simp
qed

lemma levels_ok_replace:
  assumes lv: "levels_ok h hdr tail (early @ a # late)" and dist: "distinct (hdr # tail # early @ a # late)"
    and b: "b \<notin> set (hdr # tail # early @ a # late)" and same: "lvl h' = (lvl h)(b := lvl h a, a := 0)"
    and nx: "next_at h' = (\<lambda>i. if i < lvl h a then (next_at h i)(b := Some (first_after h tail late i), a := None,
        last_before h hdr early i := Some b) else (next_at h i)(b := None, a := None))"
    and pv: "prev_at h' = (\<lambda>i. if i < lvl h a then (prev_at h i)(b := Some (last_before h hdr early i), a := None,
        first_after h tail late i := Some b) else (prev_at h i)(b := None, a := None))"
  shows "levels_ok h' hdr tail (early @ b # late)"
  unfolding levels_ok_def
proof (intro allI impI)
  fix i :: nat assume i: "i < 16"
  let ?p = "last_before h hdr early i" and ?q = "first_after h tail late i"
  have lvls: "on_level h' i early = on_level h i early" "on_level h' i late = on_level h i late"
    using dist b by (auto simp: same intro!: filter_cong)
  show "chain (next_at h' i) (prev_at h' i) (hdr # on_level h' i (early @ b # late) @ [tail])"
  proof (cases "i < lvl h a")
    case True
    obtain pre post where split: "hdr # on_level h i early = pre @ [?p]" "on_level h i late @ [tail] = ?q # post"
      by (rule level_split)
    have eq: "hdr # on_level h i early @ x # on_level h i late @ [tail] = pre @ ?p # x # ?q # post" for x
      using split by (metis append_Cons append_Nil append_assoc)
    have "chain (next_at h i) (prev_at h i) (pre @ ?p # a # ?q # post)"
      using lv [unfolded levels_ok_def, rule_format, OF i] True eq by simp
    moreover have d: "distinct (pre @ ?p # a # ?q # post)" "b \<notin> set (pre @ ?p # a # ?q # post)"
      unfolding eq [symmetric] using dist b by auto
    ultimately have "chain ((next_at h i)(b := Some ?q, ?p := Some b)) ((prev_at h i)(b := Some ?p, ?q := Some b)) (pre @ ?p # b # ?q # post)"
      by (rule chain_replace)
    moreover have "a \<notin> set (pre @ ?p # b # ?q # post)" using d by auto
    moreover have "next_at h' i = ((next_at h i)(b := Some ?q, ?p := Some b))(a := None)"
      "prev_at h' i = ((prev_at h i)(b := Some ?p, ?q := Some b))(a := None)"
      using True nx pv d by (auto simp: fun_eq_iff)
    ultimately have "chain (next_at h' i) (prev_at h' i) (pre @ ?p # b # ?q # post)"
      by (metis chain_update in_set_butlastD list.set_sel(2) tl_Nil)
    moreover have "b \<noteq> a" using b by auto
    ultimately show ?thesis using True same lvls eq by simp
  next
    case False
    then have "hdr # on_level h' i (early @ b # late) @ [tail] = hdr # on_level h i (early @ a # late) @ [tail]"
      using lvls same b by simp
    moreover have "chain (next_at h' i) (prev_at h' i) (hdr # on_level h i (early @ a # late) @ [tail]) \<longleftrightarrow>
        chain (next_at h i) (prev_at h i) (hdr # on_level h i (early @ a # late) @ [tail])"
      using False dist b nx pv by (intro chain_cong) (auto simp: butlast_append)
    ultimately show ?thesis using lv i by (simp only: levels_ok_def)
  qed
qed

lemma promote_fields:
  assumes rep: "tl_rep s (E @ (a # b # vs) # L)"
  defines "h \<equiv> tl_heap s" and "l \<equiv> last (b # vs)"
    and "p \<equiv> last_before (tl_heap s) (pHeader s) (map hd E)" and "q \<equiv> first_after (tl_heap s) (pTail s) (map hd L)"
  shows "\<exists>h'. tl_remove s a = Some (s\<lparr>tl_heap := h'(a := None), maxCurLevel := maxCurLevel s,
            nodeMap := (nodeMap s)(id_of h a := None)\<rparr>)
     \<and> same_fields h h' \<and> lvl h' = (lvl h)(b := lvl h a, a := 0)
     \<and> rnext h' = (rnext h)(l := Some b) \<and> rprev h' = (rprev h)(b := Some l)
     \<and> next_at h' = (\<lambda>i. if i < lvl h a then (next_at h i)(b := Some (q i), a := None, p i := Some b)
                         else (next_at h i)(b := None, a := None))
     \<and> prev_at h' = (\<lambda>i. if i < lvl h a then (prev_at h i)(b := Some (p i), a := None, q i := Some b)
                         else (prev_at h i)(b := None, a := None))"
proof -
  let ?hdr = "pHeader s" and ?tail = "pTail s" and ?early = "map hd E" and ?late = "map hd L" and ?g = "a # b # vs"
  note R = tl_repD [OF rep, folded h_def]
  have gok: "group_ok h ?g" using R(4) by simp
  have sub: "set (map hd (E @ ?g # L)) \<subseteq> set (concat (E @ ?g # L))" using R(4) by (rule heads_subset)
  have "distinct (concat (E @ ?g # L))" using R(1) by simp
  from distinct_heads [OF this R(4)] sub R(1) have dist: "distinct (?hdr # ?tail # ?early @ a # ?late)" by auto
  have b: "b \<notin> set (?hdr # ?tail # ?early @ a # ?late)"
  proof -
    have "b \<notin> hd ` set (E @ L)"
    proof
      assume "b \<in> hd ` set (E @ L)"
      then obtain g where g: "g \<in> set (E @ L)" "b = hd g" by auto
      have "group_ok h g" using R(4) g(1) by (rule other_groups)
      then have "b \<in> set g" using g(2) by (simp add: group_ok_def)
      with distinct_groups [OF R(1) g(1)] show False by auto
    qed
    with R(1) show ?thesis by auto
  qed
  have lv: "levels_ok h ?hdr ?tail (?early @ a # ?late)" using R(6) by simp
  have k: "0 < lvl h a" "lvl h a \<le> 16" "lvl h b = 0" using gok by (simp_all add: group_ok_def)
  have dom: "a \<in> dom h" "b \<in> dom h" "l \<in> dom h" using R(2) by (auto simp: l_def)
  have ring: "rnext h a = Some b" "rprev h a = Some l"
  proof -
    have c: "chain (rnext h) (rprev h) ((a # b # vs) @ [a])" using gok by (simp add: group_ok_def)
    then have "chain (rnext h) (rprev h) ((a # butlast (b # vs)) @ l # [a])"
      by (metis (no_types) append_Cons append_Nil append_assoc append_butlast_last_id l_def list.distinct(1))
    with chain_pair [OF this] c show "rnext h a = Some b" "rprev h a = Some l" by simp_all
  qed
  obtain nd where nd: "h a = Some nd" "tn_next nd = b" "tn_prev nd = l" "tn_id nd = id_of h a" "length (tn_links nd) = lvl h a"
    using dom(1) ring by (auto simp: rnext_def rprev_def id_of_def lvl_def)
  have nbr: "prev_at h i a = Some (p i)" "next_at h i a = Some (q i)" "i < lvl h (p i)" "i < lvl h (q i)"
      "p i \<in> set (?hdr # ?early)" "q i \<in> set (?tail # ?late)" if "i < lvl h a" for i
    using level_neighbours [OF lv _ that R(3) dist] that k(2) by (simp_all add: p_def q_def h_def)
  have links: "fst (tn_links nd ! i) = Some (q i)" "snd (tn_links nd ! i) = Some (p i)" if "i < lvl h a" for i
    using nbr(1,2) [OF that] nd(1,5) that by (auto simp: next_at_def prev_at_def)
  obtain h1 where h1: "set_ring_next h l b = Some h1" "same_fields h h1" "lvl h1 = lvl h"
      "rnext h1 = (rnext h)(l := Some b)" "rprev h1 = rprev h" "next_at h1 = next_at h" "prev_at h1 = prev_at h"
    using set_ring_next_fields [OF dom(3), of b] by blast
  have "b \<in> dom h1" using dom h1(2) by (simp add: same_fields_def)
  from set_ring_prev_fields [OF this, of l] obtain h2 where h2: "set_ring_prev h1 b l = Some h2" "same_fields h1 h2"
      "lvl h2 = lvl h" "rprev h2 = (rprev h)(b := Some l)" "rnext h2 = rnext h1" "next_at h2 = next_at h" "prev_at h2 = prev_at h"
    using h1 by auto
  have "b \<in> dom h2" using dom h1(2) h2(2) by (simp add: same_fields_def)
  from set_links_fields [OF this, of "tn_links nd"] obtain h3 where h3: "set_links h2 b (tn_links nd) = Some h3" "same_fields h2 h3"
      "lvl h3 = (lvl h)(b := lvl h a)" "rnext h3 = rnext h2" "rprev h3 = rprev h2"
      "next_at h3 = (\<lambda>i. (next_at h i)(b := if i < lvl h a then fst (tn_links nd ! i) else None))"
      "prev_at h3 = (\<lambda>i. (prev_at h i)(b := if i < lvl h a then snd (tn_links nd ! i) else None))"
    using h2 nd(5) by auto
  have "a \<in> dom h3" using dom h1(2) h2(2) h3(2) by (simp add: same_fields_def)
  from set_links_fields [OF this, of "[]"] obtain h4 where h4: "set_links h3 a [] = Some h4" "same_fields h3 h4"
      "lvl h4 = (lvl h)(b := lvl h a, a := 0)" "rnext h4 = rnext h3" "rprev h4 = rprev h3"
      "next_at h4 = (\<lambda>i. (next_at h3 i)(a := None))" "prev_at h4 = (\<lambda>i. (prev_at h3 i)(a := None))"
    using h3(3) by auto
  have nb: "p i \<noteq> b \<and> p i \<noteq> a \<and> q i \<noteq> b \<and> q i \<noteq> a" if "i < lvl h a" for i
    using nbr(5,6) [OF that] b dist by auto
  have "\<forall>i\<in>set [0..<lvl h a]. prev_at h4 i b = Some (p i) \<and> next_at h4 i b = Some (q i) \<and> i < lvl h4 (p i) \<and> i < lvl h4 (q i)
       \<and> p i \<noteq> b"
    using nbr(3,4) nb links b unfolding h4(3,6,7) h3(6,7) by auto
  from tl_relink_levels [OF distinct_upt this] obtain h5 where h5: "tl_relink h4 b [0..<lvl h a] = Some h5" "same_fields h4 h5"
      "lvl h5 = lvl h4" "rnext h5 = rnext h4" "rprev h5 = rprev h4"
      "next_at h5 = (\<lambda>i. if i \<in> set [0..<lvl h a] then (next_at h4 i)(p i := Some b) else next_at h4 i)"
      "prev_at h5 = (\<lambda>i. if i \<in> set [0..<lvl h a] then (prev_at h4 i)(q i := Some b) else prev_at h4 i)"
    by blast
  have "b \<noteq> a" "tn_links nd \<noteq> []" using b k(1) nd(5) by auto
  then have "tl_remove s a = Some (s\<lparr>tl_heap := h5(a := None), maxCurLevel := maxCurLevel s,
      nodeMap := (nodeMap s)(id_of h a := None)\<rparr>)"
    using nd h1(1) h2(1) h3(1) h4(1) h5(1) by (simp add: tl_remove_def Let_def h_def [symmetric])
  moreover have "same_fields h h5" using h1(2) h2(2) h3(2) h4(2) h5(2) by (meson same_fields_trans)
  moreover have "next_at h5 = (\<lambda>i. if i < lvl h a then (next_at h i)(b := Some (q i), a := None, p i := Some b)
      else (next_at h i)(b := None, a := None))"
    unfolding h5(6) h4(6) h3(6) using links(1) by (auto simp: fun_eq_iff)
  moreover have "prev_at h5 = (\<lambda>i. if i < lvl h a then (prev_at h i)(b := Some (p i), a := None, q i := Some b)
      else (prev_at h i)(b := None, a := None))"
    unfolding h5(7) h4(7) h3(7) using links(2) by (auto simp: fun_eq_iff)
  ultimately show ?thesis using h1(4) h2(4,5) h3(4,5) h4(3,4,5) h5(3,4,5) by auto
qed

lemma promote_rep:
  assumes rep: "tl_rep s (E @ (a # b # vs) # L)"
  shows "\<exists>s'. tl_remove s a = Some s' \<and> tl_rep s' (E @ (b # vs) # L) \<and> tl_entries s' = (tl_entries s)(id_of (tl_heap s) a := None)"
proof -
  let ?h = "tl_heap s" and ?hdr = "pHeader s" and ?tail = "pTail s" and ?early = "map hd E" and ?late = "map hd L"
  let ?g = "a # b # vs" and ?l = "last (b # vs)"
  let ?p = "last_before ?h ?hdr ?early" and ?q = "first_after ?h ?tail ?late"
  note R = tl_repD [OF rep]
  have gok: "group_ok ?h ?g" using R(4) by simp
  have sub: "set (map hd (E @ ?g # L)) \<subseteq> set (concat (E @ ?g # L))" using R(4) by (rule heads_subset)
  have dg: "distinct ?g" using R(1) by auto
  have other: "x \<notin> set ?g" if "x \<in> set (?hdr # ?tail # ?early @ ?late)" for x
  proof -
    have "set ?g \<inter> set g = {} \<and> hd g \<in> set g" if "g \<in> set (E @ L)" for g
      using distinct_groups [OF R(1) that] other_groups [OF R(4) that] by (simp add: group_ok_def)
    then have "x \<notin> set ?g" if "x \<in> hd ` set (E @ L)" using that by blast
    with R(1) that show ?thesis by auto
  qed
  have "distinct (concat (E @ ?g # L))" using R(1) by simp
  from distinct_heads [OF this R(4)] sub R(1) have dist: "distinct (?hdr # ?tail # ?early @ a # ?late)" by auto
  have b: "b \<notin> set (?hdr # ?tail # ?early @ a # ?late)" using other [of b] dg by auto
  obtain h' where run: "tl_remove s a = Some (s\<lparr>tl_heap := h'(a := None), maxCurLevel := maxCurLevel s,
            nodeMap := (nodeMap s)(id_of ?h a := None)\<rparr>)"
    and same: "same_fields ?h h'" and F: "lvl h' = (lvl ?h)(b := lvl ?h a, a := 0)"
      "rnext h' = (rnext ?h)(?l := Some b)" "rprev h' = (rprev ?h)(b := Some ?l)"
      "next_at h' = (\<lambda>i. if i < lvl ?h a then (next_at ?h i)(b := Some (?q i), a := None, ?p i := Some b)
                         else (next_at ?h i)(b := None, a := None))"
      "prev_at h' = (\<lambda>i. if i < lvl ?h a then (prev_at ?h i)(b := Some (?p i), a := None, ?q i := Some b)
                         else (prev_at ?h i)(b := None, a := None))"
    using promote_fields [OF rep] by blast
  have lset: "?l \<in> set (b # vs)" by (rule last_in_set) simp
  have ain: "a \<in> set (concat (E @ ?g # L))" by simp
  have nodes: "set (concat (E @ (b # vs) # L)) = set (concat (E @ ?g # L)) - {a}" "distinct (concat (E @ (b # vs) # L))"
    using R(1) by auto
  have lvls: "lvl h' x = lvl ?h x" if "x \<in> set (?hdr # ?tail # ?early @ ?late)" for x
    using other [OF that] by (auto simp: F(1))
  have sent: "sentinels_ok h' ?hdr ?tail" using R(3) same lvls by (simp add: sentinels_ok_def same_fields_def)
  have keep: "group_ok h' g" if "g \<in> set (E @ L)" for g
  proof -
    have "set ?g \<inter> set g = {}" using R(1) that by (rule distinct_groups)
    then have "\<forall>x\<in>set g. x \<noteq> a \<and> x \<noteq> b \<and> x \<noteq> ?l" using lset by auto
    then have "\<forall>x\<in>set g. rnext h' x = rnext ?h x \<and> rprev h' x = rprev ?h x \<and> time_of h' x = time_of ?h x
        \<and> lvl h' x = lvl ?h x \<and> data_of h' x = data_of ?h x"
      using same by (simp add: F same_fields_def)
    with other_groups [OF R(4) that] show ?thesis by (simp only: group_ok_cong)
  qed
  have gb: "group_ok h' (b # vs)"
  proof -
    have "chain (rnext ?h) (rprev ?h) (a # (b # vs) @ [a])" using gok by (simp add: group_ok_def)
    moreover have bl: "b # vs = butlast (b # vs) @ [?l]" by simp
    ultimately have "chain (rnext ?h) (rprev ?h) (a # butlast (b # vs) @ [?l, a])"
      by (metis append_Cons append_Nil append_assoc)
    moreover have "distinct (butlast (b # vs) @ [?l])" "b = hd (butlast (b # vs) @ [?l])" using dg bl by (metis distinct.simps(2), metis list.sel(1))
    ultimately have "chain (rnext h') (rprev h') (butlast (b # vs) @ [?l, b])" unfolding F(2,3) by (rule chain_ring_tail)
    moreover have "butlast (b # vs) @ [?l, b] = (b # vs) @ [hd (b # vs)]" using bl by (metis append_Cons append_Nil append_assoc list.sel(1))
    ultimately have "chain (rnext h') (rprev h') ((b # vs) @ [hd (b # vs)])" by (simp only:)
    moreover obtain t where "0 < t" "t < CORPC_MAX_UINT64" "\<forall>x\<in>set ?g. time_of ?h x = t" using gok unfolding group_ok_def by blast
    then have "\<exists>t. 0 < t \<and> t < CORPC_MAX_UINT64 \<and> (\<forall>x\<in>set (b # vs). time_of h' x = t)"
      using same by (intro exI [of _ t]) (simp add: same_fields_def)
    moreover have "\<forall>x\<in>set vs. lvl ?h x = 0" "0 < lvl ?h a" "lvl ?h a \<le> 16" "\<forall>x\<in>set ?g. data_of ?h x \<noteq> None"
      using gok by (simp_all add: group_ok_def)
    ultimately show ?thesis using dg same by (simp add: group_ok_def F(1) same_fields_def) auto
  qed
  have groups: "\<forall>g\<in>set (E @ (b # vs) # L). group_ok h' g" using keep gb by auto
  have tb: "time_of ?h b = time_of ?h a" using gok unfolding group_ok_def by auto
  have sorted: "sorted_wrt (\<lambda>a b. time_of h' b < time_of h' a) (map hd (E @ (b # vs) # L))"
    using R(5) same tb by (simp add: same_fields_def sorted_wrt_append)
  have levels: "levels_ok h' ?hdr ?tail (map hd (E @ (b # vs) # L))"
    using levels_ok_replace [OF _ dist b F(1) F(4,5)] R(6) by simp
  have maxl: "max_ok h' (maxCurLevel s) (map hd (E @ (b # vs) # L))"
  proof -
    have "lvl h' ` set (?early @ ?late) = lvl ?h ` set (?early @ ?late)" using lvls by (intro image_cong) auto
    moreover have "lvl h' b = lvl ?h a" using b by (simp add: F(1))
    ultimately have "lvl h' ` set (?early @ b # ?late) = lvl ?h ` set (?early @ a # ?late)" by (simp add: image_Un)
    moreover have "map hd (E @ (b # vs) # L) = ?early @ b # ?late" "map hd (E @ ?g # L) = ?early @ a # ?late" by simp_all
    ultimately show ?thesis using R(7) by (auto simp only: max_ok_image)
  qed
  from free_rep [OF rep ain same nodes sent groups sorted levels maxl] run show ?thesis by blast
qed

lemma tl_remove_rep:
  assumes rep: "tl_rep s gs" and a: "a \<in> set (concat gs)"
  shows "\<exists>s'. tl_remove s a = Some s' \<and> tl_inv s' \<and> tl_entries s' = (tl_entries s)(id_of (tl_heap s) a := None)"
proof -
  obtain g where "g \<in> set gs" "a \<in> set g" using a by auto
  then obtain E L us vs where gs: "gs = E @ (us @ a # vs) # L" by (metis split_list)
  show ?thesis
  proof (cases "us = []")
    case False
    from leave_ring_rep [OF rep [unfolded gs] False] show ?thesis unfolding tl_inv_def by blast
  next
    case us: True
    show ?thesis
    proof (cases vs)
      case Nil
      have "tl_rep s (E @ [a] # L)" using rep us Nil by (simp add: gs)
      from leave_list_rep [OF this] show ?thesis unfolding tl_inv_def by blast
    next
      case (Cons b vs')
      have "tl_rep s (E @ (a # b # vs') # L)" using rep us Cons by (simp add: gs)
      from promote_rep [OF this] show ?thesis unfolding tl_inv_def by blast
    qed
  qed
qed

end
