(* ===== verification/TimeoutQueue.thy ===== *)
theory TimeoutQueue
  imports TimeoutList
begin

text \<open>
  The queries of \<open>TimeoutList<T>\<close>, its destructor, and the contract \<open>timeout_queue\<close> that the routine
  environment relies on, with its interpretation on the skip list.
\<close>

section \<open>Looking up\<close>

lemma group_ok_not_Nil: "group_ok h g \<Longrightarrow> g \<noteq> []"
  unfolding group_ok_def by (elim conjE)

lemma group_ok_times: "group_ok h g \<Longrightarrow> \<exists>t. 0 < t \<and> t < CORPC_MAX_UINT64 \<and> (\<forall>a\<in>set g. time_of h a = t)"
  unfolding group_ok_def by (elim conjE)

lemma group_ok_data: "group_ok h g \<Longrightarrow> \<forall>a\<in>set g. data_of h a \<noteq> None"
  unfolding group_ok_def by (elim conjE)

lemma tl_getLast_rep:
  assumes rep: "tl_rep s gs"
  shows "tl_getLast s = Some (if gs = [] then None else Some (last (last gs)))"
proof -
  let ?h = "tl_heap s"
  note R = tl_repD [OF rep]
  have all: "on_level ?h 0 (map hd gs) = map hd gs" using R(4) by (rule heads_on_level)
  have ch: "chain (next_at ?h 0) (prev_at ?h 0) (pHeader s # map hd gs @ [pTail s])"
    using R(6) [unfolded levels_ok_def, rule_format, of 0] all by simp
  show ?thesis
  proof (cases gs rule: rev_cases)
    case Nil
    with ch show ?thesis by (simp add: tl_getLast_def)
  next
    case (snoc gs' g)
    have gok: "group_ok ?h g" using R(4) snoc by simp
    then have g: "g \<noteq> []" "chain (rnext ?h) (rprev ?h) (g @ [hd g])" by (simp_all add: group_ok_def)
    have "chain (next_at ?h 0) (prev_at ?h 0) ((pHeader s # map hd gs') @ hd g # pTail s # [])" using ch snoc by simp
    then have n: "prev_at ?h 0 (pTail s) = Some (hd g)" using chain_pair by metis
    have "hd g \<in> set (concat gs)" using snoc g(1) by simp
    then have ne: "hd g \<noteq> pHeader s" "hd g \<in> dom ?h" using R(1,2) by auto
    have "g @ [hd g] = butlast g @ last g # hd g # []" using g(1) by (metis append_Cons append_Nil append_assoc append_butlast_last_id)
    with g(2) have "rprev ?h (hd g) = Some (last g)" using chain_pair by metis
    with n ne snoc show ?thesis by (auto simp: tl_getLast_def rprev_def)
  qed
qed

lemma tl_empty_rep:
  assumes rep: "tl_rep s gs"
  shows "tl_empty s = Some (gs = [])"
proof -
  let ?h = "tl_heap s"
  note R = tl_repD [OF rep]
  have all: "on_level ?h 0 (map hd gs) = map hd gs" using R(4) by (rule heads_on_level)
  have ch: "chain (next_at ?h 0) (prev_at ?h 0) (pHeader s # map hd gs @ [pTail s])"
    using R(6) [unfolded levels_ok_def, rule_format, of 0] all by simp
  show ?thesis
  proof (cases gs)
    case Nil
    with ch show ?thesis by (simp add: tl_empty_def)
  next
    case (Cons g gs')
    then have "hd g \<in> set (concat gs)" using R(4) by (simp add: group_ok_def)
    with R(1) have "hd g \<noteq> pTail s" by auto
    with ch Cons show ?thesis by (simp add: tl_empty_def)
  qed
qed

lemma tl_entries_node:
  assumes rep: "tl_rep s gs" and a: "a \<in> set (concat gs)"
  obtains d where "nodeMap s (id_of (tl_heap s) a) = Some a" "data_of (tl_heap s) a = Some d"
    "tl_entries s (id_of (tl_heap s) a) = Some (time_of (tl_heap s) a, d)"
proof -
  note R = tl_repD [OF rep]
  have m: "nodeMap s (id_of (tl_heap s) a) = Some a" using R(8) a by blast
  obtain g where "g \<in> set gs" "a \<in> set g" using a by auto
  then obtain d where "data_of (tl_heap s) a = Some d" using R(4) group_ok_data by blast
  with m that show thesis by (simp add: tl_entries_def)
qed

lemma last_is_earliest:
  assumes rep: "tl_rep s gs" "gs \<noteq> []" and e: "tl_entries s j = Some (t', d')"
  shows "time_of (tl_heap s) (last (last gs)) \<le> t'"
proof -
  let ?h = "tl_heap s"
  note R = tl_repD [OF rep(1)]
  obtain gs' g where gs: "gs = gs' @ [g]" using rep(2) by (metis rev_exhaust)
  have times: "time_of ?h x = time_of ?h (hd g')" if "g' \<in> set gs" "x \<in> set g'" for x g'
  proof -
    have g': "group_ok ?h g'" using R(4) that(1) by blast
    obtain t where "\<forall>x\<in>set g'. time_of ?h x = t" using group_ok_times [OF g'] by blast
    with that(2) group_ok_not_Nil [OF g'] show ?thesis by simp
  qed
  obtain x where x: "nodeMap s j = Some x" "t' = time_of ?h x" using e by (auto simp: tl_entries_def)
  then have "x \<in> set (concat gs)" using R(8) by blast
  then obtain g' where g': "g' \<in> set gs" "x \<in> set g'" by auto
  have "group_ok ?h g" using R(4) gs by simp
  then have "last g \<in> set g" by (intro last_in_set group_ok_not_Nil)
  then have "time_of ?h (last (last gs)) = time_of ?h (hd g)" using times [of g "last g"] gs by simp
  also have "\<dots> \<le> time_of ?h (hd g')" using R(5) g'(1) gs by (auto simp: sorted_wrt_append intro: less_imp_le)
  also have "\<dots> = t'" using times [OF g'] x(2) by simp
  finally show ?thesis .
qed

section \<open>The contract\<close>

text \<open>
  What the timeout handling of the routine environment relies on, whatever the data structure: a finite
  map from identifiers to times and data, with a way to find the entry that expires first.  \<open>node\<close> is
  what a node pointer gives access to.
\<close>

locale timeout_queue =
  fixes ins :: "(nat \<Rightarrow> u32) \<Rightarrow> addr \<Rightarrow> 's \<Rightarrow> u64 \<Rightarrow> u64 \<Rightarrow> 'a \<Rightarrow> 's option"
    and rem :: "'s \<Rightarrow> addr \<Rightarrow> 's option" and first :: "'s \<Rightarrow> addr option option" and find :: "'s \<Rightarrow> u64 \<Rightarrow> addr option"
    and node :: "'s \<Rightarrow> addr \<Rightarrow> (u64 \<times> u64 \<times> 'a) option" and free_addr :: "'s \<Rightarrow> addr \<Rightarrow> bool"
    and inv :: "'s \<Rightarrow> bool" and entries :: "'s \<Rightarrow> u64 \<Rightarrow> (u64 \<times> 'a) option"
  assumes ins_ok: "inv s \<Longrightarrow> entries s i = None \<Longrightarrow> free_addr s new \<Longrightarrow> 0 < t \<Longrightarrow> t < CORPC_MAX_UINT64 \<Longrightarrow>
      \<exists>s'. ins rnd new s i t d = Some s' \<and> inv s' \<and> entries s' = (entries s)(i \<mapsto> (t, d))"
    and find_ok: "inv s \<Longrightarrow> (case find s i of None \<Rightarrow> entries s i = None
      | Some n \<Rightarrow> \<exists>t d. entries s i = Some (t, d) \<and> node s n = Some (i, t, d))"
    and rem_ok: "inv s \<Longrightarrow> find s i = Some n \<Longrightarrow> \<exists>s'. rem s n = Some s' \<and> inv s' \<and> entries s' = (entries s)(i := None)"
    and first_ok: "inv s \<Longrightarrow> (if entries s = Map.empty then first s = Some None
      else \<exists>n i t d. first s = Some (Some n) \<and> find s i = Some n \<and> entries s i = Some (t, d)
             \<and> (\<forall>j t' d'. entries s j = Some (t', d') \<longrightarrow> t \<le> t'))"
    and finite_entries: "inv s \<Longrightarrow> finite (dom (entries s))"
    and entry_times: "inv s \<Longrightarrow> entries s i = Some (t, d) \<Longrightarrow> 0 < t"
begin

lemma find_Some: "inv s \<Longrightarrow> entries s i = Some (t, d) \<Longrightarrow> \<exists>n. find s i = Some n \<and> node s n = Some (i, t, d)"
  using find_ok [of s i] by (auto split: option.splits)

lemma find_None: "inv s \<Longrightarrow> entries s i = None \<Longrightarrow> find s i = None"
  using find_ok [of s i] by (auto split: option.splits)

lemma first_Some:
  assumes "inv s" "first s = Some (Some n)"
  obtains i t d where "entries s i = Some (t, d)" "node s n = Some (i, t, d)" "find s i = Some n"
    "\<And>j t' d'. entries s j = Some (t', d') \<Longrightarrow> t \<le> t'"
proof -
  from first_ok [OF assms(1)] assms(2) obtain i t d where *: "find s i = Some n" "entries s i = Some (t, d)"
      "\<forall>j t' d'. entries s j = Some (t', d') \<longrightarrow> t \<le> t'"
    by (auto split: if_splits)
  moreover have "node s n = Some (i, t, d)" using find_ok [OF assms(1), of i] * by auto
  ultimately show thesis using that by blast
qed

lemma first_total: "inv s \<Longrightarrow> \<exists>r. first s = Some r \<and> (r = None \<longleftrightarrow> entries s = Map.empty)"
  using first_ok [of s] by (auto split: if_splits)

lemma rem_smaller:
  assumes "inv s" "entries s i = Some e" "entries s' = (entries s)(i := None)"
  shows "card (dom (entries s')) < card (dom (entries s))"
proof -
  have "dom (entries s') = dom (entries s) - {i}" "i \<in> dom (entries s)" using assms(2,3) by auto
  with finite_entries [OF assms(1)] show ?thesis by (metis card_Diff1_less)
qed

end

definition tl_node :: "'a TimeoutList \<Rightarrow> addr \<Rightarrow> (u64 \<times> u64 \<times> 'a) option" where
  "tl_node s a = do { nd \<leftarrow> tl_heap s a; d \<leftarrow> tn_data nd; Some (tn_id nd, tn_expireTime nd, d) }"

lemma tl_entries_None_iff: "tl_entries s i = None \<longleftrightarrow> nodeMap s i = None"
  by (simp add: tl_entries_def)

interpretation tlq: timeout_queue tl_insert tl_remove tl_getLast tl_getNode tl_node "\<lambda>s a. tl_heap s a = None" tl_inv tl_entries
proof unfold_locales
  fix s :: "'a TimeoutList" and i t :: u64 and d :: 'a and new n rnd
  assume inv: "tl_inv s"
  then obtain gs where rep: "tl_rep s gs" by (auto simp: tl_inv_def)
  note R = tl_repD [OF rep]
  show "\<exists>s'. tl_insert rnd new s i t d = Some s' \<and> tl_inv s' \<and> tl_entries s' = (tl_entries s)(i \<mapsto> (t, d))"
    if "tl_entries s i = None" "tl_heap s new = None" "0 < t" "t < CORPC_MAX_UINT64"
    using that inv by (intro tl_insert_rep) (simp_all add: tl_entries_None_iff)
  have find: "\<exists>t d. tl_entries s i = Some (t, d) \<and> tl_node s n = Some (i, t, d) \<and> n \<in> set (concat gs) \<and> id_of (tl_heap s) n = i"
    if "tl_getNode s i = Some n" for i n
  proof -
    have n: "n \<in> set (concat gs)" "id_of (tl_heap s) n = i" using that R(8) by (auto simp: tl_getNode_def)
    obtain d where "data_of (tl_heap s) n = Some d" "tl_entries s i = Some (time_of (tl_heap s) n, d)"
      using tl_entries_node [OF rep n(1)] n(2) by metis
    with n show ?thesis by (auto simp: tl_node_def data_of_def time_of_def id_of_def split: option.splits)
  qed
  show "case tl_getNode s i of None \<Rightarrow> tl_entries s i = None
      | Some n \<Rightarrow> \<exists>t d. tl_entries s i = Some (t, d) \<and> tl_node s n = Some (i, t, d)"
  proof (cases "tl_getNode s i")
    case None
    then show ?thesis by (simp add: tl_entries_None_iff tl_getNode_def)
  next
    case (Some n)
    with find [OF Some] show ?thesis by auto
  qed
  show "\<exists>s'. tl_remove s n = Some s' \<and> tl_inv s' \<and> tl_entries s' = (tl_entries s)(i := None)" if "tl_getNode s i = Some n"
    using find [OF that] tl_remove_rep [OF rep] by blast
  have dom: "dom (tl_entries s) = id_of (tl_heap s) ` set (concat gs)"
  proof (rule set_eqI)
    fix k
    have "k \<in> dom (tl_entries s) \<longleftrightarrow> nodeMap s k \<noteq> None" using tl_entries_None_iff [of s k] by auto
    then show "k \<in> dom (tl_entries s) \<longleftrightarrow> k \<in> id_of (tl_heap s) ` set (concat gs)" using R(8) by auto
  qed
  show "finite (dom (tl_entries s))" unfolding dom by simp
  show "if tl_entries s = Map.empty then tl_getLast s = Some None
      else \<exists>n i t d. tl_getLast s = Some (Some n) \<and> tl_getNode s i = Some n \<and> tl_entries s i = Some (t, d)
             \<and> (\<forall>j t' d'. tl_entries s j = Some (t', d') \<longrightarrow> t \<le> t')"
  proof (cases "gs = []")
    case True
    with dom have "tl_entries s = Map.empty" by auto
    with True tl_getLast_rep [OF rep] show ?thesis by simp
  next
    case False
    let ?a = "last (last gs)"
    have "last gs \<in> set gs" using False by simp
    moreover then have "last gs \<noteq> []" using R(4) group_ok_not_Nil by blast
    ultimately have a: "?a \<in> set (concat gs)" by (metis UN_I last_in_set set_concat)
    obtain d where d: "nodeMap s (id_of (tl_heap s) ?a) = Some ?a"
        "tl_entries s (id_of (tl_heap s) ?a) = Some (time_of (tl_heap s) ?a, d)"
      by (rule tl_entries_node [OF rep a])
    moreover have "tl_getLast s = Some (Some ?a)" using tl_getLast_rep [OF rep] False by simp
    moreover have "\<forall>j t' d'. tl_entries s j = Some (t', d') \<longrightarrow> time_of (tl_heap s) ?a \<le> t'"
      using last_is_earliest [OF rep False] by blast
    moreover have "tl_entries s \<noteq> Map.empty" using d(2) by auto
    ultimately show ?thesis by (auto simp: tl_getNode_def)
  qed
  show "0 < t" if e: "tl_entries s i = Some (t, d)"
  proof -
    obtain x where x: "nodeMap s i = Some x" "t = time_of (tl_heap s) x" using e by (auto simp: tl_entries_def)
    then have "x \<in> set (concat gs)" using R(8) by blast
    then obtain g where "g \<in> set gs" "x \<in> set g" by auto
    with R(4) have "\<exists>t. 0 < t \<and> t < CORPC_MAX_UINT64 \<and> (\<forall>a\<in>set g. time_of (tl_heap s) a = t)" by (intro group_ok_times) blast
    with \<open>x \<in> set g\<close> x(2) show ?thesis by auto
  qed
qed

lemma new_TimeoutList_inv: "hdr \<noteq> tail \<Longrightarrow> tl_inv (new_TimeoutList hdr tail junk)"
  unfolding tl_inv_def using new_TimeoutList_rep by blast

section \<open>The destructor\<close>

lemma tl_free_ring_frees:
  assumes "chain (rnext h) pv (xs @ [a])" "distinct (xs @ [a])" "set xs \<subseteq> dom h"
  shows "tl_free_ring h a (hd (xs @ [a])) = Some (h |` (- set xs))"
  using assms
proof (induction xs arbitrary: h)
  case Nil
  then show ?case by (subst tl_free_ring.simps) (simp add: restrict_map_def)
next
  case (Cons x xs)
  obtain nd where nd: "h x = Some nd" using Cons.prems(3) by auto
  obtain y ys where y: "xs @ [a] = y # ys" by (cases xs) auto
  have nxt: "tn_next nd = y" using Cons.prems(1) nd y by (simp add: rnext_def)
  have "chain (rnext h) pv (xs @ [a])" using Cons.prems(1) y by simp
  moreover have "x \<notin> set (xs @ [a])" using Cons.prems(2) by auto
  ultimately have "chain (rnext (h(x := None))) pv (xs @ [a])"
    by (subst chain_cong [where nx' = "rnext h" and pv' = pv]) (auto simp: rnext_def dest: in_set_butlastD)
  then have "tl_free_ring (h(x := None)) a (hd (xs @ [a])) = Some (h(x := None) |` (- set xs))"
    by (rule Cons.IH) (use Cons.prems(2,3) in auto)
  moreover have "h(x := None) |` (- set xs) = h |` (- set (x # xs))" by (auto simp: restrict_map_def fun_eq_iff)
  moreover have "x \<noteq> a" using Cons.prems(2) by auto
  ultimately show ?case using nd nxt y by (subst tl_free_ring.simps) simp
qed

lemma tl_free_all_frees:
  assumes "chain (next_at h 0) pv (map hd gs @ [tail])" "\<forall>g\<in>set gs. g \<noteq> [] \<and> (\<exists>pv. chain (rnext h) pv (g @ [hd g]))"
    "distinct (tail # concat gs)" "set (concat gs) \<subseteq> dom h"
  shows "tl_free_all h tail (hd (map hd gs @ [tail])) = Some (h |` (- set (concat gs)))"
  using assms
proof (induction gs arbitrary: h)
  case Nil
  then show ?case by (subst tl_free_all.simps) (simp add: restrict_map_def)
next
  case (Cons g gs)
  obtain a os where g: "g = a # os" using Cons.prems(2) by (cases g) auto
  obtain n ns where n: "map hd gs @ [tail] = n # ns" by (cases gs) auto
  obtain nd where nd: "h a = Some nd" using Cons.prems(4) g by auto
  have nxt: "next_at h 0 a = Some n" "chain (next_at h 0) pv (map hd gs @ [tail])" using Cons.prems(1) g n by simp_all
  obtain pv' where "chain (rnext h) pv' (a # os @ [a])" using Cons.prems(2) g by auto
  then have ring: "tn_next nd = hd (os @ [a])" "chain (rnext h) pv' (os @ [a])"
    using nd by (cases os; simp add: rnext_def)+
  let ?h = "(h |` (- set os))(a := None)"
  have free: "tl_free_ring h a (hd (os @ [a])) = Some (h |` (- set os))"
    using ring(2) Cons.prems(3,4) g by (intro tl_free_ring_frees) auto
  have other: "?h x = h x" if "x \<notin> set g" for x using that g by (simp add: restrict_map_def)
  have disj: "set g \<inter> set (concat gs) = {}" "tail \<notin> set g" using Cons.prems(3) by auto
  have "chain (next_at ?h 0) pv (map hd gs @ [tail])"
  proof -
    have "\<forall>x\<in>set (butlast (map hd gs @ [tail])). next_at ?h 0 x = next_at h 0 x"
    proof
      fix x assume "x \<in> set (butlast (map hd gs @ [tail]))"
      then have "x \<in> set (map hd gs)" by simp
      then have "x \<in> set (concat gs)" using Cons.prems(2) by force
      then have "x \<notin> set g" using disj by blast
      from other [OF this] show "next_at ?h 0 x = next_at h 0 x" by (simp only: next_at_def)
    qed
    with nxt(2) show ?thesis by (subst chain_cong [where nx' = "next_at h 0" and pv' = pv]) auto
  qed
  moreover have "\<forall>g'\<in>set gs. g' \<noteq> [] \<and> (\<exists>pv. chain (rnext ?h) pv (g' @ [hd g']))"
  proof
    fix g' assume g': "g' \<in> set gs"
    then obtain pv where pv: "chain (rnext h) pv (g' @ [hd g'])" "g' \<noteq> []" using Cons.prems(2) by auto
    have "\<forall>x\<in>set (butlast (g' @ [hd g'])). rnext ?h x = rnext h x"
    proof
      fix x assume "x \<in> set (butlast (g' @ [hd g']))"
      then have "x \<notin> set g" using disj(1) g' by auto
      from other [OF this] show "rnext ?h x = rnext h x" by (simp only: rnext_def)
    qed
    then have "chain (rnext ?h) pv (g' @ [hd g'])"
      using pv(1) by (subst chain_cong [where nx' = "rnext h" and pv' = pv]) auto
    with pv(2) show "g' \<noteq> [] \<and> (\<exists>pv. chain (rnext ?h) pv (g' @ [hd g']))" by blast
  qed
  moreover have "set (concat gs) \<subseteq> dom ?h"
  proof
    fix x assume x: "x \<in> set (concat gs)"
    then have "x \<notin> set g" using disj(1) by blast
    with other [of x] x Cons.prems(4) show "x \<in> dom ?h" by (auto simp: domIff)
  qed
  ultimately have "tl_free_all ?h tail (hd (map hd gs @ [tail])) = Some (?h |` (- set (concat gs)))"
    using Cons.prems(3) by (intro Cons.IH) auto
  moreover have "?h |` (- set (concat gs)) = h |` (- set (concat (g # gs)))"
    using g by (auto simp: restrict_map_def fun_eq_iff)
  moreover have "a \<noteq> tail" using disj(2) g by auto
  ultimately show ?case using nxt(1) nd ring(1) free n g by (subst tl_free_all.simps) simp
qed

lemma destroy_frees_all:
  assumes "tl_inv s"
  shows "destroy_TimeoutList s = Some Map.empty"
proof -
  obtain gs where rep: "tl_rep s gs" using assms by (auto simp: tl_inv_def)
  let ?h = "tl_heap s"
  note R = tl_repD [OF rep]
  have all: "on_level ?h 0 (map hd gs) = map hd gs" using R(4) by (rule heads_on_level)
  have ch: "chain (next_at ?h 0) (prev_at ?h 0) (pHeader s # map hd gs @ [pTail s])"
    using R(6) [unfolded levels_ok_def, rule_format, of 0] all by simp
  obtain n ns where n: "map hd gs @ [pTail s] = n # ns" by (cases gs) auto
  have "tl_free_all ?h (pTail s) (hd (map hd gs @ [pTail s])) = Some (?h |` (- set (concat gs)))"
  proof (rule tl_free_all_frees)
    show "chain (next_at ?h 0) (prev_at ?h 0) (map hd gs @ [pTail s])" using ch n by simp
    show "\<forall>g\<in>set gs. g \<noteq> [] \<and> (\<exists>pv. chain (rnext ?h) pv (g @ [hd g]))"
      using R(4) unfolding group_ok_def by blast
  qed (use R(1,2) in auto)
  moreover have "(?h |` (- set (concat gs)))(pHeader s := None, pTail s := None) = Map.empty"
  proof
    fix x
    have "x \<notin> dom ?h" if "x \<noteq> pHeader s" "x \<noteq> pTail s" "x \<notin> set (concat gs)" using R(2) that by simp
    then show "((?h |` (- set (concat gs)))(pHeader s := None, pTail s := None)) x = None"
      by (simp add: restrict_map_def domIff)
  qed
  ultimately show ?thesis using ch n by (simp add: destroy_TimeoutList_def)
qed

section \<open>Properties\<close>

text \<open>
  The operations of a list in sequence.  \<open>Op_insert\<close> brings the values of \<open>rand()\<close> and the address of
  the new node; \<open>Op_remove\<close> removes the node of an identifier; \<open>Op_expire\<close> removes the node \<open>getLast\<close>
  returns, as the timeout routine does.  The results are the entries taken out.
\<close>

datatype 'a tl_op = Op_insert "nat \<Rightarrow> u32" addr u64 u64 'a | Op_remove u64 | Op_expire

fun tl_step :: "'a tl_op \<Rightarrow> 'a TimeoutList \<Rightarrow> ('a TimeoutList \<times> (u64 \<times> u64 \<times> 'a) option) option" where
  "tl_step (Op_insert rnd new i t d) s = do { s \<leftarrow> tl_insert rnd new s i t d; Some (s, None) }"
| "tl_step (Op_remove i) s =
     (case tl_getNode s i of
        None \<Rightarrow> Some (s, None)
      | Some n \<Rightarrow> do { e \<leftarrow> tl_node s n; s \<leftarrow> tl_remove s n; Some (s, Some e) })"
| "tl_step Op_expire s = do {
     r \<leftarrow> tl_getLast s;
     (case r of None \<Rightarrow> Some (s, None)
      | Some n \<Rightarrow> do { e \<leftarrow> tl_node s n; s \<leftarrow> tl_remove s n; Some (s, Some e) })
   }"

text \<open>
  What the operations mean on the map of entries.  An insertion is allowed when its identifier is not
  in the list, as a coroutine has one call at a time, and its time is neither 0 nor the largest.
\<close>

inductive tl_spec_step :: "'a tl_op \<Rightarrow> (u64 \<rightharpoonup> u64 \<times> 'a) \<Rightarrow> (u64 \<rightharpoonup> u64 \<times> 'a) \<Rightarrow> (u64 \<times> u64 \<times> 'a) option \<Rightarrow> bool" where
  spec_insert: "m i = None \<Longrightarrow> tl_spec_step (Op_insert rnd new i t d) m (m(i \<mapsto> (t, d))) None"
| spec_remove_none: "m i = None \<Longrightarrow> tl_spec_step (Op_remove i) m m None"
| spec_remove: "m i = Some (t, d) \<Longrightarrow> tl_spec_step (Op_remove i) m (m(i := None)) (Some (i, t, d))"
| spec_expire_none: "tl_spec_step Op_expire Map.empty Map.empty None"
| spec_expire: "m i = Some (t, d) \<Longrightarrow> (\<And>j t' d'. m j = Some (t', d') \<Longrightarrow> t \<le> t') \<Longrightarrow>
    tl_spec_step Op_expire m (m(i := None)) (Some (i, t, d))"

fun op_allowed :: "'a tl_op \<Rightarrow> 'a TimeoutList \<Rightarrow> bool" where
  "op_allowed (Op_insert rnd new i t d) s \<longleftrightarrow>
     tl_getNode s i = None \<and> tl_heap s new = None \<and> 0 < t \<and> t < CORPC_MAX_UINT64"
| "op_allowed _ s \<longleftrightarrow> True"

text \<open>
  C10: the skip list behaves as a finite map from call identifiers to expiry times, for every outcome of
  \<open>rand()\<close>: in any state reached by its operations, insertion, removal by identifier and removal of
  the entry returned by \<open>getLast\<close> never crash, change the map as intended, and the last of them takes
  out an entry with the smallest expiry time.
\<close>

theorem TimeoutList_refines_map:
  assumes "tl_inv s" "op_allowed op s"
  shows "\<exists>s' r. tl_step op s = Some (s', r) \<and> tl_inv s' \<and> tl_spec_step op (tl_entries s) (tl_entries s') r"
proof (cases op)
  case (Op_insert rnd new i t d)
  then have "tl_entries s i = None" using assms(2) by (simp add: tl_entries_None_iff tl_getNode_def)
  with tlq.ins_ok [OF assms(1) this, of new t rnd d] Op_insert assms(2) show ?thesis
    by (auto intro!: spec_insert)
next
  case (Op_remove i)
  show ?thesis
  proof (cases "tl_entries s i")
    case None
    with tlq.find_None [OF assms(1)] Op_remove assms(1) show ?thesis by (auto intro: spec_remove_none)
  next
    case (Some e)
    obtain t d where e: "e = (t, d)" by force
    with tlq.find_Some [OF assms(1)] Some obtain n where n: "tl_getNode s i = Some n" "tl_node s n = Some (i, t, d)" by blast
    from tlq.rem_ok [OF assms(1) n(1)] obtain s' where "tl_remove s n = Some s'" "tl_inv s'" "tl_entries s' = (tl_entries s)(i := None)"
      by blast
    with n Op_remove Some e show ?thesis by (auto intro: spec_remove)
  qed
next
  case Op_expire
  obtain r where r: "tl_getLast s = Some r" "r = None \<longleftrightarrow> tl_entries s = Map.empty" using tlq.first_total [OF assms(1)] by blast
  show ?thesis
  proof (cases r)
    case None
    with r Op_expire assms(1) show ?thesis by (auto intro: spec_expire_none)
  next
    case (Some n)
    obtain i t d where n: "tl_entries s i = Some (t, d)" "tl_node s n = Some (i, t, d)" "tl_getNode s i = Some n"
        "\<And>j t' d'. tl_entries s j = Some (t', d') \<Longrightarrow> t \<le> t'"
      using tlq.first_Some [OF assms(1)] r(1) Some by blast
    from tlq.rem_ok [OF assms(1) n(3)] obtain s' where "tl_remove s n = Some s'" "tl_inv s'" "tl_entries s' = (tl_entries s)(i := None)"
      by blast
    with n r(1) Some Op_expire show ?thesis by (auto intro!: spec_expire)
  qed
qed

theorem TimeoutList_refines_map_witness:
  "\<exists>s' r. tl_step (Op_insert (\<lambda>_. 0) 2 7 50 ()) (new_TimeoutList 0 1 0) = Some (s', r) \<and> tl_inv s'
     \<and> tl_spec_step (Op_insert (\<lambda>_. 0) 2 7 50 ()) (tl_entries (new_TimeoutList 0 1 0)) (tl_entries s') r"
proof (rule TimeoutList_refines_map)
  show "tl_inv (new_TimeoutList 0 1 0 :: unit TimeoutList)"
    by (rule new_TimeoutList_inv) simp
  show "op_allowed (Op_insert (\<lambda>_. 0) 2 7 50 ()) (new_TimeoutList 0 1 0)"
    by (simp add: new_TimeoutList_def tl_getNode_def CORPC_MAX_UINT64_def)
qed

text \<open>
  C11: the destructor of the timeout list ends and frees every node exactly once, the entries, the rings
  of entries with the same time and the two sentinels.
\<close>

theorem TimeoutList_destructor:
  assumes "tl_inv s"
  shows "destroy_TimeoutList s = Some Map.empty"
  using assms by (rule destroy_frees_all)

theorem TimeoutList_destructor_witness:
  "destroy_TimeoutList (new_TimeoutList 0 1 0 :: unit TimeoutList) = Some Map.empty"
proof (rule TimeoutList_destructor)
  show "tl_inv (new_TimeoutList 0 1 0 :: unit TimeoutList)"
    by (rule new_TimeoutList_inv) simp
qed

end
