(* ===== verification/RpcCodec.thy ===== *)
theory RpcCodec
  imports Transport Protobuf
begin

text \<open>
  The RPC protocol of \<open>corpc_rpc_client.cpp\<close>, \<open>corpc_rpc_server.cpp\<close>, \<open>corpc_rpc_common.h\<close> and
  \<open>corpc_controller.h\<close>: requests and responses on the wire, the service registry of the server, and
  what a server does with a request.  A call is identified by the address of the waiting coroutine and
  its expiry time, which travel to the server and back.  Service objects, their descriptors and
  options come from Protocol Buffers; a service's \<open>CallMethod\<close> is an argument.
\<close>

section \<open>Controller\<close>

record Controller =
  error_str :: "byte list"
  error_code :: u32

definition new_Controller :: Controller where
  "new_Controller = \<lparr>error_str = [], error_code = 0\<rparr>"

definition Failed :: "Controller \<Rightarrow> bool" where
  "Failed c \<longleftrightarrow> error_code c \<noteq> 0"

definition SetFailed :: "Controller \<Rightarrow> byte list \<Rightarrow> Controller" where
  "SetFailed c reason =
     (let c = c\<lparr>error_str := reason\<rparr> in if error_code c = 0 then c\<lparr>error_code := -1\<rparr> else c)"

definition SetErrorCode :: "Controller \<Rightarrow> u32 \<Rightarrow> Controller" where
  "SetErrorCode c code = c\<lparr>error_code := code\<rparr>"

section \<open>Tasks and services\<close>

text \<open>
  \<open>RpcClientTask\<close>: the caller's response object and controller are part of the task, null pointers
  being \<open>None\<close>; \<open>response_1\<close> is null, the response object itself, or an object of its own.
  \<open>rt_kind\<close> is the type of the response object.
\<close>

datatype 'p response_1 = Response1_null | Response1_same | Response1_own 'p

record ('p, 'k) RpcClientTask =
  rt_pid :: nat
  rt_co :: u64
  rt_request :: 'p
  rt_kind :: 'k
  rt_response :: "'p option"
  rt_response_1 :: "'p response_1"
  rt_controller :: "Controller option"
  rt_controller_1 :: "Controller option"
  rt_done :: bool
  rt_serviceId :: u32
  rt_methodId :: u32
  rt_expireTime :: u64

text \<open>A method's descriptor with the options the code reads, and the registry's entries.\<close>

record MethodDescriptor =
  md_index :: u32
  md_need_coroutine :: bool
  md_not_care_response :: bool
  md_delete_in_done :: bool
  md_timeout :: u32

record 'k MethodData =
  method_descriptor :: MethodDescriptor
  request_proto :: 'k
  response_proto :: 'k

record ('s, 'k) ServiceData =
  rpcService :: 's
  methods :: "'k MethodData list"

record ('s, 'k) RpcServer =
  services :: "u32 \<rightharpoonup> ('s, 'k) ServiceData"

record ('p, 's) RpcServerTask =
  st_service :: "'s option"
  st_method :: MethodDescriptor
  st_request :: 'p
  st_response :: "'p option"
  st_controller :: "Controller option"
  st_done :: bool
  st_callId :: u64
  st_expireTime :: u64

text \<open>
  What a \<open>google::protobuf::Service\<close> tells about itself: its object, the option
  \<open>global_service_id\<close>, and its methods with their prototypes.
\<close>

record ('s, 'k) service =
  svc_object :: 's
  svc_id :: u32
  svc_methods :: "'k MethodData list"

definition rpc_registerService :: "('s, 'k) RpcServer \<Rightarrow> ('s, 'k) service \<Rightarrow> ('s, 'k) RpcServer \<times> bool" where
  "rpc_registerService server svc =
     (if services server (svc_id svc) \<noteq> None then (server, False)
      else (server\<lparr>services := (services server)(svc_id svc \<mapsto>
              \<lparr>rpcService = svc_object svc, methods = svc_methods svc\<rparr>)\<rparr>, True))"

definition rpc_getService :: "('s, 'k) RpcServer \<Rightarrow> u32 \<Rightarrow> 's option" where
  "rpc_getService server serviceId =
     (case services server serviceId of None \<Rightarrow> None | Some sd \<Rightarrow> Some (rpcService sd))"

definition rpc_getMethod :: "('s, 'k) RpcServer \<Rightarrow> u32 \<Rightarrow> u32 \<Rightarrow> 'k MethodData option" where
  "rpc_getMethod server serviceId methodId =
     (case services server serviceId of
        None \<Rightarrow> None
      | Some sd \<Rightarrow> if length (methods sd) \<le> unat methodId then None else Some (methods sd ! unat methodId))"

section \<open>Encoding\<close>

definition CORPC_REQUEST_HEAD_SIZE :: nat where "CORPC_REQUEST_HEAD_SIZE = 28"
definition CORPC_RESPONSE_HEAD_SIZE :: nat where "CORPC_RESPONSE_HEAD_SIZE = 24"
definition CORPC_MAX_REQUEST_SIZE :: nat where "CORPC_MAX_REQUEST_SIZE = 0x100000"
definition CORPC_MAX_RESPONSE_SIZE :: nat where "CORPC_MAX_RESPONSE_SIZE = 0x100000"

text \<open>
  The end of both \<open>encode\<close> functions: the body goes behind the head, or into the overflow buffer and
  as much of it as fits behind the head.  \<open>store\<close> writes the body to a buffer at an offset.
\<close>

definition rpc_place_body ::
  "nat \<Rightarrow> nat \<Rightarrow> (byte list \<Rightarrow> nat \<Rightarrow> byte list option) \<Rightarrow> byte list \<Rightarrow> byte list \<Rightarrow> nat \<Rightarrow>
   (byte list \<times> nat \<times> byte list \<times> nat) option" where
  "rpc_place_body hsize msgSize store buf df sent = do {
     let spaceleft = length buf - hsize;
     (if spaceleft \<ge> msgSize then do {
        buf \<leftarrow> (if msgSize > 0 then store buf hsize else Some buf);
        Some (buf, hsize + msgSize, df, sent)
      } else do {
        df \<leftarrow> store (replicate msgSize 0) 0;
        (if spaceleft > 0 then do {
           buf \<leftarrow> memcpy buf hsize (buf_read df 0 spaceleft);
           Some (buf, length buf, df, spaceleft)
         } else Some (buf, length buf, df, sent))
      })
   }"

definition rpc_request_head ::
  "endian \<Rightarrow> ('p, 'k) RpcClientTask \<Rightarrow> nat \<Rightarrow> byte list \<Rightarrow> byte list option" where
  "rpc_request_head e task msgSize buf = do {
     buf \<leftarrow> put32 e buf 0 (of_nat msgSize);
     buf \<leftarrow> put32 e buf 4 (rt_serviceId task);
     buf \<leftarrow> put32 e buf 8 (rt_methodId task);
     buf \<leftarrow> put64 e buf 12 (rt_co task);
     put64 e buf 20 (rt_expireTime task)
   }"

text \<open>
  \<open>RpcClient::encode\<close>.  \<open>msgSize\<close> is an \<open>int\<close>: a message of \<open>2\<^sup>3\<^sup>1\<close> bytes, which Protocol Buffers
  cannot serialise, would be negative (\<open>None\<close>).  The last component says that \<open>done->Run()\<close> was called.
\<close>

definition rpc_client_encode ::
  "endian \<Rightarrow> ('p, 'k, 'z) protobuf_scheme \<Rightarrow> ('p, 'k) RpcClientTask \<Rightarrow> byte list \<Rightarrow> byte list \<Rightarrow> nat \<Rightarrow>
   ((bool \<times> byte list \<times> nat \<times> byte list \<times> nat) \<times> bool) option" where
  "rpc_client_encode e pb task buf df sent = do {
     let msgSize = (if pb_cached pb (rt_request task) = 0 then pb_size pb (rt_request task)
                    else pb_cached pb (rt_request task));
     (if CORPC_REQUEST_HEAD_SIZE > length buf then Some ((True, buf, 0, df, sent), False)
      else if msgSize \<ge> 2 ^ 31 then None
      else do {
        buf \<leftarrow> rpc_request_head e task msgSize buf;
        (buf, sz, df, sent) \<leftarrow> rpc_place_body CORPC_REQUEST_HEAD_SIZE msgSize
           (\<lambda>buf off. memcpy buf off (pb_bytes pb (rt_request task))) buf df sent;
        (if rt_response task = None then do {
           assertion (rt_done task);
           Some ((True, buf, sz, df, sent), True)
         } else Some ((True, buf, sz, df, sent), False))
      })
   }"

definition rpc_client_enc ::
  "endian \<Rightarrow> ('p, 'k, 'z) protobuf_scheme \<Rightarrow> ('c, ('p, 'k) RpcClientTask) encode_fun" where
  "rpc_client_enc e pb conn task buf df sent = map_option fst (rpc_client_encode e pb task buf df sent)"

definition rpc_response_head ::
  "endian \<Rightarrow> ('p, 's) RpcServerTask \<Rightarrow> Controller \<Rightarrow> nat \<Rightarrow> byte list \<Rightarrow> byte list option" where
  "rpc_response_head e task controller msgSize buf = do {
     buf \<leftarrow> put32 e buf 0 (of_nat msgSize);
     buf \<leftarrow> put64 e buf 4 (st_callId task);
     buf \<leftarrow> put64 e buf 12 (st_expireTime task);
     put32 e buf 20 (if Failed controller then error_code controller else 0)
   }"

text \<open>\<open>RpcServer::encode\<close>: the size of the body, an \<open>uint32_t\<close>, and the bytes that will be stored.\<close>

definition rpc_response_size ::
  "('p, 'k, 'z) protobuf_scheme \<Rightarrow> ('p, 's) RpcServerTask \<Rightarrow> Controller \<Rightarrow> (nat \<times> byte list) option" where
  "rpc_response_size pb task controller =
     (if Failed controller then
        let n = length (error_str controller) mod 2 ^ 32 in Some (n, take n (error_str controller))
      else do {
        response \<leftarrow> st_response task;
        let cached = pb_cached pb response mod 2 ^ 32;
        Some (if cached = 0 then pb_size pb response mod 2 ^ 32 else cached, pb_bytes pb response)
      })"

definition rpc_server_encode ::
  "endian \<Rightarrow> ('p, 'k, 'z) protobuf_scheme \<Rightarrow> ('c, ('p, 's) RpcServerTask) encode_fun" where
  "rpc_server_encode e pb conn task buf df sent =
     (if CORPC_RESPONSE_HEAD_SIZE > length buf then Some (True, buf, 0, df, sent)
      else do {
        controller \<leftarrow> st_controller task;
        (msgSize, body) \<leftarrow> rpc_response_size pb task controller;
        buf \<leftarrow> rpc_response_head e task controller msgSize buf;
        (buf, sz, df, sent) \<leftarrow> rpc_place_body CORPC_RESPONSE_HEAD_SIZE msgSize
           (\<lambda>buf off. memcpy buf off body) buf df sent;
        Some (True, buf, sz, df, sent)
      })"

section \<open>Decoding\<close>

text \<open>
  \<open>RpcServer::decode\<close>.  The state of the connection it looks at is its server; a request that cannot
  be served is dropped, the connection stays open.
\<close>

definition rpc_server_decode ::
  "endian \<Rightarrow> ('p, 'k) rpc_protobuf \<Rightarrow> (('s, 'k) RpcServer, ('p, 's) RpcServerTask) decode_fun" where
  "rpc_server_decode e pb server hb bd =
     (if length hb < CORPC_REQUEST_HEAD_SIZE then None
      else let serviceId = get32 e hb 4; methodId = get32 e hb 8; callId = get64 e hb 12; expireTime = get64 e hb 20 in
      (case rpc_getMethod server serviceId methodId of
         None \<Rightarrow> Some (server, bd, None)
       | Some md \<Rightarrow>
           (case pb_parse pb (request_proto md) bd of
              None \<Rightarrow> Some (server, bd, None)
            | Some request \<Rightarrow>
                let response = (if md_not_care_response (method_descriptor md) then None
                                else Some (pb_new pb (response_proto md))) in
                Some (server, bd, Some
                  \<lparr>st_service = rpc_getService server serviceId, st_method = method_descriptor md,
                   st_request = request, st_response = response,
                   st_controller = (if response \<noteq> None then Some new_Controller else None),
                   st_done = (response = None \<and> md_delete_in_done (method_descriptor md)),
                   st_callId = callId, st_expireTime = expireTime\<rparr>))))"

text \<open>
  \<open>taskCallRoutine\<close>, which \<open>doTask\<close> also runs inline when the method needs no coroutine: the call, and
  the task goes to the sender when there is a response to send.  \<open>call\<close> is the service's
  \<open>CallMethod\<close>; a null service is a crash.
\<close>

type_synonym ('p, 's) call_method =
  "'s \<Rightarrow> MethodDescriptor \<Rightarrow> 'p \<Rightarrow> 'p option \<times> Controller option \<Rightarrow> 'p option \<times> Controller option"

definition rpc_taskCallRoutine ::
  "('p, 's) call_method \<Rightarrow> ('p, 's) RpcServerTask \<Rightarrow> ('p, 's) RpcServerTask list \<Rightarrow> ('p, 's) RpcServerTask list option" where
  "rpc_taskCallRoutine call task out = do {
     service \<leftarrow> st_service task;
     let (response, controller) = call service (st_method task) (st_request task) (st_response task, st_controller task);
     (if st_response task \<noteq> None
      then Some (out @ [task\<lparr>st_response := response, st_controller := controller\<rparr>])
      else Some out)
   }"

text \<open>\<open>doTask\<close>: with the option \<open>need_coroutine\<close> the routine is handed to a new coroutine.\<close>

definition rpc_doTask ::
  "('p, 's) call_method \<Rightarrow> ('p, 's) RpcServerTask \<Rightarrow> ('p, 's) RpcServerTask list \<Rightarrow>
   (('p, 's) RpcServerTask list \<times> ('p, 's) RpcServerTask option) option" where
  "rpc_doTask call task out =
     (if md_need_coroutine (st_method task) then Some (out, Some task)
      else do { out \<leftarrow> rpc_taskCallRoutine call task out; Some (out, None) })"

section \<open>The bytes on the wire\<close>

definition request_head_of :: "('p, 'k) RpcClientTask \<Rightarrow> nat \<Rightarrow> byte list" where
  "request_head_of task n =
     be_bytes 4 (of_nat n :: u32) @ be_bytes 4 (rt_serviceId task) @ be_bytes 4 (rt_methodId task)
     @ be_bytes 8 (rt_co task) @ be_bytes 8 (rt_expireTime task)"

definition request_wire :: "('p, 'k, 'z) protobuf_scheme \<Rightarrow> 'c \<Rightarrow> ('p, 'k) RpcClientTask \<Rightarrow> byte list option" where
  "request_wire pb conn task =
     (let body = pb_bytes pb (rt_request task) in Some (request_head_of task (length body) @ body))"

definition valid_request :: "('p, 'k, 'z) protobuf_scheme \<Rightarrow> ('p, 'k) RpcClientTask \<Rightarrow> bool" where
  "valid_request pb task \<longleftrightarrow>
     pb_ok pb (rt_request task) \<and> pb_size pb (rt_request task) < 2 ^ 31 \<and> (rt_response task = None \<longrightarrow> rt_done task)"

definition response_head_of :: "('p, 's) RpcServerTask \<Rightarrow> nat \<Rightarrow> u32 \<Rightarrow> byte list" where
  "response_head_of task n err =
     be_bytes 4 (of_nat n :: u32) @ be_bytes 8 (st_callId task) @ be_bytes 8 (st_expireTime task) @ be_bytes 4 err"

definition response_body :: "('p, 'k, 'z) protobuf_scheme \<Rightarrow> ('p, 's) RpcServerTask \<Rightarrow> byte list" where
  "response_body pb task =
     (let c = the (st_controller task) in if Failed c then error_str c else pb_bytes pb (the (st_response task)))"

definition response_error :: "('p, 's) RpcServerTask \<Rightarrow> u32" where
  "response_error task = error_code (the (st_controller task))"

definition response_wire :: "('p, 'k, 'z) protobuf_scheme \<Rightarrow> 'c \<Rightarrow> ('p, 's) RpcServerTask \<Rightarrow> byte list option" where
  "response_wire pb conn task =
     (let body = response_body pb task in
      Some (response_head_of task (length body) (response_error task) @ body))"

definition valid_response :: "('p, 'k, 'z) protobuf_scheme \<Rightarrow> ('p, 's) RpcServerTask \<Rightarrow> bool" where
  "valid_response pb task \<longleftrightarrow>
     st_controller task \<noteq> None \<and> st_response task \<noteq> None \<and> length (response_body pb task) < 2 ^ 32
     \<and> (\<not> Failed (the (st_controller task)) \<longrightarrow> pb_ok pb (the (st_response task)))"

lemma length_request_head [simp]: "length (request_head_of task n) = 28"
  by (simp add: request_head_of_def)

lemma length_response_head [simp]: "length (response_head_of task n err) = 24"
  by (simp add: response_head_of_def)

lemma memcpy_head: "length ys \<le> length buf \<Longrightarrow> memcpy buf 0 ys = Some (ys @ drop (length ys) buf)"
  using memcpy_append [of "[]" 0 ys buf] by simp

lemma rpc_request_head_eq:
  assumes "28 \<le> length buf"
  shows "rpc_request_head e task n buf = Some (request_head_of task n @ drop 28 buf)"
  using assms unfolding rpc_request_head_def put32_eq put64_eq request_head_of_def
  by (simp add: memcpy_append memcpy_head del: append_assoc)

lemma rpc_response_head_eq:
  assumes "24 \<le> length buf"
  shows "rpc_response_head e task c n buf = Some (response_head_of task n (error_code c) @ drop 24 buf)"
proof -
  have "(if Failed c then error_code c else 0) = error_code c" by (simp add: Failed_def)
  then show ?thesis
    using assms unfolding rpc_response_head_def put32_eq put64_eq response_head_of_def
    by (simp add: memcpy_append memcpy_head del: append_assoc)
qed

lemma rpc_place_body_eq:
  assumes "length head = hsize" "length body = n"
  shows "rpc_place_body hsize n (\<lambda>buf off. memcpy buf off body) (head @ rest) df sent =
     (if n \<le> length rest then Some (head @ body @ drop n rest, hsize + n, df, sent)
      else Some (head @ take (length rest) body, hsize + length rest, body, if rest = [] then sent else length rest))"
proof (cases "n \<le> length rest")
  case True
  then have "memcpy (head @ rest) hsize body = Some (head @ body @ drop n rest)"
    using memcpy_append [of head hsize body rest] assms by simp
  with True assms show ?thesis by (auto simp: rpc_place_body_def Let_def)
next
  case False
  have "memcpy (replicate n 0) 0 body = Some body" using memcpy_head [of body "replicate n 0"] assms by simp
  moreover have "memcpy (head @ rest) hsize (take (length rest) body) = Some (head @ take (length rest) body)"
    using memcpy_append [of head hsize "take (length rest) body" rest] assms False by simp
  ultimately show ?thesis using False assms by (auto simp: rpc_place_body_def Let_def buf_read_def)
qed

text \<open>The contract of an encoder that writes a head and places the body behind it.\<close>

lemma encoder_head_body:
  assumes "0 < hsize"
    and wait: "\<And>c d buf df sent. length buf < hsize \<Longrightarrow> enc c d buf df sent = Some (True, buf, 0, df, sent)"
    and len: "\<And>c d. length (head c d) = hsize"
    and eq: "\<And>c d buf df sent. valid c d \<Longrightarrow> hsize \<le> length buf \<Longrightarrow> enc c d buf df sent =
      (if length (body c d) \<le> length buf - hsize
       then Some (True, head c d @ body c d @ drop (hsize + length (body c d)) buf, hsize + length (body c d), df, sent)
       else Some (True, head c d @ take (length buf - hsize) (body c d), length buf, body c d,
                  if length buf = hsize then sent else length buf - hsize))"
  shows "encoder enc (\<lambda>c d. Some (head c d @ body c d)) hsize valid"
proof
  fix c d w buf df sent
  show "0 < hsize" by fact
  show "enc c d buf df sent = Some (True, buf, 0, df, sent)" if "length buf < hsize" using that by (rule wait)
  assume v: "valid c d"
  show "hsize \<le> length w" if "Some (head c d @ body c d) = Some w" using that len by auto
  show "enc c d buf df sent = Some (False, buf, 0, df, sent)" if "Some (head c d @ body c d) = None" using that by simp
  assume buf: "hsize \<le> length buf" and w: "Some (head c d @ body c d) = Some w"
  show "enc c d buf df sent = Some (True, w @ drop (length w) buf, length w, df, sent)" if "length w \<le> length buf"
    using that w buf len [of c d] by (auto simp: eq [OF v buf])
  show "\<exists>df' sent'. enc c d buf [] 0 = Some (True, take (length buf) w, length buf, df', sent')
      \<and> sent' < length df' \<and> drop sent' df' = drop (length buf) w" if "length buf < length w"
    using that w buf len [of c d] by (auto simp: eq [OF v buf])
qed

interpretation reqenc: encoder "rpc_client_enc e pb" "request_wire pb" 28 "\<lambda>c. valid_request pb"
  for e :: endian and pb :: "('p, 'k, 'z) protobuf_scheme"
proof -
  let ?body = "\<lambda>task. pb_bytes pb (rt_request task)"
  have "encoder (rpc_client_enc e pb) (\<lambda>c task. Some (request_head_of task (length (?body task)) @ ?body task)) 28
      (\<lambda>c. valid_request pb)"
  proof (rule encoder_head_body)
    fix c and task :: "('p, 'k) RpcClientTask" and buf df :: "byte list" and sent :: nat
    show "length buf < 28 \<Longrightarrow> rpc_client_enc e pb c task buf df sent = Some (True, buf, 0, df, sent)"
      by (simp add: rpc_client_enc_def rpc_client_encode_def CORPC_REQUEST_HEAD_SIZE_def Let_def)
    assume v: "valid_request pb task" and buf: "28 \<le> length buf"
    have n: "(if pb_cached pb (rt_request task) = 0 then pb_size pb (rt_request task)
                    else pb_cached pb (rt_request task)) = length (?body task)" "length (?body task) < 2 ^ 31"
      using v by (auto simp: valid_request_def pb_ok_def)
    note place = rpc_place_body_eq [of "request_head_of task (length (?body task))" 28 "?body task" _ "drop 28 buf" df sent,
        OF length_request_head refl]
    show "rpc_client_enc e pb c task buf df sent =
      (if length (?body task) \<le> length buf - 28
       then Some (True, request_head_of task (length (?body task)) @ ?body task @ drop (28 + length (?body task)) buf,
                  28 + length (?body task), df, sent)
       else Some (True, request_head_of task (length (?body task)) @ take (length buf - 28) (?body task), length buf, ?body task,
                  if length buf = 28 then sent else length buf - 28))"
      using v buf n(2) unfolding rpc_client_enc_def rpc_client_encode_def n(1) Let_def
      by (cases "rt_response task") (simp_all add: CORPC_REQUEST_HEAD_SIZE_def rpc_request_head_eq place assertion_def valid_request_def add.commute)
  qed simp_all
  then show "encoder (rpc_client_enc e pb) (request_wire pb) 28 (\<lambda>c. valid_request pb)"
    by (simp add: request_wire_def [abs_def] Let_def)
qed

interpretation respenc: encoder "rpc_server_encode e pb" "response_wire pb" 24 "\<lambda>c. valid_response pb"
  for e :: endian and pb :: "('p, 'k, 'z) protobuf_scheme"
proof -
  let ?body = "response_body pb"
  let ?head = "\<lambda>task. response_head_of task (length (?body task)) (response_error task)"
  have "encoder (rpc_server_encode e pb) (\<lambda>c task. Some (?head task @ ?body task)) 24 (\<lambda>c. valid_response pb)"
  proof (rule encoder_head_body)
    fix c and task :: "('p, 's) RpcServerTask" and buf df :: "byte list" and sent :: nat
    show "length buf < 24 \<Longrightarrow> rpc_server_encode e pb c task buf df sent = Some (True, buf, 0, df, sent)"
      by (simp add: rpc_server_encode_def CORPC_RESPONSE_HEAD_SIZE_def)
    assume v: "valid_response pb task" and buf: "24 \<le> length buf"
    obtain ctl resp where ctl: "st_controller task = Some ctl" "st_response task = Some resp"
      using v by (auto simp: valid_response_def)
    have n: "length (?body task) < 2 ^ 32" using v by (simp add: valid_response_def)
    have size: "rpc_response_size pb task ctl = Some (length (?body task), ?body task)"
      using v n ctl by (auto simp: rpc_response_size_def valid_response_def response_body_def pb_ok_def Let_def split: if_splits)
    have err: "error_code ctl = response_error task" using ctl by (simp add: response_error_def)
    note place = rpc_place_body_eq [of "?head task" 24 "?body task" _ "drop 24 buf" df sent, OF length_response_head refl]
    show "rpc_server_encode e pb c task buf df sent =
      (if length (?body task) \<le> length buf - 24
       then Some (True, ?head task @ ?body task @ drop (24 + length (?body task)) buf, 24 + length (?body task), df, sent)
       else Some (True, ?head task @ take (length buf - 24) (?body task), length buf, ?body task,
                  if length buf = 24 then sent else length buf - 24))"
      using buf ctl unfolding rpc_server_encode_def
      by (simp add: size CORPC_RESPONSE_HEAD_SIZE_def rpc_response_head_eq err place add.commute)
  qed simp_all
  then show "encoder (rpc_server_encode e pb) (response_wire pb) 24 (\<lambda>c. valid_response pb)"
    by (simp add: response_wire_def [abs_def] Let_def)
qed

lemma request_head_fields:
  "get32 e (request_head_of task n) 0 = of_nat n"
  "get32 e (request_head_of task n) 4 = rt_serviceId task"
  "get32 e (request_head_of task n) 8 = rt_methodId task"
  "get64 e (request_head_of task n) 12 = rt_co task"
  "get64 e (request_head_of task n) 20 = rt_expireTime task"
  using get32_field [of "[]" 0 e] get32_field [of "be_bytes 4 (of_nat n :: u32)" 4 e]
    get32_field [of "be_bytes 4 (of_nat n :: u32) @ be_bytes 4 (rt_serviceId task)" 8 e]
    get64_field [of "be_bytes 4 (of_nat n :: u32) @ be_bytes 4 (rt_serviceId task) @ be_bytes 4 (rt_methodId task)" 12 e]
    get64_field [of "be_bytes 4 (of_nat n :: u32) @ be_bytes 4 (rt_serviceId task) @ be_bytes 4 (rt_methodId task)
      @ be_bytes 8 (rt_co task)" 20 e "rt_expireTime task" "[]"]
  by (simp_all add: request_head_of_def)

lemma response_head_fields:
  "get32 e (response_head_of task n err) 0 = of_nat n"
  "get64 e (response_head_of task n err) 4 = st_callId task"
  "get64 e (response_head_of task n err) 12 = st_expireTime task"
  "get32 e (response_head_of task n err) 20 = err"
  using get32_field [of "[]" 0 e] get64_field [of "be_bytes 4 (of_nat n :: u32)" 4 e]
    get64_field [of "be_bytes 4 (of_nat n :: u32) @ be_bytes 8 (st_callId task)" 12 e]
    get32_field [of "be_bytes 4 (of_nat n :: u32) @ be_bytes 8 (st_callId task) @ be_bytes 8 (st_expireTime task)" 20 e err "[]"]
  by (simp_all add: response_head_of_def)

section \<open>Requests from client to server\<close>

text \<open>What the server makes of a request: the worker task, or nothing when it cannot serve it.\<close>

definition served :: "('p, 'k) rpc_protobuf \<Rightarrow> ('s, 'k) RpcServer \<Rightarrow> ('p, 'k) RpcClientTask \<Rightarrow> ('p, 's) RpcServerTask option" where
  "served pb server task = do {
     sd \<leftarrow> services server (rt_serviceId task);
     md \<leftarrow> (if unat (rt_methodId task) < length (methods sd) then Some (methods sd ! unat (rt_methodId task)) else None);
     request \<leftarrow> pb_parse pb (request_proto md) (pb_bytes pb (rt_request task));
     let care = \<not> md_not_care_response (method_descriptor md);
     Some \<lparr>st_service = Some (rpcService sd), st_method = method_descriptor md, st_request = request,
           st_response = (if care then Some (pb_new pb (response_proto md)) else None),
           st_controller = (if care then Some new_Controller else None),
           st_done = (\<not> care \<and> md_delete_in_done (method_descriptor md)),
           st_callId = rt_co task, st_expireTime = rt_expireTime task\<rparr>
   }"

definition request_framing :: framing where
  "request_framing = \<lparr>fr_head = CORPC_REQUEST_HEAD_SIZE, fr_max = CORPC_MAX_REQUEST_SIZE, fr_off = 0, fr_type = FOUR_BYTES\<rparr>"

lemma request_framing_simps [simp]:
  "wf_framing request_framing" "fr_head request_framing = 28" "fr_max request_framing = 0x100000"
  "frame_size e request_framing hb = unat (get32 e hb 0)"
  by (simp_all add: request_framing_def wf_framing_def size_bytes_def frame_size_def
      CORPC_REQUEST_HEAD_SIZE_def CORPC_MAX_REQUEST_SIZE_def)

lemma rpc_server_decode_request:
  "rpc_server_decode e pb server (request_head_of task n) (pb_bytes pb (rt_request task)) =
     Some (server, pb_bytes pb (rt_request task), served pb server task)"
  by (auto simp: rpc_server_decode_def CORPC_REQUEST_HEAD_SIZE_def request_head_fields Let_def served_def
      rpc_getMethod_def rpc_getService_def not_le split: option.split)

lemma rpc_server_decode_keeps:
  "rpc_server_decode e pb server hb bd = Some (server', bd', task) \<Longrightarrow> server' = server \<and> bd' = bd"
  by (auto simp: rpc_server_decode_def Let_def split: if_splits option.splits)

interpretation srvdec: decoder "rpc_server_decode e pb" "\<lambda>_. True" for e pb
  by unfold_locales (auto dest: rpc_server_decode_keeps)

interpretation requests: transport "rpc_client_enc e pb" "request_wire pb" 28 "\<lambda>c. valid_request pb"
    "rpc_server_decode e' pb" "\<lambda>_. True" e' request_framing "\<lambda>_. False" "\<lambda>server conn task. Some (server, served pb server task)"
    "\<lambda>server conn task. valid_request pb task \<and> length (pb_bytes pb (rt_request task)) \<le> CORPC_MAX_REQUEST_SIZE"
  for e e' :: endian and pb :: "('p, 'k) rpc_protobuf"
proof unfold_locales
  fix server and conn :: 'c and task :: "('p, 'k) RpcClientTask" and w
  assume v: "valid_request pb task \<and> length (pb_bytes pb (rt_request task)) \<le> CORPC_MAX_REQUEST_SIZE"
    and w: "request_wire pb conn task = Some w"
  then show "frame_size e' request_framing (take 28 w) = length w - 28 \<and> length w - 28 \<le> fr_max request_framing"
    by (auto simp: request_wire_def request_head_fields CORPC_MAX_REQUEST_SIZE_def Let_def)
  show "\<not> False \<and> (\<exists>bd. rpc_server_decode e' pb server (take 28 w) (drop 28 w) = Some (server', bd, task'))"
    if "Some (server, served pb server task) = Some (server', task')" for server' task'
    using that w by (auto simp: request_wire_def rpc_server_decode_request Let_def)
qed (simp_all add: request_wire_def Let_def)

lemma recv_all_requests:
  "map snd cds = tasks \<Longrightarrow>
   recv_all (\<lambda>server conn task. Some (server, served pb server task)) server cds q =
     Some (server, q @ List.map_filter (served pb server) tasks)"
proof (induction cds arbitrary: tasks q)
  case Nil
  then show ?case by (simp add: map_filter_simps)
next
  case (Cons m cds)
  then show ?case
    by (cases m; cases "served pb server (snd m)") (auto simp: map_filter_simps addTask_def)
qed

lemma rpc_requests_stream:
  assumes "\<forall>task\<in>set tasks. valid_request pb task \<and> length (pb_bytes pb (rt_request task)) \<le> CORPC_MAX_REQUEST_SIZE"
    and "\<forall>(c, buf)\<in>set calls. CORPC_REQUEST_HEAD_SIZE \<le> length buf"
    and "(\<Sum>task\<leftarrow>tasks. CORPC_REQUEST_HEAD_SIZE + length (pb_bytes pb (rt_request task))) \<le> length calls"
  shows "\<exists>p outs. downflow_all (rpc_client_enc e pb) (pipeline_for request_framing) tasks calls = Some (p, [], outs, True)
     \<and> (\<forall>chunks. concat chunks = concat outs \<longrightarrow>
          (\<exists>p' server' q. tcp_upflow_all e' (rpc_server_decode e' pb) (\<lambda>_. False) chunks (pipeline_for request_framing) server []
                = Some (p', server', q, True)
             \<and> server' = server \<and> q = List.map_filter (served pb server) tasks))"
proof (rule requests.stream_delivered)
  fix cds assume "map snd cds = tasks" "fst ` set cds \<subseteq> fst ` set calls"
  then show "\<exists>r' q'. recv_all (\<lambda>server conn task. Some (server, served pb server task)) server cds [] = Some (r', q')
      \<and> r' = server \<and> q' = List.map_filter (served pb server) tasks"
    by (simp add: recv_all_requests)
qed (use assms in \<open>auto simp: CORPC_REQUEST_HEAD_SIZE_def request_wire_def Let_def\<close>)

section \<open>Properties\<close>

text \<open>
  C6: the requests a client puts on a connection reach the server's worker in order and each at most
  once, whatever the send buffers, the chunks the server reads and the byte orders of the hosts.  Each
  becomes a task for the registered service and method with the request parsed from the serialised
  one, and with the caller's coroutine address and expiry time as its identity; requests for unknown
  services or methods and requests that do not parse are dropped without closing the connection.
\<close>

theorem rpc_requests_delivered:
  assumes "\<forall>task\<in>set tasks. valid_request pb task \<and> length (pb_bytes pb (rt_request task)) \<le> CORPC_MAX_REQUEST_SIZE"
    and "\<forall>(c, buf)\<in>set calls. CORPC_REQUEST_HEAD_SIZE \<le> length buf"
    and "(\<Sum>task\<leftarrow>tasks. CORPC_REQUEST_HEAD_SIZE + length (pb_bytes pb (rt_request task))) \<le> length calls"
  shows "\<exists>p outs. downflow_all (rpc_client_enc e pb) (pipeline_for request_framing) tasks calls = Some (p, [], outs, True)
     \<and> (\<forall>chunks. concat chunks = concat outs \<longrightarrow>
          (\<exists>p' server' q. tcp_upflow_all e' (rpc_server_decode e' pb) (\<lambda>_. False) chunks (pipeline_for request_framing) server []
                = Some (p', server', q, True)
             \<and> server' = server \<and> q = List.map_filter (served pb server) tasks))"
  using assms by (rule rpc_requests_stream)

text \<open>An instance: one service with one method, called once; a second request names no method.\<close>

definition sample_method :: "unit MethodData" where
  "sample_method = \<lparr>method_descriptor = \<lparr>md_index = 0, md_need_coroutine = False, md_not_care_response = False,
     md_delete_in_done = False, md_timeout = 0\<rparr>, request_proto = (), response_proto = ()\<rparr>"

definition sample_server :: "(nat, unit) RpcServer" where
  "sample_server = fst (rpc_registerService \<lparr>services = Map.empty\<rparr>
     \<lparr>svc_object = 1, svc_id = 3, svc_methods = [sample_method]\<rparr>)"

definition sample_call :: "u32 \<Rightarrow> (byte list, unit) RpcClientTask" where
  "sample_call m = \<lparr>rt_pid = 0, rt_co = 0xAB00, rt_request = [7, 8], rt_kind = (), rt_response = Some [],
     rt_response_1 = Response1_same, rt_controller = Some new_Controller, rt_controller_1 = None, rt_done = False,
     rt_serviceId = 3, rt_methodId = m, rt_expireTime = 0\<rparr>"

theorem rpc_requests_delivered_witness:
  "\<exists>p outs. downflow_all (rpc_client_enc LittleEndian bytes_rpc_pb) (pipeline_for request_framing)
         [sample_call 0, sample_call 1] (replicate 60 ((), replicate 29 0)) = Some (p, [], outs, True)
     \<and> (\<forall>chunks. concat chunks = concat outs \<longrightarrow>
          (\<exists>p' server' q. tcp_upflow_all BigEndian (rpc_server_decode BigEndian bytes_rpc_pb) (\<lambda>_. False) chunks
                (pipeline_for request_framing) sample_server [] = Some (p', server', q, True)
             \<and> server' = sample_server
             \<and> q = [\<lparr>st_service = Some 1, st_method = method_descriptor sample_method, st_request = [7, 8], st_response = Some [],
                     st_controller = Some new_Controller, st_done = False, st_callId = 0xAB00, st_expireTime = 0\<rparr>]))"
  using rpc_requests_delivered [of "[sample_call 0, sample_call 1]" bytes_rpc_pb "replicate 60 ((), replicate 29 0)"
      LittleEndian BigEndian sample_server]
  by (simp add: valid_request_def sample_call_def CORPC_MAX_REQUEST_SIZE_def CORPC_REQUEST_HEAD_SIZE_def
      map_filter_simps served_def sample_server_def rpc_registerService_def sample_method_def)

end
