(* ===== verification/RoutineEnv.thy ===== *)
theory RoutineEnv
  imports TimeoutQueue RpcCodec
begin

text \<open>
  \<open>RoutineEnvironment\<close> of \<open>corpc_routine_env.h/.cpp\<close>, the environment of the coroutines of a thread: the
  queue of coroutines to resume, the timeout list of the thread's RPC calls, and the routines that
  serve them.  The timeout list holds shared pointers to \<open>RpcClientTask\<close> objects, which the RPC client
  and the I/O threads change as well; they live in a heap of tasks.  \<open>co_activate\<close> appends to the list
  of activated coroutines, \<open>strerror\<close> is an argument.  \<open>None\<close> is a crash.
\<close>

section \<open>The code\<close>

record WaitResumeRPCRoutine =
  wr_co :: u64
  wr_expireTime :: u64
  wr_err :: u32

record RoutineEnvironment =
  timeoutList :: "nat TimeoutList"
  waitResumeQueue :: "WaitResumeRPCRoutine list"
  endedCoroutines :: "u64 list"
  activated :: "u64 list"
  released :: "u64 list"

type_synonym ('p, 'k) task_heap = "nat \<Rightarrow> ('p, 'k) RpcClientTask"

definition ETIMEDOUT :: u32 where "ETIMEDOUT = 110"
definition ENETDOWN :: u32 where "ENETDOWN = 100"

definition addTimeoutTask ::
  "(nat \<Rightarrow> u32) \<Rightarrow> addr \<Rightarrow> ('p, 'k) task_heap \<Rightarrow> nat \<Rightarrow> RoutineEnvironment \<Rightarrow> RoutineEnvironment option" where
  "addTimeoutTask rnd new tasks rpcTask env = do {
     l \<leftarrow> tl_insert rnd new (timeoutList env) (rt_co (tasks rpcTask)) (rt_expireTime (tasks rpcTask)) rpcTask;
     Some (env\<lparr>timeoutList := l\<rparr>)
   }"

text \<open>\<open>resumeCoroutine\<close>; \<open>envs\<close> is \<open>g_routineEnvPerThread\<close>.\<close>

definition resumeCoroutine ::
  "(nat \<rightharpoonup> RoutineEnvironment) \<Rightarrow> nat \<Rightarrow> u64 \<Rightarrow> u64 \<Rightarrow> u32 \<Rightarrow> (nat \<rightharpoonup> RoutineEnvironment) option" where
  "resumeCoroutine envs pid co expireTime err = do {
     env \<leftarrow> envs pid;
     Some (envs(pid \<mapsto> env\<lparr>waitResumeQueue := waitResumeQueue env @
             [\<lparr>wr_co = co, wr_expireTime = expireTime, wr_err = err\<rparr>]\<rparr>))
   }"

text \<open>The result of a call with a timeout is handed to the caller: the first half of \<open>resumeRoutine\<close>.\<close>

definition hand_over ::
  "('p, 'k) rpc_protobuf \<Rightarrow> (u32 \<Rightarrow> byte list) \<Rightarrow> u32 \<Rightarrow> ('p, 'k) RpcClientTask \<Rightarrow> ('p, 'k) RpcClientTask option" where
  "hand_over pb strerror err task =
     (if err \<noteq> 0 then do {
        c \<leftarrow> rt_controller task;
        Some (task\<lparr>rt_controller := Some (SetErrorCode (SetFailed c (strerror err)) (-1))\<rparr>)
      } else if (case rt_controller_1 task of Some c1 \<Rightarrow> Failed c1 | None \<Rightarrow> False) then do {
        c \<leftarrow> rt_controller task;
        c1 \<leftarrow> rt_controller_1 task;
        Some (task\<lparr>rt_controller := Some (SetErrorCode (SetFailed c (error_str c1)) (error_code c1))\<rparr>)
      } else do {
        response \<leftarrow> rt_response task;
        (case rt_response_1 task of
           Response1_own r \<Rightarrow> Some (task\<lparr>rt_response := Some (pb_merge pb response r)\<rparr>)
         | _ \<Rightarrow> None)
      })"

definition co_activate :: "RoutineEnvironment \<Rightarrow> u64 \<Rightarrow> RoutineEnvironment" where
  "co_activate env co = env\<lparr>activated := activated env @ [co]\<rparr>"

text \<open>The body of the loop of \<open>resumeRoutine\<close>, and the loop, which empties the queue.\<close>

definition resume_one ::
  "('p, 'k) rpc_protobuf \<Rightarrow> (u32 \<Rightarrow> byte list) \<Rightarrow> WaitResumeRPCRoutine \<Rightarrow> ('p, 'k) task_heap \<Rightarrow> RoutineEnvironment \<Rightarrow>
   (('p, 'k) task_heap \<times> RoutineEnvironment) option" where
  "resume_one pb strerror wr tasks env =
     (if wr_expireTime wr \<noteq> 0 then
        (case tl_getNode (timeoutList env) (wr_co wr) of
           None \<Rightarrow> Some (tasks, env)
         | Some node \<Rightarrow> do {
             (ident, expireTime, tid) \<leftarrow> tl_node (timeoutList env) node;
             (if expireTime = wr_expireTime wr then do {
                task \<leftarrow> hand_over pb strerror (wr_err wr) (tasks tid);
                l \<leftarrow> tl_remove (timeoutList env) node;
                Some (tasks(tid := task), co_activate (env\<lparr>timeoutList := l\<rparr>) (wr_co wr))
              } else Some (tasks, env))
           })
      else Some (tasks, co_activate env (wr_co wr)))"

fun resume_loop ::
  "('p, 'k) rpc_protobuf \<Rightarrow> (u32 \<Rightarrow> byte list) \<Rightarrow> WaitResumeRPCRoutine list \<Rightarrow> ('p, 'k) task_heap \<Rightarrow> RoutineEnvironment \<Rightarrow>
   (('p, 'k) task_heap \<times> RoutineEnvironment) option" where
  "resume_loop pb strerror [] tasks env = Some (tasks, env)"
| "resume_loop pb strerror (wr # wrs) tasks env = do {
     (tasks, env) \<leftarrow> resume_one pb strerror wr tasks env;
     resume_loop pb strerror wrs tasks env
   }"

definition resumeRoutine ::
  "('p, 'k) rpc_protobuf \<Rightarrow> (u32 \<Rightarrow> byte list) \<Rightarrow> ('p, 'k) task_heap \<Rightarrow> RoutineEnvironment \<Rightarrow>
   (('p, 'k) task_heap \<times> RoutineEnvironment) option" where
  "resumeRoutine pb strerror tasks env =
     resume_loop pb strerror (waitResumeQueue env) tasks (env\<lparr>waitResumeQueue := []\<rparr>)"

text \<open>What \<open>timeoutRoutine\<close> does every second, given the time in milliseconds.\<close>

partial_function (option) timeoutRoutine ::
  "(u32 \<Rightarrow> byte list) \<Rightarrow> u64 \<Rightarrow> ('p, 'k) task_heap \<Rightarrow> RoutineEnvironment \<Rightarrow>
   (('p, 'k) task_heap \<times> RoutineEnvironment) option" where
  "timeoutRoutine strerror now tasks env = do {
     last \<leftarrow> tl_getLast (timeoutList env);
     (case last of
        None \<Rightarrow> Some (tasks, env)
      | Some node \<Rightarrow> do {
          (ident, expireTime, tid) \<leftarrow> tl_node (timeoutList env) node;
          (if expireTime \<le> now then do {
             c \<leftarrow> rt_controller (tasks tid);
             let tasks = tasks(tid := (tasks tid)\<lparr>rt_controller := Some (SetFailed c (strerror ETIMEDOUT))\<rparr>);
             let co = rt_co (tasks tid);
             l \<leftarrow> tl_remove (timeoutList env) node;
             timeoutRoutine strerror now tasks (co_activate (env\<lparr>timeoutList := l\<rparr>) co)
           } else Some (tasks, env))
        })
   }"

text \<open>A coroutine that has ended is put aside by \<open>addEndedCoroutine\<close> and released by \<open>cleanRoutine\<close>.\<close>

definition addEndedCoroutine :: "RoutineEnvironment \<Rightarrow> u64 \<Rightarrow> RoutineEnvironment" where
  "addEndedCoroutine env co = env\<lparr>endedCoroutines := endedCoroutines env @ [co]\<rparr>"

function cleanRoutine :: "RoutineEnvironment \<Rightarrow> RoutineEnvironment" where
  "cleanRoutine env =
     (case endedCoroutines env of
        [] \<Rightarrow> env
      | co # cos \<Rightarrow> cleanRoutine (env\<lparr>endedCoroutines := cos, released := released env @ [co]\<rparr>))"
  by pat_completeness auto
termination
  by (relation "measure (\<lambda>env. length (endedCoroutines env))") auto

declare cleanRoutine.simps [simp del]

text \<open>\<open>pause\<close>: the coroutine queues itself and yields.\<close>

definition pause :: "(nat \<rightharpoonup> RoutineEnvironment) \<Rightarrow> nat \<Rightarrow> u64 \<Rightarrow> (nat \<rightharpoonup> RoutineEnvironment) option" where
  "pause envs pid self = resumeCoroutine envs pid self 0 0"

section \<open>Invariant\<close>

text \<open>
  Every entry of the timeout list belongs to a task that waits for a response, under the address of
  its coroutine and with its expiry time.
\<close>

definition awaits :: "('p, 'k) RpcClientTask \<Rightarrow> u64 \<Rightarrow> u64 \<Rightarrow> bool" where
  "awaits task co t \<longleftrightarrow>
     rt_co task = co \<and> rt_expireTime task = t \<and> rt_controller task \<noteq> None \<and> rt_response task \<noteq> None
     \<and> (\<exists>r. rt_response_1 task = Response1_own r)"

abbreviation calls :: "RoutineEnvironment \<Rightarrow> u64 \<Rightarrow> (u64 \<times> nat) option" where
  "calls env \<equiv> tl_entries (timeoutList env)"

definition env_ok :: "('p, 'k) task_heap \<Rightarrow> RoutineEnvironment \<Rightarrow> bool" where
  "env_ok tasks env \<longleftrightarrow>
     tl_inv (timeoutList env) \<and> (\<forall>co t tid. calls env co = Some (t, tid) \<longrightarrow> awaits (tasks tid) co t)"

lemma co_activate_simps [simp]:
  "timeoutList (co_activate env co) = timeoutList env" "activated (co_activate env co) = activated env @ [co]"
  "waitResumeQueue (co_activate env co) = waitResumeQueue env"
  by (simp_all add: co_activate_def)

lemma env_okD:
  assumes "env_ok tasks env"
  shows "tl_inv (timeoutList env)" "calls env co = Some (t, tid) \<Longrightarrow> awaits (tasks tid) co t"
  using assms by (auto simp: env_ok_def)

text \<open>One call leaves the list; the tasks of the others are not touched.\<close>

lemma env_ok_remove:
  assumes ok: "env_ok tasks env" and call: "calls env co = Some (t, tid)"
    and l: "tl_inv l" "tl_entries l = (calls env)(co := None)"
  shows "env_ok (tasks(tid := task)) (env\<lparr>timeoutList := l\<rparr>)"
  unfolding env_ok_def
proof (intro conjI allI impI)
  show "tl_inv (timeoutList (env\<lparr>timeoutList := l\<rparr>))" using l by simp
  fix co' t' tid' assume "calls (env\<lparr>timeoutList := l\<rparr>) co' = Some (t', tid')"
  then have c: "calls env co' = Some (t', tid')" "co' \<noteq> co" using l by (auto split: if_splits)
  have "awaits (tasks tid') co' t'" "awaits (tasks tid) co t" using ok c(1) call by (auto dest: env_okD)
  then have "tid' \<noteq> tid" using c(2) by (auto simp: awaits_def)
  with \<open>awaits (tasks tid') co' t'\<close> show "awaits ((tasks(tid := task)) tid') co' t'" by simp
qed

lemma hand_over_awaits: "awaits task co t \<Longrightarrow> \<exists>task'. hand_over pb strerror err task = Some task'"
  by (auto simp: awaits_def hand_over_def split: option.split)

lemma env_ok_activate [simp]: "env_ok tasks (co_activate env co) = env_ok tasks env"
  by (simp add: env_ok_def)

lemma resume_one_ok:
  assumes ok: "env_ok tasks env"
  shows "\<exists>tasks' env'. resume_one pb strerror wr tasks env = Some (tasks', env') \<and> env_ok tasks' env'
     \<and> waitResumeQueue env' = waitResumeQueue env
     \<and> (if wr_expireTime wr = 0 then activated env' = activated env @ [wr_co wr] \<and> calls env' = calls env \<and> tasks' = tasks
        else if \<exists>tid. calls env (wr_co wr) = Some (wr_expireTime wr, tid)
        then activated env' = activated env @ [wr_co wr] \<and> calls env' = (calls env)(wr_co wr := None)
        else tasks' = tasks \<and> env' = env)"
proof (cases "wr_expireTime wr = 0")
  case True
  with ok show ?thesis by (simp add: resume_one_def)
next
  case False
  show ?thesis
  proof (cases "calls env (wr_co wr)")
    case None
    with False ok tlq.find_None [OF env_okD(1) [OF ok] None] show ?thesis by (simp add: resume_one_def)
  next
    case (Some e)
    obtain t tid where e: "calls env (wr_co wr) = Some (t, tid)" using Some by (cases e) auto
    from tlq.find_Some [OF env_okD(1) [OF ok] e] obtain n where
      n: "tl_getNode (timeoutList env) (wr_co wr) = Some n" "tl_node (timeoutList env) n = Some (wr_co wr, t, tid)" by blast
    from tlq.rem_ok [OF env_okD(1) [OF ok] n(1)] obtain l where
      l: "tl_remove (timeoutList env) n = Some l" "tl_inv l" "tl_entries l = (calls env)(wr_co wr := None)" by blast
    from hand_over_awaits [OF env_okD(2) [OF ok e]] obtain task where
      task: "hand_over pb strerror (wr_err wr) (tasks tid) = Some task" by blast
    show ?thesis
    proof (cases "t = wr_expireTime wr")
      case True
      with False n l task e env_ok_remove [OF ok e l(2,3), of task] show ?thesis
        by (auto simp: resume_one_def)
    next
      case stale: False
      with False n e ok show ?thesis by (auto simp: resume_one_def)
    qed
  qed
qed

section \<open>Timeouts\<close>

lemma calls_remove:
  assumes ok: "env_ok tasks env" and call: "calls env co = Some (t, tid)" and n: "tl_getNode (timeoutList env) co = Some n"
  obtains l where "tl_remove (timeoutList env) n = Some l" "tl_inv l" "tl_entries l = (calls env)(co := None)"
    "card (dom (tl_entries l)) < card (dom (calls env))"
proof -
  from tlq.rem_ok [OF env_okD(1) [OF ok] n] obtain l where
    l: "tl_remove (timeoutList env) n = Some l" "tl_inv l" "tl_entries l = (calls env)(co := None)" by blast
  with tlq.rem_smaller [OF env_okD(1) [OF ok] call l(3)] that show thesis by blast
qed

definition expired :: "RoutineEnvironment \<Rightarrow> u64 \<Rightarrow> u64 \<Rightarrow> bool" where
  "expired env now co \<longleftrightarrow> (\<exists>t tid. calls env co = Some (t, tid) \<and> t \<le> now)"

definition expired_task :: "RoutineEnvironment \<Rightarrow> u64 \<Rightarrow> nat \<Rightarrow> bool" where
  "expired_task env now tid \<longleftrightarrow> (\<exists>co t. calls env co = Some (t, tid) \<and> t \<le> now)"

definition timed_out :: "(u32 \<Rightarrow> byte list) \<Rightarrow> ('p, 'k) RpcClientTask \<Rightarrow> ('p, 'k) RpcClientTask" where
  "timed_out strerror task =
     task\<lparr>rt_controller := map_option (\<lambda>c. SetFailed c (strerror ETIMEDOUT)) (rt_controller task)\<rparr>"

lemma expired_task_unique:
  assumes "env_ok tasks env" "calls env co = Some (t, tid)" "calls env co' = Some (t', tid)"
  shows "co' = co"
  using env_okD(2) [OF assms(1,2)] env_okD(2) [OF assms(1,3)] by (simp add: awaits_def)

lemma timeoutRoutine_ok:
  assumes "env_ok tasks env"
  shows "\<exists>tasks' env' cos. timeoutRoutine strerror now tasks env = Some (tasks', env') \<and> env_ok tasks' env'
     \<and> waitResumeQueue env' = waitResumeQueue env
     \<and> activated env' = activated env @ cos \<and> distinct cos \<and> set cos = {co. expired env now co}
     \<and> calls env' = calls env |` {co. \<not> expired env now co}
     \<and> tasks' = (\<lambda>tid. if expired_task env now tid then timed_out strerror (tasks tid) else tasks tid)"
  using assms
proof (induction "card (dom (calls env))" arbitrary: tasks env rule: less_induct)
  case less
  note inv = env_okD(1) [OF less.prems]
  show ?case
  proof (cases "calls env = Map.empty")
    case True
    then have "tl_getLast (timeoutList env) = Some None" using tlq.first_ok [OF inv] by simp
    with True less.prems show ?thesis
      by (simp add: timeoutRoutine.simps [of strerror now tasks env] expired_def expired_task_def)
  next
    case False
    then obtain n where last: "tl_getLast (timeoutList env) = Some (Some n)" using tlq.first_ok [OF inv] by (auto split: if_splits)
    from tlq.first_Some [OF inv last] obtain co t tid where
      e: "calls env co = Some (t, tid)" "tl_node (timeoutList env) n = Some (co, t, tid)"
         "tl_getNode (timeoutList env) co = Some n" and least: "\<And>j t' d'. calls env j = Some (t', d') \<Longrightarrow> t \<le> t'" by metis
    show ?thesis
    proof (cases "t \<le> now")
      case late: False
      then have "\<not> expired env now j" for j using least by (fastforce simp: expired_def)
      moreover have "\<not> expired_task env now x" for x using late least by (fastforce simp: expired_task_def)
      ultimately show ?thesis using late last e less.prems
        by (auto simp: timeoutRoutine.simps [of strerror now tasks env])
    next
      case due: True
      from calls_remove [OF less.prems e(1,3)] obtain l where
        l: "tl_remove (timeoutList env) n = Some l" "tl_inv l" "tl_entries l = (calls env)(co := None)"
           "card (dom (tl_entries l)) < card (dom (calls env))" by blast
      have aw: "awaits (tasks tid) co t" by (rule env_okD(2) [OF less.prems e(1)])
      then obtain c where c: "rt_controller (tasks tid) = Some c" "rt_co (tasks tid) = co" by (auto simp: awaits_def)
      let ?task = "(tasks tid)\<lparr>rt_controller := Some (SetFailed c (strerror ETIMEDOUT))\<rparr>"
      let ?tasks = "tasks(tid := ?task)" and ?env = "co_activate (env\<lparr>timeoutList := l\<rparr>) co"
      have ok': "env_ok ?tasks ?env" using env_ok_remove [OF less.prems e(1) l(2,3)] by simp
      have step: "timeoutRoutine strerror now tasks env = timeoutRoutine strerror now ?tasks ?env"
        using last e due c l(1) by (subst timeoutRoutine.simps) (simp add: Let_def)
      have rest: "expired ?env now j = (expired env now j \<and> j \<noteq> co)" for j by (auto simp: expired_def l(3))
      have co: "expired env now co" using e due by (auto simp: expired_def)
      have "card (dom (calls ?env)) < card (dom (calls env))" using l(4) by simp
      from less.hyps [OF this ok'] obtain tasks' env' cos where
        r: "timeoutRoutine strerror now ?tasks ?env = Some (tasks', env')" "env_ok tasks' env'"
           "waitResumeQueue env' = waitResumeQueue ?env"
           "activated env' = activated ?env @ cos" "distinct cos" "set cos = {co. expired ?env now co}"
           "calls env' = calls ?env |` {co. \<not> expired ?env now co}"
           "tasks' = (\<lambda>x. if expired_task ?env now x then timed_out strerror (?tasks x) else ?tasks x)" by blast
      have same: "expired_task ?env now x = (expired_task env now x \<and> x \<noteq> tid)" for x
      proof -
        have "expired_task ?env now x \<longleftrightarrow> (\<exists>co' t'. co' \<noteq> co \<and> calls env co' = Some (t', x) \<and> t' \<le> now)"
          by (auto simp: expired_task_def l(3))
        also have "\<dots> \<longleftrightarrow> expired_task env now x \<and> x \<noteq> tid"
          using expired_task_unique [OF less.prems e(1)] e(1) unfolding expired_task_def by (metis option.inject prod.inject)
        finally show ?thesis .
      qed
      have "tasks' = (\<lambda>x. if expired_task env now x then timed_out strerror (tasks x) else tasks x)"
      proof
        have "expired_task env now tid" using e(1) due by (auto simp: expired_task_def)
        then show "tasks' x = (if expired_task env now x then timed_out strerror (tasks x) else tasks x)" for x
          unfolding r(8) same using c by (auto simp: timed_out_def)
      qed
      moreover have "calls env' = calls env |` {co. \<not> expired env now co}"
        using r(7) co by (auto simp: restrict_map_def l(3) rest)
      moreover have "set (co # cos) = {co. expired env now co}" "distinct (co # cos)" "activated env' = activated env @ co # cos"
        using r(4-6) co by (auto simp: rest)
      ultimately show ?thesis unfolding step r(1) using r(2,3)
        by (intro exI [of _ tasks'] exI [of _ env'] exI [of _ "co # cos"]) simp
    qed
  qed
qed

section \<open>Every call is woken once\<close>

text \<open>
  What happens to an environment while a coroutine waits: other coroutines make calls, the threads that
  receive answers fill in the tasks and queue the coroutines, the timeout routine runs.
\<close>

datatype 'p env_event =
    Ev_call "nat \<Rightarrow> u32" addr nat
  | Ev_answer nat 'p
  | Ev_refuse nat Controller
  | Ev_resume WaitResumeRPCRoutine
  | Ev_timeout u64

fun env_step ::
  "('p, 'k) rpc_protobuf \<Rightarrow> (u32 \<Rightarrow> byte list) \<Rightarrow> 'p env_event \<Rightarrow> ('p, 'k) task_heap \<Rightarrow> RoutineEnvironment \<Rightarrow>
   (('p, 'k) task_heap \<times> RoutineEnvironment) option" where
  "env_step pb strerror (Ev_call rnd new tid) tasks env = map_option (Pair tasks) (addTimeoutTask rnd new tasks tid env)"
| "env_step pb strerror (Ev_answer tid r) tasks env = Some (tasks(tid := (tasks tid)\<lparr>rt_response_1 := Response1_own r\<rparr>), env)"
| "env_step pb strerror (Ev_refuse tid c) tasks env = Some (tasks(tid := (tasks tid)\<lparr>rt_controller_1 := Some c\<rparr>), env)"
| "env_step pb strerror (Ev_resume wr) tasks env = resume_one pb strerror wr tasks env"
| "env_step pb strerror (Ev_timeout now) tasks env = timeoutRoutine strerror now tasks env"

fun env_run ::
  "('p, 'k) rpc_protobuf \<Rightarrow> (u32 \<Rightarrow> byte list) \<Rightarrow> 'p env_event list \<Rightarrow> ('p, 'k) task_heap \<Rightarrow> RoutineEnvironment \<Rightarrow>
   (('p, 'k) task_heap \<times> RoutineEnvironment) option" where
  "env_run pb strerror [] tasks env = Some (tasks, env)"
| "env_run pb strerror (ev # evs) tasks env = do {
     (tasks, env) \<leftarrow> env_step pb strerror ev tasks env;
     env_run pb strerror evs tasks env
   }"

text \<open>
  The coroutine \<open>co\<close> is suspended in a call with a timeout: it makes no other call, and nobody resumes
  it without an expiry time.  A coroutine that calls is not registered and its task is filled in.
\<close>

fun event_allowed :: "u64 \<Rightarrow> 'p env_event \<Rightarrow> ('p, 'k) task_heap \<Rightarrow> RoutineEnvironment \<Rightarrow> bool" where
  "event_allowed co (Ev_call rnd new tid) tasks env \<longleftrightarrow>
     rt_co (tasks tid) \<noteq> co \<and> calls env (rt_co (tasks tid)) = None \<and> tl_heap (timeoutList env) new = None
     \<and> 0 < rt_expireTime (tasks tid) \<and> rt_expireTime (tasks tid) < CORPC_MAX_UINT64
     \<and> awaits (tasks tid) (rt_co (tasks tid)) (rt_expireTime (tasks tid))"
| "event_allowed co (Ev_resume wr) tasks env \<longleftrightarrow> (wr_co wr = co \<longrightarrow> wr_expireTime wr \<noteq> 0)"
| "event_allowed co _ tasks env \<longleftrightarrow> True"

fun events_allowed ::
  "u64 \<Rightarrow> ('p, 'k) rpc_protobuf \<Rightarrow> (u32 \<Rightarrow> byte list) \<Rightarrow> 'p env_event list \<Rightarrow> ('p, 'k) task_heap \<Rightarrow> RoutineEnvironment \<Rightarrow> bool" where
  "events_allowed co pb strerror [] tasks env \<longleftrightarrow> True"
| "events_allowed co pb strerror (ev # evs) tasks env \<longleftrightarrow>
     event_allowed co ev tasks env
     \<and> (case env_step pb strerror ev tasks env of None \<Rightarrow> True | Some (tasks', env') \<Rightarrow> events_allowed co pb strerror evs tasks' env')"

fun wakes :: "u64 \<Rightarrow> u64 \<Rightarrow> 'p env_event \<Rightarrow> bool" where
  "wakes co t (Ev_resume wr) \<longleftrightarrow> wr_co wr = co \<and> wr_expireTime wr = t"
| "wakes co t (Ev_timeout now) \<longleftrightarrow> t \<le> now"
| "wakes co t _ \<longleftrightarrow> False"

lemma count_list_distinct: "distinct xs \<Longrightarrow> count_list xs x = (if x \<in> set xs then 1 else 0)"
  by (induction xs) auto

lemma env_step_ok:
  assumes ok: "env_ok tasks env" and allowed: "event_allowed co ev tasks env"
  shows "\<exists>tasks' env'. env_step pb strerror ev tasks env = Some (tasks', env') \<and> env_ok tasks' env'
     \<and> (case calls env co of
          None \<Rightarrow> calls env' co = None \<and> count_list (activated env') co = count_list (activated env) co
        | Some (t, tid) \<Rightarrow> calls env' co = (if wakes co t ev then None else Some (t, tid))
             \<and> count_list (activated env') co = count_list (activated env) co + (if wakes co t ev then 1 else 0))"
proof (cases ev)
  case (Ev_call rnd new tid)
  note a = allowed [unfolded Ev_call event_allowed.simps]
  from tlq.ins_ok [OF env_okD(1) [OF ok], of "rt_co (tasks tid)" new "rt_expireTime (tasks tid)" rnd tid] a obtain l where
    l: "tl_insert rnd new (timeoutList env) (rt_co (tasks tid)) (rt_expireTime (tasks tid)) tid = Some l" "tl_inv l"
       "tl_entries l = (calls env)(rt_co (tasks tid) \<mapsto> (rt_expireTime (tasks tid), tid))" by auto
  have "env_ok tasks (env\<lparr>timeoutList := l\<rparr>)"
    using ok a l by (auto simp: env_ok_def)
  with Ev_call l a show ?thesis by (auto simp: addTimeoutTask_def split: option.split)
next
  case (Ev_answer tid r)
  have "env_ok (tasks(tid := (tasks tid)\<lparr>rt_response_1 := Response1_own r\<rparr>)) env"
    using ok by (auto simp: env_ok_def awaits_def)
  with Ev_answer show ?thesis by (auto split: option.split)
next
  case (Ev_refuse tid c)
  have "env_ok (tasks(tid := (tasks tid)\<lparr>rt_controller_1 := Some c\<rparr>)) env"
    using ok by (auto simp: env_ok_def awaits_def)
  with Ev_refuse show ?thesis by (auto split: option.split)
next
  case (Ev_resume wr)
  from resume_one_ok [OF ok, of pb strerror wr] obtain tasks' env' where
    r: "resume_one pb strerror wr tasks env = Some (tasks', env')" "env_ok tasks' env'"
       "if wr_expireTime wr = 0 then activated env' = activated env @ [wr_co wr] \<and> calls env' = calls env \<and> tasks' = tasks
        else if \<exists>tid. calls env (wr_co wr) = Some (wr_expireTime wr, tid)
        then activated env' = activated env @ [wr_co wr] \<and> calls env' = (calls env)(wr_co wr := None)
        else tasks' = tasks \<and> env' = env" by auto
  with Ev_resume allowed show ?thesis by (auto split: option.split if_splits)
next
  case (Ev_timeout now)
  from timeoutRoutine_ok [OF ok, of strerror now] obtain tasks' env' cos where
    r: "timeoutRoutine strerror now tasks env = Some (tasks', env')" "env_ok tasks' env'"
       "activated env' = activated env @ cos" "distinct cos" "set cos = {co. expired env now co}"
       "calls env' = calls env |` {co. \<not> expired env now co}" by auto
  have "count_list cos co = (if expired env now co then 1 else 0)"
    using r(4,5) by (simp add: count_list_distinct)
  with Ev_timeout r show ?thesis by (auto simp: expired_def restrict_map_def split: option.split)
qed

lemma env_run_ok:
  assumes "env_ok tasks env" "events_allowed co pb strerror evs tasks env"
  shows "\<exists>tasks' env'. env_run pb strerror evs tasks env = Some (tasks', env') \<and> env_ok tasks' env'
     \<and> (case calls env co of
          None \<Rightarrow> calls env' co = None \<and> count_list (activated env') co = count_list (activated env) co
        | Some (t, tid) \<Rightarrow> calls env' co = (if \<exists>ev\<in>set evs. wakes co t ev then None else Some (t, tid))
             \<and> count_list (activated env') co = count_list (activated env) co + (if \<exists>ev\<in>set evs. wakes co t ev then 1 else 0))"
  using assms
proof (induction evs arbitrary: tasks env)
  case Nil
  then show ?case by (auto split: option.split)
next
  case (Cons ev evs)
  from env_step_ok [OF Cons.prems(1), of co ev pb strerror] Cons.prems(2) obtain tasks1 env1 where
    step: "env_step pb strerror ev tasks env = Some (tasks1, env1)" "env_ok tasks1 env1"
      "case calls env co of
          None \<Rightarrow> calls env1 co = None \<and> count_list (activated env1) co = count_list (activated env) co
        | Some (t, tid) \<Rightarrow> calls env1 co = (if wakes co t ev then None else Some (t, tid))
             \<and> count_list (activated env1) co = count_list (activated env) co + (if wakes co t ev then 1 else 0)" by auto
  with Cons.prems(2) have "events_allowed co pb strerror evs tasks1 env1" by simp
  note run = Cons.IH [OF step(2) this]
  show ?case
  proof (cases "calls env co")
    case None
    with run step show ?thesis by auto
  next
    case (Some e)
    obtain t tid where e: "e = (t, tid)" by (cases e)
    show ?thesis
    proof (cases "wakes co t ev")
      case True
      with run step Some e show ?thesis by auto
    next
      case False
      with step Some e have *: "calls env1 co = Some (t, tid)" "count_list (activated env1) co = count_list (activated env) co"
        by auto
      with run step(1) Some e False show ?thesis by auto
    qed
  qed
qed

text \<open>
  C4: a coroutine that waits for an RPC call with a timeout is woken exactly once if an answer for the
  call is queued or the clock of the timeout routine reaches the expiry time, whichever comes first and
  however often, and it is not woken otherwise; answers to earlier calls of a coroutine at the same
  address, recognised by another expiry time, do not wake it, and no interleaving crashes the
  environment.
\<close>

theorem rpc_call_woken_once:
  assumes "env_ok tasks env" "calls env co = Some (t, tid)" "events_allowed co pb strerror evs tasks env"
  shows "\<exists>tasks' env'. env_run pb strerror evs tasks env = Some (tasks', env') \<and> env_ok tasks' env'
     \<and> count_list (activated env') co = count_list (activated env) co + (if \<exists>ev\<in>set evs. wakes co t ev then 1 else 0)
     \<and> calls env' co = (if \<exists>ev\<in>set evs. wakes co t ev then None else Some (t, tid))"
  using env_run_ok [OF assms(1,3)] assms(2) by auto

lemma events_allowed_without_calls:
  "\<forall>ev\<in>set evs. case ev of Ev_call rnd new tid \<Rightarrow> False | Ev_resume wr \<Rightarrow> wr_co wr = co \<longrightarrow> wr_expireTime wr \<noteq> 0 | _ \<Rightarrow> True \<Longrightarrow>
   events_allowed co pb strerror evs tasks env"
  by (induction evs arbitrary: tasks env) (auto split: env_event.splits option.split)

definition sample_task :: "(byte list, unit) RpcClientTask" where
  "sample_task = (sample_call 0)\<lparr>rt_co := 7, rt_expireTime := 50, rt_response := Some [], rt_response_1 := Response1_own [],
     rt_controller := Some new_Controller\<rparr>"

definition sample_env :: RoutineEnvironment where
  "sample_env = the (addTimeoutTask (\<lambda>_. 0) 2 (\<lambda>_. sample_task) 0
     \<lparr>timeoutList = new_TimeoutList 0 1 0, waitResumeQueue = [], endedCoroutines = [], activated = [], released = []\<rparr>)"

lemma sample_env_ok:
  "env_ok (\<lambda>_. sample_task) sample_env" "calls sample_env 7 = Some (50, 0)" "activated sample_env = []"
proof -
  let ?new = "new_TimeoutList 0 1 0 :: nat TimeoutList"
  have new: "tl_inv ?new" "tl_entries ?new = Map.empty"
    by (rule new_TimeoutList_inv, simp) (auto simp: tl_entries_def new_TimeoutList_def)
  moreover have "tl_heap ?new 2 = None" by (simp add: new_TimeoutList_def)
  ultimately obtain l where
    l: "tl_insert (\<lambda>_. 0) 2 (new_TimeoutList 0 1 0) 7 50 (0::nat) = Some l" "tl_inv l" "tl_entries l = [7 \<mapsto> (50, 0)]"
    using tlq.ins_ok [of "new_TimeoutList 0 1 0" 7 2 50 "\<lambda>_. 0" "0::nat"] by (auto simp: CORPC_MAX_UINT64_def)
  then have env: "sample_env = \<lparr>timeoutList = l, waitResumeQueue = [], endedCoroutines = [], activated = [], released = []\<rparr>"
    by (simp add: sample_env_def addTimeoutTask_def sample_task_def)
  show "calls sample_env 7 = Some (50, 0)" "activated sample_env = []" using l by (simp_all add: env)
  show "env_ok (\<lambda>_. sample_task) sample_env"
    using l by (auto simp: env_ok_def env awaits_def sample_task_def split: if_splits)
qed

theorem rpc_call_woken_once_witness:
  "\<exists>tasks' env'. env_run bytes_rpc_pb (\<lambda>_. []) [Ev_resume \<lparr>wr_co = 7, wr_expireTime = 20, wr_err = 0\<rparr>, Ev_answer 0 [1],
       Ev_resume \<lparr>wr_co = 7, wr_expireTime = 50, wr_err = 0\<rparr>, Ev_timeout 60] (\<lambda>_. sample_task) sample_env = Some (tasks', env')
     \<and> count_list (activated env') 7 = 1 \<and> calls env' 7 = None"
  using rpc_call_woken_once [OF sample_env_ok(1,2), of bytes_rpc_pb "\<lambda>_. []"
      "[Ev_resume \<lparr>wr_co = 7, wr_expireTime = 20, wr_err = 0\<rparr>, Ev_answer 0 [1],
        Ev_resume \<lparr>wr_co = 7, wr_expireTime = 50, wr_err = 0\<rparr>, Ev_timeout 60]",
      OF events_allowed_without_calls]
  by (simp add: sample_env_ok(3)) blast

end
