(* ===== verification/RpcClient.thy ===== *)
theory RpcClient
  imports RoutineEnv "HOL-Library.Multiset"
begin

text \<open>
  The RPC client of \<open>corpc_rpc_client.h/.cpp\<close>: \<open>CallMethod\<close>, which a caller's thread runs, \<open>decode\<close>,
  which the receiver's thread runs, and the three routines of the client's own thread.

  The state holds the objects these share.  Connections, channels and calls are named by numbers.  A
  connection's \<open>datas_\<close> are what the sender has taken over for it.  \<open>cl_issued\<close> and \<open>cl_resumed\<close> record
  the calls that were issued and those whose coroutine was resumed, in order.  \<open>rc_added\<close> tells that the
  connection was handed to the I/O threads: its \<open>sendThreadIndex_\<close> is no longer -1.
\<close>

section \<open>State\<close>

datatype RpcStatus = CLOSED | CONNECTING | CONNECTED

record RpcConnection =
  rc_channel :: nat
  rc_st :: RpcStatus
  rc_waitSend :: "nat list"
  rc_waitResult :: "(u64 \<times> nat) list"
  rc_datas :: "nat list"
  rc_added :: bool

record ChannelCore =
  ch_connections :: "nat option list"
  ch_conIndex :: u32
  ch_connectDelay :: bool

datatype ConnectionTask = Task_CLOSE nat | Task_CONNECT nat

record ('p, 'k) RpcClient =
  cl_tasks :: "('p, 'k) task_heap"
  cl_envs :: "nat \<rightharpoonup> RoutineEnvironment"
  cl_conns :: "RpcConnection list"
  cl_channels :: "nat \<rightharpoonup> ChannelCore"
  connectionTaskQueue :: "ConnectionTask list"
  taskQueue :: "(nat \<times> nat) list"
  clearChannelQueue :: "nat list"
  cl_connecting :: "nat option"
  cl_io :: "nat list"
  cl_closing :: "nat list"
  cl_done :: "nat list"
  cl_issued :: "nat list"
  cl_resumed :: "nat list"

text \<open>\<open>m[k] = v\<close> for a \<open>std::map\<close>, kept in the order of its keys.\<close>

fun smap_put :: "u64 \<Rightarrow> 'v \<Rightarrow> (u64 \<times> 'v) list \<Rightarrow> (u64 \<times> 'v) list" where
  "smap_put k v [] = [(k, v)]"
| "smap_put k v ((k', v') # m) =
     (if k = k' then (k, v) # m else if k < k' then (k, v) # (k', v') # m else (k', v') # smap_put k v m)"

definition smap_erase :: "u64 \<Rightarrow> (u64 \<times> 'v) list \<Rightarrow> (u64 \<times> 'v) list" where
  "smap_erase k m = filter (\<lambda>(k', v). k' \<noteq> k) m"

section \<open>Operations on a call\<close>

definition upd_conn :: "nat \<Rightarrow> (RpcConnection \<Rightarrow> RpcConnection) \<Rightarrow> ('p, 'k) RpcClient \<Rightarrow> ('p, 'k) RpcClient" where
  "upd_conn c f w = w\<lparr>cl_conns := (cl_conns w)[c := f (cl_conns w ! c)]\<rparr>"

definition get_conn :: "('p, 'k) RpcClient \<Rightarrow> nat \<Rightarrow> RpcConnection option" where
  "get_conn w c = (if c < length (cl_conns w) then Some (cl_conns w ! c) else None)"

text \<open>\<open>controller->SetFailed(strerror(err))\<close>\<close>

definition fail_controller :: "(u32 \<Rightarrow> byte list) \<Rightarrow> u32 \<Rightarrow> nat \<Rightarrow> ('p, 'k) RpcClient \<Rightarrow> ('p, 'k) RpcClient option" where
  "fail_controller strerror err tid w = do {
     c \<leftarrow> rt_controller (cl_tasks w tid);
     Some (w\<lparr>cl_tasks := (cl_tasks w)(tid := (cl_tasks w tid)\<lparr>rt_controller := Some (SetFailed c (strerror err))\<rparr>)\<rparr>)
   }"

definition resume_call :: "u32 \<Rightarrow> nat \<Rightarrow> ('p, 'k) RpcClient \<Rightarrow> ('p, 'k) RpcClient option" where
  "resume_call err tid w = do {
     let task = cl_tasks w tid;
     envs \<leftarrow> resumeCoroutine (cl_envs w) (rt_pid task) (rt_co task) (rt_expireTime task) err;
     Some (w\<lparr>cl_envs := envs, cl_resumed := cl_resumed w @ [tid]\<rparr>)
   }"

text \<open>A call that waits for a response fails; a call that does not runs its closure.\<close>

definition fail_waiting :: "(u32 \<Rightarrow> byte list) \<Rightarrow> u32 \<Rightarrow> nat \<Rightarrow> ('p, 'k) RpcClient \<Rightarrow> ('p, 'k) RpcClient option" where
  "fail_waiting strerror err tid w = do {
     w \<leftarrow> (if rt_expireTime (cl_tasks w tid) = 0 then fail_controller strerror err tid w else Some w);
     resume_call err tid w
   }"

definition run_done :: "nat \<Rightarrow> ('p, 'k) RpcClient \<Rightarrow> ('p, 'k) RpcClient option" where
  "run_done tid w = (if rt_done (cl_tasks w tid) then Some (w\<lparr>cl_done := cl_done w @ [tid]\<rparr>) else None)"

definition fail_oneway :: "(u32 \<Rightarrow> byte list) \<Rightarrow> u32 \<Rightarrow> nat \<Rightarrow> ('p, 'k) RpcClient \<Rightarrow> ('p, 'k) RpcClient option" where
  "fail_oneway strerror err tid w = do {
     w \<leftarrow> (if rt_controller (cl_tasks w tid) \<noteq> None then fail_controller strerror err tid w else Some w);
     run_done tid w
   }"

definition fail_call :: "(u32 \<Rightarrow> byte list) \<Rightarrow> u32 \<Rightarrow> nat \<Rightarrow> ('p, 'k) RpcClient \<Rightarrow> ('p, 'k) RpcClient option" where
  "fail_call strerror err tid w =
     (if rt_response (cl_tasks w tid) \<noteq> None then fail_waiting strerror err tid w else fail_oneway strerror err tid w)"

fun for_calls :: "(nat \<Rightarrow> ('p, 'k) RpcClient \<Rightarrow> ('p, 'k) RpcClient option) \<Rightarrow> nat list \<Rightarrow> ('p, 'k) RpcClient \<Rightarrow> ('p, 'k) RpcClient option" where
  "for_calls f [] w = Some w"
| "for_calls f (tid # tids) w = do { w \<leftarrow> f tid w; for_calls f tids w }"

text \<open>A request goes to the sender; the caller of a request that expects a response is registered first.\<close>

definition sender_send :: "nat \<Rightarrow> nat \<Rightarrow> ('p, 'k) RpcClient \<Rightarrow> ('p, 'k) RpcClient" where
  "sender_send c tid w = upd_conn c (\<lambda>conn. conn\<lparr>rc_datas := rc_datas conn @ [tid]\<rparr>) w"

definition send_call :: "u64 \<Rightarrow> nat \<Rightarrow> nat \<Rightarrow> ('p, 'k) RpcClient \<Rightarrow> ('p, 'k) RpcClient option" where
  "send_call now c tid w =
     (let task = cl_tasks w tid in
      if rt_response task \<noteq> None then
        if rt_expireTime task = 0 \<or> now < rt_expireTime task
        then Some (sender_send c tid
               (upd_conn c (\<lambda>conn. conn\<lparr>rc_waitResult := smap_put (rt_co task) tid (rc_waitResult conn)\<rparr>) w))
        else Some w
      else Some (sender_send c tid w))"

section \<open>Calling\<close>

text \<open>
  \<open>ChannelCore::CallMethod\<close> up to the point where the caller yields.  \<open>tid\<close> is the new task, \<open>new\<close> the
  address of its node in the timeout list and \<open>rnd\<close> the values of \<open>rand\<close>; \<open>response\<close> and \<open>kind\<close> are the
  message to fill in and its prototype.
\<close>

definition CallMethod ::
  "('p, 'k) rpc_protobuf \<Rightarrow> nat \<Rightarrow> (nat \<Rightarrow> u32) \<Rightarrow> addr \<Rightarrow> nat \<Rightarrow> u64 \<Rightarrow> u64 \<Rightarrow> nat \<Rightarrow> u32 \<Rightarrow> MethodDescriptor \<Rightarrow> Controller option \<Rightarrow>
   'p \<Rightarrow> 'p option \<Rightarrow> 'k \<Rightarrow> bool \<Rightarrow> ('p, 'k) RpcClient \<Rightarrow> ('p, 'k) RpcClient option" where
  "CallMethod pb tid rnd new pid self now channel serviceId method controller request response kind hasDone w =
     (let care = \<not> md_not_care_response method; timeout = md_timeout method;
          task = \<lparr>rt_pid = pid, rt_co = self, rt_request = request, rt_kind = kind, rt_response = None,
            rt_response_1 = Response1_null, rt_controller = controller, rt_controller_1 = None, rt_done = hasDone,
            rt_serviceId = serviceId, rt_methodId = md_index method, rt_expireTime = 0\<rparr>;
          queue = (\<lambda>task envs. Some (w\<lparr>cl_tasks := (cl_tasks w)(tid := task), cl_envs := envs,
            taskQueue := taskQueue w @ [(channel, tid)], cl_issued := cl_issued w @ [tid]\<rparr>)) in
      if \<not> (care \<or> hasDone) then None
      else if care then
        if response = None then None
        else if 0 < timeout then do {
          let task = task\<lparr>rt_response := response, rt_response_1 := Response1_own (pb_new pb kind),
            rt_expireTime := now + ucast timeout\<rparr>;
          env \<leftarrow> cl_envs w pid;
          env \<leftarrow> addTimeoutTask rnd new ((cl_tasks w)(tid := task)) tid env;
          queue task ((cl_envs w)(pid \<mapsto> env))
        }
        else queue (task\<lparr>rt_response := response, rt_response_1 := Response1_same\<rparr>) (cl_envs w)
      else if timeout \<noteq> 0 then None
      else queue task (cl_envs w))"

section \<open>The client's thread\<close>

definition new_RpcConnection :: "nat \<Rightarrow> RpcConnection" where
  "new_RpcConnection channel = \<lparr>rc_channel = channel, rc_st = CLOSED, rc_waitSend = [], rc_waitResult = [], rc_datas = [],
     rc_added = False\<rparr>"

definition new_ChannelCore :: "u32 \<Rightarrow> ChannelCore" where
  "new_ChannelCore connectNum = \<lparr>ch_connections = replicate (unat (if connectNum = 0 then 1 else connectNum)) None,
     ch_conIndex = 0, ch_connectDelay = False\<rparr>"

text \<open>
  \<open>getNextConnection\<close>.  A new connection gets the next number.  The result \<open>None\<close> in the second
  component is the null pointer.
\<close>

definition needs_connection :: "('p, 'k) RpcClient \<Rightarrow> nat option \<Rightarrow> bool option" where
  "needs_connection w slot = (case slot of None \<Rightarrow> Some True | Some c \<Rightarrow> map_option (\<lambda>conn. rc_st conn = CLOSED) (get_conn w c))"

definition getNextConnection :: "nat \<Rightarrow> ('p, 'k) RpcClient \<Rightarrow> (('p, 'k) RpcClient \<times> nat option) option" where
  "getNextConnection channel w = do {
     ch \<leftarrow> cl_channels w channel;
     (if ch_connections ch = [] then Some (w, None)
      else do {
        let i = (ch_conIndex ch + 1) mod word_of_nat (length (ch_connections ch));
        let slot = ch_connections ch ! unat i;
        closed \<leftarrow> needs_connection w slot;
        (if closed then do {
           let c = length (cl_conns w);
           Some (w\<lparr>cl_conns := cl_conns w @ [(new_RpcConnection channel)\<lparr>rc_st := CONNECTING\<rparr>],
                   cl_channels := (cl_channels w)(channel \<mapsto> ch\<lparr>ch_conIndex := i, ch_connections := (ch_connections ch)[unat i := Some c]\<rparr>),
                   connectionTaskQueue := connectionTaskQueue w @ [Task_CONNECT c]\<rparr>, Some c)
         }
         else Some (w\<lparr>cl_channels := (cl_channels w)(channel \<mapsto> ch\<lparr>ch_conIndex := i\<rparr>)\<rparr>, slot))
      })
   }"

text \<open>The body of the loop of \<open>taskHandleRoutine\<close>; the assertion looks at the connection before the test for null.\<close>

definition taskHandle_one :: "(u32 \<Rightarrow> byte list) \<Rightarrow> u64 \<Rightarrow> ('p, 'k) RpcClient \<Rightarrow> ('p, 'k) RpcClient option" where
  "taskHandle_one strerror now w =
     (case taskQueue w of
        [] \<Rightarrow> Some w
      | (channel, tid) # rest \<Rightarrow> do {
          (w, slot) \<leftarrow> getNextConnection channel (w\<lparr>taskQueue := rest\<rparr>);
          c \<leftarrow> slot;
          conn \<leftarrow> get_conn w c;
          (if rc_st conn = CLOSED then None
           else if rc_st conn = CONNECTING
           then Some (upd_conn c (\<lambda>conn. conn\<lparr>rc_waitSend := rc_waitSend conn @ [tid]\<rparr>) w)
           else send_call now c tid w)
        })"

text \<open>\<open>Connection::onClose\<close>, which the receiver or the sender calls when it drops the connection.\<close>

definition rpc_onClose :: "nat \<Rightarrow> ('p, 'k) RpcClient \<Rightarrow> ('p, 'k) RpcClient" where
  "rpc_onClose c w = w\<lparr>connectionTaskQueue := connectionTaskQueue w @ [Task_CLOSE c]\<rparr>"

text \<open>\<open>connectionRoutine\<close>: a connection was lost.\<close>

definition set_connectDelay :: "bool \<Rightarrow> nat \<Rightarrow> ('p, 'k) RpcClient \<Rightarrow> ('p, 'k) RpcClient option" where
  "set_connectDelay b channel w = do {
     ch \<leftarrow> cl_channels w channel;
     Some (w\<lparr>cl_channels := (cl_channels w)(channel \<mapsto> ch\<lparr>ch_connectDelay := b\<rparr>)\<rparr>)
   }"

definition close_data :: "(u32 \<Rightarrow> byte list) \<Rightarrow> nat \<Rightarrow> ('p, 'k) RpcClient \<Rightarrow> ('p, 'k) RpcClient option" where
  "close_data strerror tid w = (if rt_response (cl_tasks w tid) = None then fail_oneway strerror ENETDOWN tid w else Some w)"

definition handle_CLOSE :: "(u32 \<Rightarrow> byte list) \<Rightarrow> nat \<Rightarrow> ('p, 'k) RpcClient \<Rightarrow> ('p, 'k) RpcClient option" where
  "handle_CLOSE strerror c w = do {
     conn \<leftarrow> get_conn w c;
     w \<leftarrow> set_connectDelay True (rc_channel conn) w;
     (if rc_waitSend conn \<noteq> [] then None
      else do {
        w \<leftarrow> for_calls (fail_waiting strerror ENETDOWN) (map snd (rc_waitResult conn))
              (upd_conn c (\<lambda>conn. conn\<lparr>rc_st := CLOSED, rc_waitResult := []\<rparr>) w);
        for_calls (close_data strerror) (rc_datas conn) w
      })
   }"

text \<open>
  The connection is established in between; meanwhile the client's other routines run.  The outcome is
  that of \<open>connect\<close> and, when it is in progress, of \<open>getsockopt\<close>: \<open>Some errno\<close> is the value of \<open>errno\<close>
  when the attempt has failed.
\<close>

definition EALREADY :: u32 where "EALREADY = 114"
definition EINPROGRESS :: u32 where "EINPROGRESS = 115"

definition in_progress :: "u32 option \<Rightarrow> bool" where
  "in_progress conn_errno \<longleftrightarrow> conn_errno = Some EALREADY \<or> conn_errno = Some EINPROGRESS"

definition connect_outcome :: "u32 option \<Rightarrow> u32 + u32 \<Rightarrow> u32 option" where
  "connect_outcome conn_errno so_error =
     (case conn_errno of
        None \<Rightarrow> None
      | Some errno \<Rightarrow>
          if in_progress conn_errno
          then (case so_error of Inl errno \<Rightarrow> Some errno | Inr error \<Rightarrow> if error \<noteq> 0 then Some 0 else None)
          else Some errno)"

definition begin_CONNECT :: "nat \<Rightarrow> ('p, 'k) RpcClient \<Rightarrow> ('p, 'k) RpcClient option" where
  "begin_CONNECT c w = do {
     conn \<leftarrow> get_conn w c;
     (if rc_st conn = CONNECTING then Some (w\<lparr>cl_connecting := Some c\<rparr>) else None)
   }"

definition rpc_addConnection :: "nat \<Rightarrow> ('p, 'k) RpcClient \<Rightarrow> ('p, 'k) RpcClient" where
  "rpc_addConnection c w = upd_conn c (\<lambda>conn. conn\<lparr>rc_added := True\<rparr>) (w\<lparr>cl_io := cl_io w @ [c]\<rparr>)"

definition finish_CONNECT ::
  "(u32 \<Rightarrow> byte list) \<Rightarrow> u32 option \<Rightarrow> u32 + u32 \<Rightarrow> u64 \<Rightarrow> ('p, 'k) RpcClient \<Rightarrow> ('p, 'k) RpcClient option" where
  "finish_CONNECT strerror conn_errno so_error now w = do {
     c \<leftarrow> cl_connecting w;
     conn \<leftarrow> get_conn w c;
     let w = w\<lparr>cl_connecting := None\<rparr>;
     (if rc_waitResult conn \<noteq> [] \<and> (connect_outcome conn_errno so_error \<noteq> None \<or> in_progress conn_errno) then None
      else case connect_outcome conn_errno so_error of
        Some errno \<Rightarrow>
          for_calls (fail_call strerror errno) (rc_waitSend conn)
            (upd_conn c (\<lambda>conn. conn\<lparr>rc_st := CLOSED, rc_waitSend := []\<rparr>) w)
      | None \<Rightarrow> do {
          w \<leftarrow> set_connectDelay False (rc_channel conn) (upd_conn c (\<lambda>conn. conn\<lparr>rc_st := CONNECTED, rc_waitSend := []\<rparr>) w);
          for_calls (send_call now c) (rc_waitSend conn) (rpc_addConnection c w)
        })
   }"

definition connection_one :: "(u32 \<Rightarrow> byte list) \<Rightarrow> ('p, 'k) RpcClient \<Rightarrow> ('p, 'k) RpcClient option" where
  "connection_one strerror w =
     (if cl_connecting w \<noteq> None then Some w
      else case connectionTaskQueue w of
        [] \<Rightarrow> Some w
      | Task_CLOSE c # rest \<Rightarrow> handle_CLOSE strerror c (w\<lparr>connectionTaskQueue := rest\<rparr>)
      | Task_CONNECT c # rest \<Rightarrow> begin_CONNECT c (w\<lparr>connectionTaskQueue := rest\<rparr>))"

text \<open>The last \<open>Channel\<close> of a channel is destroyed: its \<open>Guard\<close> has the channel cleared.\<close>

definition end_Guard :: "nat \<Rightarrow> ('p, 'k) RpcClient \<Rightarrow> ('p, 'k) RpcClient" where
  "end_Guard channel w = w\<lparr>clearChannelQueue := clearChannelQueue w @ [channel]\<rparr>"

text \<open>
  The body of the loop of \<open>clearChannelRoutine\<close>.  \<open>close\<close> of a connection that was not closed before goes to
  the sender.  With several send threads (\<open>multi\<close>), the sender uses \<open>sendThreadIndex_\<close> as an index, out of
  range for a connection that was never handed to it.
\<close>

definition close_crashes :: "bool \<Rightarrow> ('p, 'k) RpcClient \<Rightarrow> nat \<Rightarrow> bool" where
  "close_crashes multi w c \<longleftrightarrow> multi \<and> \<not> rc_added (cl_conns w ! c)"

definition clearChannel_one :: "bool \<Rightarrow> ('p, 'k) RpcClient \<Rightarrow> ('p, 'k) RpcClient option" where
  "clearChannel_one multi w =
     (case clearChannelQueue w of
        [] \<Rightarrow> Some w
      | channel # rest \<Rightarrow> do {
          ch \<leftarrow> cl_channels w channel;
          (if list_ex (close_crashes multi w) (List.map_filter id (ch_connections ch)) then None
           else Some (w\<lparr>clearChannelQueue := rest, cl_closing := cl_closing w @ List.map_filter id (ch_connections ch),
                  cl_channels := (cl_channels w)(channel \<mapsto> ch\<lparr>ch_connections := []\<rparr>)\<rparr>))
        })"

section \<open>Receiving\<close>

text \<open>
  \<open>RpcClient::decode\<close> on connection \<open>c\<close>: the body is stored into \<open>response_1\<close>, or the error into the
  controller, and the caller is resumed.  A response that nobody waits for is dropped.
\<close>

definition answer_call :: "('p, 'k) rpc_protobuf \<Rightarrow> u32 \<Rightarrow> byte list \<Rightarrow> ('p, 'k) RpcClientTask \<Rightarrow> ('p, 'k) RpcClientTask option" where
  "answer_call pb code bd task =
     (if code \<noteq> 0 then
        if rt_controller_1 task \<noteq> None then None
        else if rt_expireTime task = 0 then do {
          c \<leftarrow> rt_controller task;
          Some (task\<lparr>rt_controller := Some (SetErrorCode (SetFailed c bd) code)\<rparr>)
        }
        else Some (task\<lparr>rt_controller_1 := Some (SetErrorCode (SetFailed new_Controller bd) code)\<rparr>)
      else do {
        r \<leftarrow> pb_parse pb (rt_kind task) bd;
        (case rt_response_1 task of
           Response1_null \<Rightarrow> None
         | Response1_same \<Rightarrow> Some (task\<lparr>rt_response := Some r\<rparr>)
         | Response1_own _ \<Rightarrow> Some (task\<lparr>rt_response_1 := Response1_own r\<rparr>))
      })"

definition rpc_answered ::
  "('p, 'k) rpc_protobuf \<Rightarrow> nat \<Rightarrow> u64 \<Rightarrow> u64 \<Rightarrow> u32 \<Rightarrow> byte list \<Rightarrow> ('p, 'k) RpcClient \<Rightarrow> ('p, 'k) RpcClient option" where
  "rpc_answered pb c callId expireTime code bd w = do {
     conn \<leftarrow> get_conn w c;
     (case map_of (rc_waitResult conn) callId of
        None \<Rightarrow> Some w
      | Some tid \<Rightarrow>
          if rt_expireTime (cl_tasks w tid) \<noteq> expireTime then Some w
          else do {
            task \<leftarrow> answer_call pb code bd (cl_tasks w tid);
            resume_call 0 tid
              ((upd_conn c (\<lambda>conn. conn\<lparr>rc_waitResult := smap_erase callId (rc_waitResult conn)\<rparr>) w)
                 \<lparr>cl_tasks := (cl_tasks w)(tid := task)\<rparr>)
          })
   }"

definition rpc_client_decode ::
  "endian \<Rightarrow> ('p, 'k) rpc_protobuf \<Rightarrow> nat \<Rightarrow> (('p, 'k) RpcClient, unit) decode_fun" where
  "rpc_client_decode e pb c w hb bd =
     (if length hb < CORPC_RESPONSE_HEAD_SIZE then None
      else let respSize = get32 e hb 0; callId = get64 e hb 4; expireTime = get64 e hb 12; code = get32 e hb 20 in
      if unat respSize \<noteq> length bd then None
      else do {
        w \<leftarrow> rpc_answered pb c callId expireTime code bd w;
        Some (w, bd, None)
      })"

text \<open>What the sender does for a request once it is on the wire: the end of \<open>encode\<close>, and \<open>cleanDataOnClosing\<close>.\<close>

definition request_encoded :: "nat \<Rightarrow> ('p, 'k) RpcClient \<Rightarrow> ('p, 'k) RpcClient option" where
  "request_encoded c w = do {
     conn \<leftarrow> get_conn w c;
     (case rc_datas conn of
        [] \<Rightarrow> Some w
      | tid # rest \<Rightarrow>
          (let w = upd_conn c (\<lambda>conn. conn\<lparr>rc_datas := rest\<rparr>) w in
           if rt_response (cl_tasks w tid) = None then run_done tid w else Some w))
   }"

definition cleanDataOnClosing :: "(u32 \<Rightarrow> byte list) \<Rightarrow> nat \<Rightarrow> ('p, 'k) RpcClient \<Rightarrow> ('p, 'k) RpcClient option" where
  "cleanDataOnClosing strerror tid w = (if rt_response (cl_tasks w tid) = None then fail_oneway strerror ENETDOWN tid w else Some w)"

section \<open>Steps\<close>

text \<open>What a call never changes after it was issued.\<close>

definition call_sig :: "('p, 'k) RpcClientTask \<Rightarrow> nat \<times> u64 \<times> u64 \<times> bool \<times> bool \<times> bool" where
  "call_sig task = (rt_pid task, rt_co task, rt_expireTime task, rt_response task = None, rt_controller task = None, rt_done task)"

text \<open>
  The steps of a client and of the threads around it.  A caller makes a new call, on a channel in use,
  with the objects the code relies on; it makes the next one only when it has been resumed, or when the
  earlier call had a timeout.  Connections that were handed to the I/O threads can be lost at any time.
  The callers' threads handle their queues, timeouts and results in any way that leaves the calls'
  identities alone.  The last \<open>Channel\<close> of a channel may be destroyed, and the channel then cleared, at any
  time, also while requests for it are queued.
\<close>

definition waits :: "('p, 'k) task_heap \<Rightarrow> u64 \<Rightarrow> nat \<Rightarrow> bool" where
  "waits tasks co tid \<longleftrightarrow> rt_co (tasks tid) = co \<and> rt_response (tasks tid) \<noteq> None"

inductive rpc_step :: "endian \<Rightarrow> ('p, 'k) rpc_protobuf \<Rightarrow> (u32 \<Rightarrow> byte list) \<Rightarrow> ('p, 'k) RpcClient \<Rightarrow> ('p, 'k) RpcClient \<Rightarrow> bool"
  for e pb strerror where
  call: "\<lbrakk>CallMethod pb tid rnd new pid self now channel sid method controller request response kind hasDone w = Some w';
      tid \<notin> set (cl_issued w); cl_envs w pid \<noteq> None; cl_channels w channel = Some ch; ch_connections ch \<noteq> [];
      \<not> md_not_care_response method \<longrightarrow> controller \<noteq> None;
      \<forall>t\<in>set (cl_issued w). waits (cl_tasks w) self t \<and> rt_expireTime (cl_tasks w t) = 0 \<longrightarrow> t \<in> set (cl_resumed w)\<rbrakk> \<Longrightarrow>
    rpc_step e pb strerror w w'"
| task: "taskHandle_one strerror now w = Some w' \<Longrightarrow> rpc_step e pb strerror w w'"
| connection: "connection_one strerror w = Some w' \<Longrightarrow> rpc_step e pb strerror w w'"
| connected: "finish_CONNECT strerror conn_errno so_error now w = Some w' \<Longrightarrow> rpc_step e pb strerror w w'"
| response: "rpc_client_decode e pb c w hb bd = Some (w', bd', t) \<Longrightarrow> rpc_step e pb strerror w w'"
| sent: "request_encoded c w = Some w' \<Longrightarrow> rpc_step e pb strerror w w'"
| lost: "c \<in> set (cl_io w) \<Longrightarrow> rpc_step e pb strerror w (rpc_onClose c (w\<lparr>cl_io := remove1 c (cl_io w)\<rparr>))"
| destroyed: "cl_channels w channel \<noteq> None \<Longrightarrow> rpc_step e pb strerror w (end_Guard channel w)"
| clear: "clearChannel_one multi w = Some w' \<Longrightarrow> rpc_step e pb strerror w w'"
| threads: "\<lbrakk>\<forall>tid. call_sig (tasks' tid) = call_sig (cl_tasks w tid); dom envs' = dom (cl_envs w)\<rbrakk> \<Longrightarrow>
    rpc_step e pb strerror w (w\<lparr>cl_tasks := tasks', cl_envs := envs'\<rparr>)"

definition rpc_init :: "('p, 'k) task_heap \<Rightarrow> (nat \<rightharpoonup> RoutineEnvironment) \<Rightarrow> (nat \<rightharpoonup> ChannelCore) \<Rightarrow> nat list \<Rightarrow> ('p, 'k) RpcClient" where
  "rpc_init tasks envs channels clear = \<lparr>cl_tasks = tasks, cl_envs = envs, cl_conns = [], cl_channels = channels,
     connectionTaskQueue = [], taskQueue = [], clearChannelQueue = clear, cl_connecting = None, cl_io = [], cl_closing = [],
     cl_done = [], cl_issued = [], cl_resumed = []\<rparr>"

section \<open>Where a call is\<close>

definition conn_calls :: "RpcConnection \<Rightarrow> nat list" where
  "conn_calls conn = rc_waitSend conn @ map snd (rc_waitResult conn)"

definition pending :: "('p, 'k) RpcClient \<Rightarrow> nat list" where
  "pending w = map snd (taskQueue w) @ concat (map conn_calls (cl_conns w))"

lemma mset_concat_update:
  "i < length xs \<Longrightarrow> mset (concat (map f (xs[i := x]))) + mset (f (xs ! i)) = mset (concat (map f xs)) + mset (f x)"
  by (induction xs arbitrary: i) (auto split: nat.splits)

lemma pending_upd_conn:
  "c < length (cl_conns w) \<Longrightarrow> mset (pending (upd_conn c f w)) + mset (conn_calls (cl_conns w ! c)) =
     mset (pending w) + mset (conn_calls (f (cl_conns w ! c)))"
  using mset_concat_update [of c "cl_conns w" conn_calls "f (cl_conns w ! c)"]
  by (simp add: pending_def upd_conn_def)

lemma upd_conn_simps [simp]:
  "cl_tasks (upd_conn c f w) = cl_tasks w" "cl_envs (upd_conn c f w) = cl_envs w"
  "cl_channels (upd_conn c f w) = cl_channels w" "connectionTaskQueue (upd_conn c f w) = connectionTaskQueue w"
  "taskQueue (upd_conn c f w) = taskQueue w" "clearChannelQueue (upd_conn c f w) = clearChannelQueue w"
  "cl_connecting (upd_conn c f w) = cl_connecting w" "cl_io (upd_conn c f w) = cl_io w"
  "cl_closing (upd_conn c f w) = cl_closing w" "cl_done (upd_conn c f w) = cl_done w"
  "cl_issued (upd_conn c f w) = cl_issued w" "cl_resumed (upd_conn c f w) = cl_resumed w"
  "length (cl_conns (upd_conn c f w)) = length (cl_conns w)"
  "c' < length (cl_conns w) \<Longrightarrow> cl_conns (upd_conn c f w) ! c' = (if c' = c then f (cl_conns w ! c) else cl_conns w ! c')"
  by (simp_all add: upd_conn_def)

lemma get_conn_Some [simp]: "get_conn w c = Some conn \<longleftrightarrow> c < length (cl_conns w) \<and> cl_conns w ! c = conn"
  by (auto simp: get_conn_def)

abbreviation keys_sorted :: "(u64 \<times> 'v) list \<Rightarrow> bool" where
  "keys_sorted m \<equiv> sorted_wrt (<) (map fst m)"

lemma keys_sorted_None: "keys_sorted ((k', v') # m) \<Longrightarrow> k \<le> k' \<Longrightarrow> map_of m k = None"
  by (auto simp: map_of_eq_None_iff)

lemma set_smap_put: "set (smap_put k v m) \<subseteq> insert (k, v) (set m)"
  by (induction m rule: smap_put.induct) (auto split: if_splits)

lemma smap_put_sorted: "keys_sorted m \<Longrightarrow> keys_sorted (smap_put k v m)"
proof (induction k v m rule: smap_put.induct)
  case (2 k v k' v' m)
  consider "k = k'" | "k < k'" | "k' < k" by fastforce
  then show ?case
  proof cases
    assume "k' < k"
    then have "k' < fst x" if "x \<in> set (smap_put k v m)" for x
      using set_smap_put [of k v m] that 2(2) by (cases x) (fastforce dest: subsetD)
    with \<open>k' < k\<close> 2 show ?case by auto
  qed (use 2(2) in \<open>auto intro: less_trans\<close>)
qed simp

lemma smap_put_mset:
  "keys_sorted m \<Longrightarrow> mset (map snd (smap_put k v m)) + mset (case map_of m k of None \<Rightarrow> [] | Some old \<Rightarrow> [old]) =
     add_mset v (mset (map snd m))"
proof (induction k v m rule: smap_put.induct)
  case (2 k v k' v' m)
  then show ?case using keys_sorted_None [of k' v' m k] by (auto split: option.split)
qed simp

lemma smap_erase_mset:
  "keys_sorted m \<Longrightarrow> map_of m k = Some v \<Longrightarrow> mset (map snd m) = add_mset v (mset (map snd (smap_erase k m)))"
proof (induction m)
  case (Cons x m)
  obtain k' v' where x: "x = (k', v')" by (cases x)
  show ?case
  proof (cases "k' = k")
    case True
    then have "filter (\<lambda>(k', v). k' \<noteq> k) m = m" using Cons.prems x by (auto simp: filter_id_conv)
    with True Cons.prems x show ?thesis by (simp add: smap_erase_def)
  next
    case False
    with Cons x show ?thesis by (simp add: smap_erase_def)
  qed
qed simp

lemma smap_erase_sorted: "keys_sorted m \<Longrightarrow> keys_sorted (smap_erase k m)"
  by (induction m) (auto simp: smap_erase_def)

lemma set_smap_erase: "set (smap_erase k m) \<subseteq> set m"
  by (auto simp: smap_erase_def)

section \<open>What the operations change\<close>

text \<open>Everything but results, environments, closures that ran and coroutines that were resumed.\<close>

definition undisturbed :: "('p, 'k) RpcClient \<Rightarrow> ('p, 'k) RpcClient \<Rightarrow> bool" where
  "undisturbed w w' \<longleftrightarrow>
     cl_conns w' = cl_conns w \<and> cl_channels w' = cl_channels w \<and> connectionTaskQueue w' = connectionTaskQueue w
     \<and> taskQueue w' = taskQueue w \<and> clearChannelQueue w' = clearChannelQueue w \<and> cl_connecting w' = cl_connecting w
     \<and> cl_io w' = cl_io w \<and> cl_issued w' = cl_issued w
     \<and> (\<forall>tid. call_sig (cl_tasks w' tid) = call_sig (cl_tasks w tid)) \<and> dom (cl_envs w') = dom (cl_envs w)"

lemma undisturbed_refl [simp]: "undisturbed w w"
  by (simp add: undisturbed_def)

lemma undisturbed_trans: "undisturbed w w' \<Longrightarrow> undisturbed w' w'' \<Longrightarrow> undisturbed w w''"
  by (simp add: undisturbed_def)

lemma undisturbedD:
  assumes "undisturbed w w'"
  shows "cl_conns w' = cl_conns w" "cl_channels w' = cl_channels w" "connectionTaskQueue w' = connectionTaskQueue w"
    "taskQueue w' = taskQueue w" "cl_connecting w' = cl_connecting w" "cl_io w' = cl_io w" "cl_issued w' = cl_issued w"
    "clearChannelQueue w' = clearChannelQueue w" "call_sig (cl_tasks w' tid) = call_sig (cl_tasks w tid)" "dom (cl_envs w') = dom (cl_envs w)"
    "pending w' = pending w"
  using assms by (auto simp: undisturbed_def pending_def)

lemma call_sig_eqD:
  assumes "call_sig a = call_sig b"
  shows "rt_pid a = rt_pid b" "rt_co a = rt_co b" "rt_expireTime a = rt_expireTime b"
    "rt_response a = None \<longleftrightarrow> rt_response b = None" "rt_controller a = None \<longleftrightarrow> rt_controller b = None" "rt_done a = rt_done b"
  using assms by (auto simp: call_sig_def)

lemma fail_controller_eq:
  "fail_controller strerror err tid w = Some w' \<Longrightarrow> undisturbed w w' \<and> cl_resumed w' = cl_resumed w"
  by (auto simp: fail_controller_def undisturbed_def call_sig_def Option.bind_eq_Some_conv split: if_splits)

lemma fail_controller_ok:
  "rt_controller (cl_tasks w tid) \<noteq> None \<Longrightarrow> \<exists>w'. fail_controller strerror err tid w = Some w'"
  by (auto simp: fail_controller_def)

lemma resume_call_eq:
  "resume_call err tid w = Some w' \<Longrightarrow> undisturbed w w' \<and> cl_resumed w' = cl_resumed w @ [tid] \<and> cl_tasks w' = cl_tasks w"
  by (auto simp: resume_call_def resumeCoroutine_def undisturbed_def Option.bind_eq_Some_conv Let_def dom_def split: if_splits)

lemma resume_call_ok:
  "cl_envs w (rt_pid (cl_tasks w tid)) \<noteq> None \<Longrightarrow> \<exists>w'. resume_call err tid w = Some w'"
  by (auto simp: resume_call_def resumeCoroutine_def Let_def)

text \<open>The objects a call needs: a controller and an environment if it waits, otherwise a closure.\<close>

definition equipped :: "('p, 'k) RpcClient \<Rightarrow> nat \<Rightarrow> bool" where
  "equipped w tid \<longleftrightarrow>
     (if rt_response (cl_tasks w tid) \<noteq> None
      then rt_controller (cl_tasks w tid) \<noteq> None \<and> cl_envs w (rt_pid (cl_tasks w tid)) \<noteq> None
      else rt_done (cl_tasks w tid))"

lemma equipped_cong: "undisturbed w w' \<Longrightarrow> equipped w' tid = equipped w tid"
proof -
  assume u: "undisturbed w w'"
  note sig = call_sig_eqD [OF undisturbedD(9) [OF u]]
  have "cl_envs w' p = None \<longleftrightarrow> cl_envs w p = None" for p using undisturbedD(10) [OF u] by (metis domIff)
  then show ?thesis by (simp add: equipped_def sig)
qed

definition has_response :: "('p, 'k) RpcClient \<Rightarrow> nat \<Rightarrow> bool" where
  "has_response w tid \<longleftrightarrow> rt_response (cl_tasks w tid) \<noteq> None"

lemma fail_waiting_eq:
  assumes "fail_waiting strerror err tid w = Some w'"
  shows "undisturbed w w' \<and> cl_resumed w' = cl_resumed w @ [tid]"
  using assms unfolding fail_waiting_def
  by (auto simp: Option.bind_eq_Some_conv split: if_splits dest!: fail_controller_eq resume_call_eq intro: undisturbed_trans)

lemma run_done_eq: "run_done tid w = Some w' \<Longrightarrow> undisturbed w w' \<and> cl_resumed w' = cl_resumed w"
  by (auto simp: run_done_def undisturbed_def split: if_splits)

lemma fail_oneway_eq:
  assumes "fail_oneway strerror err tid w = Some w'"
  shows "undisturbed w w' \<and> cl_resumed w' = cl_resumed w"
  using assms unfolding fail_oneway_def
  by (auto simp: Option.bind_eq_Some_conv split: if_splits dest!: fail_controller_eq run_done_eq intro: undisturbed_trans)

lemma fail_waiting_ok:
  assumes "equipped w tid" "has_response w tid"
  shows "\<exists>w'. fail_waiting strerror err tid w = Some w'"
proof (cases "rt_expireTime (cl_tasks w tid) = 0")
  case True
  from assms obtain w1 where w1: "fail_controller strerror err tid w = Some w1"
    using fail_controller_ok [of w tid strerror err] by (auto simp: equipped_def has_response_def split: if_splits)
  then have "equipped w1 tid" using assms(1) fail_controller_eq equipped_cong by blast
  moreover have "rt_response (cl_tasks w1 tid) \<noteq> None"
    using w1 assms(2) by (auto simp: fail_controller_def has_response_def Option.bind_eq_Some_conv)
  ultimately have "cl_envs w1 (rt_pid (cl_tasks w1 tid)) \<noteq> None" by (simp add: equipped_def)
  from resume_call_ok [OF this] True w1 show ?thesis by (simp add: fail_waiting_def)
next
  case False
  from assms have "cl_envs w (rt_pid (cl_tasks w tid)) \<noteq> None" by (simp add: equipped_def has_response_def)
  from resume_call_ok [OF this] False show ?thesis by (simp add: fail_waiting_def)
qed

lemma fail_oneway_ok:
  assumes "equipped w tid" "\<not> has_response w tid"
  shows "\<exists>w'. fail_oneway strerror err tid w = Some w'"
proof -
  have d: "rt_done (cl_tasks w tid)" using assms by (simp add: equipped_def has_response_def)
  show ?thesis
  proof (cases "rt_controller (cl_tasks w tid) = None")
    case True
    with d show ?thesis by (simp add: fail_oneway_def run_done_def)
  next
    case False
    then show ?thesis using d by (auto simp: fail_oneway_def fail_controller_def run_done_def)
  qed
qed

lemma fail_call_eq:
  "fail_call strerror err tid w = Some w' \<Longrightarrow> undisturbed w w' \<and> cl_resumed w' = cl_resumed w @ filter (has_response w) [tid]"
  by (auto simp: fail_call_def has_response_def split: if_splits dest!: fail_waiting_eq fail_oneway_eq)

lemma fail_call_ok: "equipped w tid \<Longrightarrow> \<exists>w'. fail_call strerror err tid w = Some w'"
  using fail_waiting_ok [of w tid] fail_oneway_ok [of w tid] by (simp add: fail_call_def has_response_def)

lemma close_data_eq: "close_data strerror tid w = Some w' \<Longrightarrow> undisturbed w w' \<and> cl_resumed w' = cl_resumed w"
  by (auto simp: close_data_def split: if_splits dest!: fail_oneway_eq)

lemma close_data_ok: "equipped w tid \<Longrightarrow> \<exists>w'. close_data strerror tid w = Some w'"
  using fail_oneway_ok [of w tid] by (simp add: close_data_def has_response_def)

lemma has_response_cong: "undisturbed w w' \<Longrightarrow> has_response w' = has_response w"
  using call_sig_eqD(4) [OF undisturbedD(9)] by (fastforce simp: has_response_def)

lemma for_calls_eq:
  assumes f: "\<And>w tid w'. f tid w = Some w' \<Longrightarrow> undisturbed w w' \<and> cl_resumed w' = cl_resumed w @ filter (P w) [tid]"
    and P: "\<And>w w'. undisturbed w w' \<Longrightarrow> P w' = P w"
  shows "for_calls f tids w = Some w' \<Longrightarrow> undisturbed w w' \<and> cl_resumed w' = cl_resumed w @ filter (P w) tids"
proof (induction tids arbitrary: w)
  case (Cons tid tids)
  from Cons.prems obtain w1 where w1: "f tid w = Some w1" "for_calls f tids w1 = Some w'" by (auto simp: Option.bind_eq_Some_conv)
  from f [OF w1(1)] Cons.IH [OF w1(2)] P [of w w1] show ?case by (auto intro: undisturbed_trans)
qed simp

lemma for_calls_ok:
  assumes ok: "\<And>w tid. Q w tid \<Longrightarrow> \<exists>w'. f tid w = Some w'"
    and f: "\<And>w tid w'. f tid w = Some w' \<Longrightarrow> undisturbed w w'"
    and Q: "\<And>w w' tid. undisturbed w w' \<Longrightarrow> Q w' tid = Q w tid"
  shows "\<forall>tid\<in>set tids. Q w tid \<Longrightarrow> \<exists>w'. for_calls f tids w = Some w'"
proof (induction tids arbitrary: w)
  case (Cons tid tids)
  then have "Q w tid" by simp
  from ok [OF this] obtain w1 where w1: "f tid w = Some w1" by blast
  moreover have "\<forall>tid\<in>set tids. Q w1 tid" using Cons.prems Q [OF f [OF w1]] by simp
  from Cons.IH [OF this] w1 show ?case by simp
qed simp

end
