(* ===== verification/RpcRoundTrip.thy ===== *)
theory RpcRoundTrip
  imports RpcClient
begin

text \<open>
  A remote call from end to end: the request's way to the server, the call of the service, the
  response's way back through \<open>RpcServer::encode\<close> and \<open>RpcClient::decode\<close>, and what it leaves in the
  caller's objects.
\<close>

section \<open>Responses on a connection\<close>

definition response_framing :: framing where
  "response_framing = \<lparr>fr_head = CORPC_RESPONSE_HEAD_SIZE, fr_max = CORPC_MAX_RESPONSE_SIZE, fr_off = 0, fr_type = FOUR_BYTES\<rparr>"

lemma response_framing_simps [simp]:
  "wf_framing response_framing" "fr_head response_framing = 24" "fr_max response_framing = 0x100000"
  "frame_size e response_framing hb = unat (get32 e hb 0)"
  by (simp_all add: response_framing_def wf_framing_def size_bytes_def frame_size_def
      CORPC_RESPONSE_HEAD_SIZE_def CORPC_MAX_RESPONSE_SIZE_def)

definition rpc_recv :: "('p, 'k) rpc_protobuf \<Rightarrow> nat \<Rightarrow> ('p, 'k) RpcClient \<Rightarrow> ('p, 's) RpcServerTask \<Rightarrow> ('p, 'k) RpcClient option" where
  "rpc_recv pb c w st = rpc_answered pb c (st_callId st) (st_expireTime st) (response_error st) (response_body pb st) w"

definition small_response :: "('p, 'k) rpc_protobuf \<Rightarrow> ('p, 's) RpcServerTask \<Rightarrow> bool" where
  "small_response pb st \<longleftrightarrow> valid_response pb st \<and> length (response_body pb st) \<le> CORPC_MAX_RESPONSE_SIZE"

lemma rpc_client_decode_response:
  assumes "small_response pb st"
  shows "rpc_client_decode e pb c w (response_head_of st (length (response_body pb st)) (response_error st)) (response_body pb st) =
    map_option (\<lambda>w. (w, response_body pb st, None)) (rpc_recv pb c w st)"
  using assms
  by (simp add: rpc_client_decode_def CORPC_RESPONSE_HEAD_SIZE_def response_head_fields Let_def rpc_recv_def small_response_def
      CORPC_MAX_RESPONSE_SIZE_def) (cases "rpc_answered pb c (st_callId st) (st_expireTime st) (response_error st) (response_body pb st) w"; simp)

lemma rpc_client_decode_body: "rpc_client_decode e pb c w hb bd = Some (w', bd', task) \<Longrightarrow> bd' = bd"
  by (auto simp: rpc_client_decode_def Let_def Option.bind_eq_Some_conv split: if_splits)

interpretation clidec: decoder "rpc_client_decode e pb c" "\<lambda>_. True" for e pb c
  by unfold_locales (auto dest: rpc_client_decode_body)

interpretation responses: transport "rpc_server_encode e pb" "response_wire pb" 24 "\<lambda>_. valid_response pb"
    "rpc_client_decode e' pb c" "\<lambda>_. True" e' response_framing "\<lambda>_. False"
    "\<lambda>w _ st. map_option (\<lambda>w. (w, None)) (rpc_recv pb c w st)" "\<lambda>_ _. small_response pb"
  for e e' :: endian and pb :: "('p, 'k) rpc_protobuf" and c :: nat
proof unfold_locales
  fix r :: "('p, 'k) RpcClient" and conn :: 'c and st :: "('p, 's) RpcServerTask" and w
  assume v: "small_response pb st" and w: "response_wire pb conn st = Some w"
  then show "frame_size e' response_framing (take 24 w) = length w - 24 \<and> length w - 24 \<le> fr_max response_framing"
    by (auto simp: response_wire_def response_head_fields CORPC_MAX_RESPONSE_SIZE_def small_response_def Let_def)
  show "\<not> False \<and> (\<exists>bd. rpc_client_decode e' pb c r (take 24 w) (drop 24 w) = Some (r', bd, task'))"
    if "map_option (\<lambda>w. (w, None)) (rpc_recv pb c r st) = Some (r', task')" for r' task'
    using that w rpc_client_decode_response [OF v, of e' c r] by (auto simp: response_wire_def Let_def)
qed (auto simp: response_wire_def Let_def small_response_def)

section \<open>The caller's objects\<close>

text \<open>The call \<open>tid\<close> waits on connection \<open>c\<close> for a response that fits it.\<close>

definition awaited :: "('p, 'k) rpc_protobuf \<Rightarrow> nat \<Rightarrow> ('p, 'k) RpcClient \<Rightarrow> nat \<Rightarrow> ('p, 's) RpcServerTask \<Rightarrow> bool" where
  "awaited pb c w tid st \<longleftrightarrow>
     c < length (cl_conns w) \<and> map_of (rc_waitResult (cl_conns w ! c)) (rt_co (cl_tasks w tid)) = Some tid
     \<and> cl_envs w (rt_pid (cl_tasks w tid)) \<noteq> None
     \<and> st_callId st = rt_co (cl_tasks w tid) \<and> st_expireTime st = rt_expireTime (cl_tasks w tid)
     \<and> answer_call pb (response_error st) (response_body pb st) (cl_tasks w tid) \<noteq> None"

definition answered_task :: "('p, 'k) rpc_protobuf \<Rightarrow> ('p, 's) RpcServerTask \<Rightarrow> ('p, 'k) RpcClientTask \<Rightarrow> ('p, 'k) RpcClientTask" where
  "answered_task pb st task = the (answer_call pb (response_error st) (response_body pb st) task)"

lemma smap_erase_other: "k \<noteq> k' \<Longrightarrow> map_of (smap_erase k m) k' = map_of m k'"
  by (induction m) (auto simp: smap_erase_def)

lemma answer_call_ids: "answer_call pb code bd task = Some task' \<Longrightarrow> rt_pid task' = rt_pid task \<and> rt_co task' = rt_co task"
  by (cases "rt_response_1 task") (auto simp: answer_call_def Option.bind_eq_Some_conv split: if_splits)

lemma rpc_recv_awaited:
  fixes st :: "('p, 's) RpcServerTask"
  assumes "awaited pb c w tid st"
  shows "\<exists>w'. rpc_recv pb c w st = Some w' \<and> cl_tasks w' = (cl_tasks w)(tid := answered_task pb st (cl_tasks w tid))
     \<and> cl_resumed w' = cl_resumed w @ [tid]
     \<and> (\<forall>tid' (st' :: ('p, 's) RpcServerTask). awaited pb c w tid' st' \<and> tid' \<noteq> tid \<longrightarrow> awaited pb c w' tid' st')"
proof -
  let ?task = "answered_task pb st (cl_tasks w tid)"
  let ?w1 = "(upd_conn c (\<lambda>conn. conn\<lparr>rc_waitResult := smap_erase (st_callId st) (rc_waitResult conn)\<rparr>) w)\<lparr>cl_tasks := (cl_tasks w)(tid := ?task)\<rparr>"
  have a: "answer_call pb (response_error st) (response_body pb st) (cl_tasks w tid) = Some ?task"
    using assms by (auto simp: awaited_def answered_task_def)
  then have same: "rt_pid ?task = rt_pid (cl_tasks w tid)" "rt_co ?task = rt_co (cl_tasks w tid)"
    using answer_call_ids by blast+
  then have "cl_envs ?w1 (rt_pid (cl_tasks ?w1 tid)) \<noteq> None" using assms by (simp add: awaited_def)
  from resume_call_ok [OF this, of 0] obtain w' where r: "resume_call 0 tid ?w1 = Some w'" by blast
  note u = resume_call_eq [OF r]
  have "rpc_recv pb c w st = Some w'"
    using assms a r by (simp add: rpc_recv_def rpc_answered_def awaited_def get_conn_def)
  moreover have "awaited pb c w' tid' st'" if t: "awaited pb c w tid' st'" "tid' \<noteq> tid" for tid' and st' :: "('p, 's) RpcServerTask"
  proof -
    have "rt_co (cl_tasks w tid') \<noteq> rt_co (cl_tasks w tid)" using t assms by (auto simp: awaited_def)
    moreover have "cl_conns w' = cl_conns ?w1" "cl_tasks w' = cl_tasks ?w1" "dom (cl_envs w') = dom (cl_envs w)"
      using u undisturbedD(1,10) [of ?w1 w'] by auto
    moreover have "cl_envs w' p \<noteq> None" if "cl_envs w p \<noteq> None" for p using that calculation(4) by (metis domIff)
    ultimately show ?thesis using t assms by (simp add: awaited_def smap_erase_other)
  qed
  ultimately show ?thesis using u by auto
qed

text \<open>The responses to several calls, in any order.\<close>

lemma recv_all_awaited:
  fixes answers :: "(nat \<times> ('p, 's) RpcServerTask) list"
  assumes "map snd cds = map snd answers" "distinct (map fst answers)" "\<forall>(tid, st)\<in>set answers. awaited pb c w tid st"
  shows "\<exists>w'. recv_all (\<lambda>w _ st. map_option (\<lambda>w. (w, None)) (rpc_recv pb c w st)) w cds q = Some (w', q)
     \<and> cl_resumed w' = cl_resumed w @ map fst answers
     \<and> (\<forall>tid st. (tid, st) \<in> set answers \<longrightarrow> cl_tasks w' tid = answered_task pb st (cl_tasks w tid))
     \<and> (\<forall>tid. tid \<notin> fst ` set answers \<longrightarrow> cl_tasks w' tid = cl_tasks w tid)"
  using assms
proof (induction answers arbitrary: cds w)
  case Nil
  then show ?case by simp
next
  case (Cons a answers)
  obtain tid st where a: "a = (tid, st)" by (cases a)
  from Cons.prems(1) obtain conn cds' where cds: "cds = (conn, st) # cds'" "map snd cds' = map snd answers"
    unfolding a by (cases cds) auto
  from Cons.prems(3) have aw: "awaited pb c w tid st" by (simp add: a)
  from rpc_recv_awaited [OF aw] obtain w1 where
    w1: "rpc_recv pb c w st = Some w1" "cl_tasks w1 = (cl_tasks w)(tid := answered_task pb st (cl_tasks w tid))"
        "cl_resumed w1 = cl_resumed w @ [tid]" and others: "\<forall>tid' (st' :: ('p, 's) RpcServerTask). awaited pb c w tid' st' \<and> tid' \<noteq> tid \<longrightarrow> awaited pb c w1 tid' st'"
    by blast
  have tid: "tid \<notin> fst ` set answers" using Cons.prems(2) by (simp add: a)
  have "\<forall>(tid, st)\<in>set answers. awaited pb c w1 tid st"
  proof (clarify)
    fix t s assume "(t, s) \<in> set answers"
    then show "awaited pb c w1 t s" using Cons.prems(3) tid others by (force simp: image_iff)
  qed
  from Cons.IH [OF cds(2) _ this] Cons.prems(2) obtain w' where
    w': "recv_all (\<lambda>w _ st. map_option (\<lambda>w. (w, None)) (rpc_recv pb c w st)) w1 cds' q = Some (w', q)"
        "cl_resumed w' = cl_resumed w1 @ map fst answers"
        "\<forall>tid st. (tid, st) \<in> set answers \<longrightarrow> cl_tasks w' tid = answered_task pb st (cl_tasks w1 tid)"
        "\<forall>tid. tid \<notin> fst ` set answers \<longrightarrow> cl_tasks w' tid = cl_tasks w1 tid" by auto
  have "cl_tasks w' t = answered_task pb s (cl_tasks w t)" if "(t, s) \<in> set (a # answers)" for t s
  proof (cases "(t, s) = a")
    case True
    with a have "t = tid" "s = st" by auto
    with w'(4) tid w1(2) show ?thesis by simp
  next
    case False
    with that have "(t, s) \<in> set answers" by simp
    moreover from this tid have "t \<noteq> tid" by force
    ultimately show ?thesis using w'(3) w1(2) by simp
  qed
  moreover have "cl_tasks w' t = cl_tasks w t" if "t \<notin> fst ` set (a # answers)" for t using that w'(4) w1(2) a by auto
  moreover have "recv_all (\<lambda>w _ st. map_option (\<lambda>w. (w, None)) (rpc_recv pb c w st)) w cds q = Some (w', q)"
    using w'(1) w1(1) cds by (simp add: addTask_def)
  moreover have "cl_resumed w' = cl_resumed w @ map fst (a # answers)" using w'(2) w1(3) by (simp add: a)
  ultimately show ?case by blast
qed

lemma rpc_responses_stream:
  assumes "distinct (map fst answers)" "\<forall>(tid, st)\<in>set answers. awaited pb c w tid st \<and> small_response pb st"
    and "\<forall>(conn, buf)\<in>set bufs. CORPC_RESPONSE_HEAD_SIZE \<le> length buf"
    and "(\<Sum>(tid, st)\<leftarrow>answers. CORPC_RESPONSE_HEAD_SIZE + length (response_body pb st)) \<le> length bufs"
  shows "\<exists>p outs. downflow_all (rpc_server_encode e pb) (pipeline_for response_framing) (map snd answers) bufs = Some (p, [], outs, True)
     \<and> (\<forall>chunks. concat chunks = concat outs \<longrightarrow>
          (\<exists>p' w' q. tcp_upflow_all e' (rpc_client_decode e' pb c) (\<lambda>_. False) chunks (pipeline_for response_framing) w [] = Some (p', w', q, True)
             \<and> (q = [] \<and> cl_resumed w' = cl_resumed w @ map fst answers
             \<and> (\<forall>tid st. (tid, st) \<in> set answers \<longrightarrow> cl_tasks w' tid = answered_task pb st (cl_tasks w tid)))))"
proof (rule responses.stream_delivered [where len = "\<lambda>st. length (response_body pb st)"])
  fix cds assume "map snd cds = map snd answers"
  moreover have "\<forall>(tid, st)\<in>set answers. awaited pb c w tid st" using assms(2) by auto
  ultimately show "\<exists>r' q'. recv_all (\<lambda>w _ st. map_option (\<lambda>w. (w, None)) (rpc_recv pb c w st)) w cds [] = Some (r', q')
      \<and> (q' = [] \<and> cl_resumed r' = cl_resumed w @ map fst answers
      \<and> (\<forall>tid st. (tid, st) \<in> set answers \<longrightarrow> cl_tasks r' tid = answered_task pb st (cl_tasks w tid)))"
    using recv_all_awaited [OF _ assms(1), of cds pb c w "[]"] by blast
next
  show "(\<Sum>st\<leftarrow>map snd answers. 24 + length (response_body pb st)) \<le> length bufs"
    using assms(4) by (simp add: CORPC_RESPONSE_HEAD_SIZE_def split_def comp_def)
qed (use assms in \<open>auto simp: CORPC_RESPONSE_HEAD_SIZE_def response_wire_def Let_def\<close>)

section \<open>The round trip\<close>

text \<open>What the server's worker sends back for a request.\<close>

definition server_answer ::
  "('p, 's) call_method \<Rightarrow> ('p, 'k) rpc_protobuf \<Rightarrow> ('s, 'k) RpcServer \<Rightarrow> ('p, 'k) RpcClientTask \<Rightarrow> ('p, 's) RpcServerTask option" where
  "server_answer call pb server task = do {
     st \<leftarrow> served pb server task;
     out \<leftarrow> rpc_taskCallRoutine call st [];
     (case out of [answer] \<Rightarrow> Some answer | _ \<Rightarrow> None)
   }"

text \<open>
  The result of the service in the caller's objects: the error text and code in the controller, or the
  message.  A call with a timeout finds them in \<open>controller_1\<close> and \<open>response_1\<close>, from where its own
  thread takes them.
\<close>

definition gets_result :: "('p, 'k) rpc_protobuf \<Rightarrow> ('p, 's) RpcServerTask \<Rightarrow> ('p, 'k) RpcClientTask \<Rightarrow> ('p, 'k) RpcClientTask \<Rightarrow> bool" where
  "gets_result pb st task task' \<longleftrightarrow>
     (let c = the (st_controller st) in
      if Failed c
      then (\<exists>c'. (if rt_expireTime task = 0 then rt_controller task' else rt_controller_1 task') = Some c'
              \<and> error_str c' = error_str c \<and> error_code c' = error_code c)
      else (\<exists>r. pb_parse pb (rt_kind task) (pb_bytes pb (the (st_response st))) = Some r
              \<and> (case rt_response_1 task of
                   Response1_same \<Rightarrow> rt_response task' = Some r
                 | Response1_own _ \<Rightarrow> rt_response_1 task' = Response1_own r
                 | Response1_null \<Rightarrow> False)))"

lemma answered_gets_result:
  assumes "answer_call pb (response_error st) (response_body pb st) task \<noteq> None"
  shows "gets_result pb st task (answered_task pb st task)"
proof -
  obtain task' where a: "answer_call pb (response_error st) (response_body pb st) task = Some task'" using assms by auto
  then show ?thesis
    by (cases "rt_response_1 task")
       (auto simp: gets_result_def answered_task_def answer_call_def response_error_def response_body_def Failed_def Let_def
         SetErrorCode_def SetFailed_def Option.bind_eq_Some_conv split: if_splits)
qed

lemma server_tasks:
  assumes "\<forall>tid\<in>set tids. server_answer call pb server (task tid) = Some (answer tid)"
  shows "map (\<lambda>st. rpc_taskCallRoutine call st []) (List.map_filter (served pb server) (map task tids)) =
    map (\<lambda>tid. Some [answer tid]) tids"
  using assms
proof (induction tids)
  case (Cons tid tids)
  from Cons.prems obtain st out where s: "served pb server (task tid) = Some st" "rpc_taskCallRoutine call st [] = Some out"
      "(case out of [a] \<Rightarrow> Some a | _ \<Rightarrow> None) = Some (answer tid)"
    by (auto simp: server_answer_def Option.bind_eq_Some_conv)
  then have "out = [answer tid]" by (auto split: list.splits)
  with Cons s show ?case by (simp add: map_filter_simps)
qed (simp add: map_filter_simps)

text \<open>
  C2: calls and their answers meet.  Take any calls that wait for a response on one connection, and a
  server that knows the methods and whose services return.  The requests reach the server's worker, one
  task per call and in order, each leading to the answer of its method; whatever the order in which the
  workers finish, the responses reach the client, every call finds the result of its own method in its
  objects, and its coroutine is queued for resumption exactly once.  Send buffers, chunks and byte orders
  are arbitrary.
\<close>

theorem rpc_round_trip:
  assumes requests: "\<forall>tid\<in>set tids. valid_request pb (cl_tasks w tid) \<and> length (pb_bytes pb (rt_request (cl_tasks w tid))) \<le> CORPC_MAX_REQUEST_SIZE"
    and answers: "\<forall>tid\<in>set tids. server_answer call pb server (cl_tasks w tid) = Some (answer tid)
      \<and> awaited pb c w tid (answer tid) \<and> small_response pb (answer tid)"
    and order: "distinct tids" "mset order = mset tids"
    and bufs: "\<forall>(conn, buf)\<in>set bufs. CORPC_REQUEST_HEAD_SIZE \<le> length buf"
      "(\<Sum>tid\<leftarrow>tids. CORPC_REQUEST_HEAD_SIZE + length (pb_bytes pb (rt_request (cl_tasks w tid)))) \<le> length bufs"
    and bufs': "\<forall>(conn, buf)\<in>set bufs'. CORPC_RESPONSE_HEAD_SIZE \<le> length buf"
      "(\<Sum>tid\<leftarrow>order. CORPC_RESPONSE_HEAD_SIZE + length (response_body pb (answer tid))) \<le> length bufs'"
  shows "(\<exists>p outs. downflow_all (rpc_client_enc e pb) (pipeline_for request_framing) (map (cl_tasks w) tids) bufs = Some (p, [], outs, True)
       \<and> (\<forall>chunks. concat chunks = concat outs \<longrightarrow>
            (\<exists>p' server' q. tcp_upflow_all e' (rpc_server_decode e' pb) (\<lambda>_. False) chunks (pipeline_for request_framing) server []
                 = Some (p', server', q, True)
               \<and> map (\<lambda>st. rpc_taskCallRoutine call st []) q = map (\<lambda>tid. Some [answer tid]) tids)))
     \<and> (\<exists>p outs. downflow_all (rpc_server_encode e' pb) (pipeline_for response_framing) (map answer order) bufs' = Some (p, [], outs, True)
       \<and> (\<forall>chunks. concat chunks = concat outs \<longrightarrow>
            (\<exists>p' w' q. tcp_upflow_all e (rpc_client_decode e pb c) (\<lambda>_. False) chunks (pipeline_for response_framing) w [] = Some (p', w', q, True)
               \<and> cl_resumed w' = cl_resumed w @ order
               \<and> (\<forall>tid\<in>set tids. gets_result pb (answer tid) (cl_tasks w tid) (cl_tasks w' tid)))))"
proof (intro conjI)
  have "(\<Sum>task\<leftarrow>map (cl_tasks w) tids. CORPC_REQUEST_HEAD_SIZE + length (pb_bytes pb (rt_request task))) \<le> length bufs"
    using bufs(2) by (simp add: comp_def)
  from rpc_requests_stream [OF _ bufs(1) this, of e e' server] requests
    server_tasks [of tids call pb server "cl_tasks w" answer] answers
  show "\<exists>p outs. downflow_all (rpc_client_enc e pb) (pipeline_for request_framing) (map (cl_tasks w) tids) bufs = Some (p, [], outs, True)
       \<and> (\<forall>chunks. concat chunks = concat outs \<longrightarrow>
            (\<exists>p' server' q. tcp_upflow_all e' (rpc_server_decode e' pb) (\<lambda>_. False) chunks (pipeline_for request_framing) server []
                 = Some (p', server', q, True)
               \<and> map (\<lambda>st. rpc_taskCallRoutine call st []) q = map (\<lambda>tid. Some [answer tid]) tids))"
    by fastforce
next
  let ?answers = "map (\<lambda>tid. (tid, answer tid)) order"
  have set: "set order = set tids" using order(2) by (rule mset_eq_setD)
  have "distinct order" using order mset_eq_imp_distinct_iff by blast
  moreover have "\<forall>(tid, st)\<in>set ?answers. awaited pb c w tid st \<and> small_response pb st" using answers set by auto
  moreover have "(\<Sum>(tid, st)\<leftarrow>?answers. CORPC_RESPONSE_HEAD_SIZE + length (response_body pb st)) \<le> length bufs'"
    using bufs'(2) by (simp add: comp_def)
  ultimately obtain p outs where s: "downflow_all (rpc_server_encode e' pb) (pipeline_for response_framing) (map snd ?answers) bufs' = Some (p, [], outs, True)"
    and r: "\<And>chunks. concat chunks = concat outs \<Longrightarrow>
          \<exists>p' w' q. tcp_upflow_all e (rpc_client_decode e pb c) (\<lambda>_. False) chunks (pipeline_for response_framing) w [] = Some (p', w', q, True)
             \<and> (q = [] \<and> cl_resumed w' = cl_resumed w @ map fst ?answers
             \<and> (\<forall>tid st. (tid, st) \<in> set ?answers \<longrightarrow> cl_tasks w' tid = answered_task pb st (cl_tasks w tid)))"
    using rpc_responses_stream [of ?answers pb c w bufs' e' e] bufs'(1) by (simp add: comp_def) blast
  have "gets_result pb (answer tid) (cl_tasks w tid) (answered_task pb (answer tid) (cl_tasks w tid))" if "tid \<in> set tids" for tid
    using answers that by (intro answered_gets_result) (auto simp: awaited_def)
  with r set have "\<exists>p' w' q. tcp_upflow_all e (rpc_client_decode e pb c) (\<lambda>_. False) chunks (pipeline_for response_framing) w [] = Some (p', w', q, True)
               \<and> cl_resumed w' = cl_resumed w @ order
               \<and> (\<forall>tid\<in>set tids. gets_result pb (answer tid) (cl_tasks w tid) (cl_tasks w' tid))"
    if "concat chunks = concat outs" for chunks using r [OF that] by (fastforce simp: comp_def)
  with s show "\<exists>p outs. downflow_all (rpc_server_encode e' pb) (pipeline_for response_framing) (map answer order) bufs' = Some (p, [], outs, True)
       \<and> (\<forall>chunks. concat chunks = concat outs \<longrightarrow>
            (\<exists>p' w' q. tcp_upflow_all e (rpc_client_decode e pb c) (\<lambda>_. False) chunks (pipeline_for response_framing) w [] = Some (p', w', q, True)
               \<and> cl_resumed w' = cl_resumed w @ order
               \<and> (\<forall>tid\<in>set tids. gets_result pb (answer tid) (cl_tasks w tid) (cl_tasks w' tid))))"
    by (simp add: comp_def)
qed

text \<open>An instance: two calls of a method that appends a byte; the second is answered first.\<close>

definition sample_client :: "(byte list, unit) RpcClient" where
  "sample_client = (rpc_init (\<lambda>tid. (sample_call 0)\<lparr>rt_co := of_nat tid + 1, rt_request := [of_nat tid]\<rparr>) (\<lambda>_. Some sample_env) Map.empty [])
     \<lparr>cl_conns := [\<lparr>rc_channel = 0, rc_st = CONNECTED, rc_waitSend = [], rc_waitResult = [(1, 0), (2, 1)], rc_datas = [], rc_added = True\<rparr>]\<rparr>"

definition sample_service :: "(byte list, nat) call_method" where
  "sample_service s md request result = (Some (request @ [9]), snd result)"

definition sample_answer :: "nat \<Rightarrow> (byte list, nat) RpcServerTask" where
  "sample_answer tid = the (server_answer sample_service bytes_rpc_pb sample_server (cl_tasks sample_client tid))"

lemmas sample_client_defs = sample_client_def rpc_init_def sample_call_def server_answer_def served_def sample_server_def
  rpc_registerService_def sample_method_def rpc_taskCallRoutine_def sample_service_def sample_answer_def

theorem rpc_round_trip_witness:
  "(\<exists>p outs. downflow_all (rpc_server_encode BigEndian bytes_rpc_pb) (pipeline_for response_framing) (map sample_answer [1, 0])
         (replicate 60 ((), replicate 24 0)) = Some (p, [], outs, True)
       \<and> (\<forall>chunks. concat chunks = concat outs \<longrightarrow>
            (\<exists>p' w' q. tcp_upflow_all LittleEndian (rpc_client_decode LittleEndian bytes_rpc_pb 0) (\<lambda>_. False) chunks
                 (pipeline_for response_framing) sample_client [] = Some (p', w', q, True)
               \<and> cl_resumed w' = cl_resumed sample_client @ [1, 0]
               \<and> (\<forall>tid\<in>set [0, 1]. gets_result bytes_rpc_pb (sample_answer tid) (cl_tasks sample_client tid) (cl_tasks w' tid)))))"
proof (rule conjunct2 [OF rpc_round_trip])
  show "\<forall>tid\<in>set [0, 1]. valid_request bytes_rpc_pb (cl_tasks sample_client tid)
      \<and> length (pb_bytes bytes_rpc_pb (rt_request (cl_tasks sample_client tid))) \<le> CORPC_MAX_REQUEST_SIZE"
    by (simp add: valid_request_def sample_client_defs CORPC_MAX_REQUEST_SIZE_def)
  show "\<forall>tid\<in>set [0, 1]. server_answer sample_service bytes_rpc_pb sample_server (cl_tasks sample_client tid) = Some (sample_answer tid)
      \<and> awaited bytes_rpc_pb 0 sample_client tid (sample_answer tid) \<and> small_response bytes_rpc_pb (sample_answer tid)"
    by (simp add: sample_client_defs awaited_def small_response_def valid_response_def response_body_def response_error_def
        answer_call_def new_Controller_def Failed_def CORPC_MAX_RESPONSE_SIZE_def)
  show "(\<Sum>tid\<leftarrow>[0, 1]. CORPC_REQUEST_HEAD_SIZE + length (pb_bytes bytes_rpc_pb (rt_request (cl_tasks sample_client tid)))) \<le>
      length (replicate 60 ((), replicate 28 (0 :: byte)))" by (simp add: sample_client_defs CORPC_REQUEST_HEAD_SIZE_def)
  show "(\<Sum>tid\<leftarrow>[1, 0]. CORPC_RESPONSE_HEAD_SIZE + length (response_body bytes_rpc_pb (sample_answer tid))) \<le>
      length (replicate 60 ((), replicate 24 (0 :: byte)))"
    by (simp add: sample_client_defs CORPC_RESPONSE_HEAD_SIZE_def response_body_def new_Controller_def Failed_def)
qed (simp_all add: CORPC_REQUEST_HEAD_SIZE_def CORPC_RESPONSE_HEAD_SIZE_def)

end
