(* ===== verification/RpcCalls.thy ===== *)
theory RpcCalls
  imports RpcClient
begin

text \<open>
  The invariant of an RPC client's state and the routines of its own thread: they keep the invariant, do
  not crash except on a channel that is being cleared, and neither lose nor duplicate the calls they handle.
\<close>

section \<open>Invariant\<close>

definition conn_inv :: "('p, 'k) RpcClient \<Rightarrow> nat \<Rightarrow> RpcConnection \<Rightarrow> bool" where
  "conn_inv w c conn \<longleftrightarrow>
     (rc_st conn \<noteq> CONNECTING \<longrightarrow> rc_waitSend conn = [])
     \<and> (rc_st conn = CONNECTING \<longrightarrow> rc_waitResult conn = [] \<and> (Task_CONNECT c \<in> set (connectionTaskQueue w) \<or> cl_connecting w = Some c))
     \<and> keys_sorted (rc_waitResult conn)
     \<and> (\<forall>(k, tid)\<in>set (rc_waitResult conn). rt_co (cl_tasks w tid) = k \<and> rt_response (cl_tasks w tid) \<noteq> None)
     \<and> cl_channels w (rc_channel conn) \<noteq> None
     \<and> set (conn_calls conn) \<union> set (rc_datas conn) \<subseteq> set (cl_issued w)"

definition slot_ok :: "nat \<Rightarrow> ChannelCore \<Rightarrow> bool" where
  "slot_ok n ch \<longleftrightarrow> length (ch_connections ch) < 2 ^ 32 \<and> (\<forall>c. Some c \<in> set (ch_connections ch) \<longrightarrow> c < n)"

abbreviation conn_st :: "('p, 'k) RpcClient \<Rightarrow> nat \<Rightarrow> RpcStatus" where
  "conn_st w c \<equiv> rc_st (cl_conns w ! c)"

abbreviation statuses :: "('p, 'k) RpcClient \<Rightarrow> RpcStatus list" where
  "statuses w \<equiv> map rc_st (cl_conns w)"

definition queue_inv :: "RpcStatus list \<Rightarrow> ConnectionTask list \<Rightarrow> nat option \<Rightarrow> nat list \<Rightarrow> bool" where
  "queue_inv sts q connecting io \<longleftrightarrow>
     distinct (q @ map Task_CONNECT (case connecting of None \<Rightarrow> [] | Some c \<Rightarrow> [c]) @ map Task_CLOSE io)
     \<and> (\<forall>c. Task_CONNECT c \<in> set q \<or> connecting = Some c \<longrightarrow> c < length sts \<and> sts ! c = CONNECTING)
     \<and> (\<forall>c. Task_CLOSE c \<in> set q \<or> c \<in> set io \<longrightarrow> c < length sts \<and> sts ! c = CONNECTED)"

definition chan_inv :: "nat \<Rightarrow> (nat \<rightharpoonup> ChannelCore) \<Rightarrow> (nat \<times> nat) list \<Rightarrow> bool" where
  "chan_inv n channels queue \<longleftrightarrow>
     (\<forall>ch x. channels ch = Some x \<longrightarrow> slot_ok n x)
     \<and> (\<forall>(ch, tid)\<in>set queue. channels ch \<noteq> None)"

definition calls_inv :: "('p, 'k) RpcClient \<Rightarrow> bool" where
  "calls_inv w \<longleftrightarrow> (\<forall>tid\<in>set (cl_issued w). equipped w tid) \<and> distinct (cl_issued w)
     \<and> snd ` set (taskQueue w) \<subseteq> set (cl_issued w) \<and> set (cl_resumed w) \<subseteq> set (cl_issued w)"

definition rpc_inv :: "('p, 'k) RpcClient \<Rightarrow> bool" where
  "rpc_inv w \<longleftrightarrow>
     (\<forall>c < length (cl_conns w). conn_inv w c (cl_conns w ! c))
     \<and> queue_inv (statuses w) (connectionTaskQueue w) (cl_connecting w) (cl_io w)
     \<and> chan_inv (length (cl_conns w)) (cl_channels w) (taskQueue w) \<and> calls_inv w"

lemma rpc_invI:
  assumes "\<And>c. c < length (cl_conns w) \<Longrightarrow> conn_inv w c (cl_conns w ! c)"
    "queue_inv (statuses w) (connectionTaskQueue w) (cl_connecting w) (cl_io w)"
    "chan_inv (length (cl_conns w)) (cl_channels w) (taskQueue w)" "calls_inv w"
  shows "rpc_inv w"
  using assms unfolding rpc_inv_def by blast

lemma rpc_invD:
  assumes "rpc_inv w"
  shows "c < length (cl_conns w) \<Longrightarrow> conn_inv w c (cl_conns w ! c)"
    "queue_inv (statuses w) (connectionTaskQueue w) (cl_connecting w) (cl_io w)"
    "chan_inv (length (cl_conns w)) (cl_channels w) (taskQueue w)" "calls_inv w"
  using assms unfolding rpc_inv_def by blast+

text \<open>A connection's part of the invariant, when the rest of the state changes.\<close>

lemma conn_inv_mono:
  assumes "conn_inv w c conn"
    "\<And>tid. tid \<in> set (conn_calls conn) \<Longrightarrow> call_sig (cl_tasks w' tid) = call_sig (cl_tasks w tid)"
    "Task_CONNECT c \<in> set (connectionTaskQueue w) \<or> cl_connecting w = Some c \<Longrightarrow>
       rc_st conn = CONNECTING \<Longrightarrow> Task_CONNECT c \<in> set (connectionTaskQueue w') \<or> cl_connecting w' = Some c"
    "\<And>n. cl_channels w n \<noteq> None \<Longrightarrow> cl_channels w' n \<noteq> None" "set (cl_issued w) \<subseteq> set (cl_issued w')"
  shows "conn_inv w' c conn"
proof -
  have "rt_co (cl_tasks w' tid) = k \<and> rt_response (cl_tasks w' tid) \<noteq> None" if "(k, tid) \<in> set (rc_waitResult conn)" for k tid
  proof -
    have "tid \<in> set (conn_calls conn)" using that by (force simp: conn_calls_def)
    from call_sig_eqD [OF assms(2) [OF this]] assms(1) that show ?thesis unfolding conn_inv_def by fastforce
  qed
  with assms(1,3-5) show ?thesis unfolding conn_inv_def by (auto 0 3)
qed

lemma rpc_inv_undisturbed:
  assumes inv: "rpc_inv w" and u: "undisturbed w w'" and resumed: "set (cl_resumed w') \<subseteq> set (cl_issued w)"
  shows "rpc_inv w'"
proof (rule rpc_invI)
  note eqs = undisturbedD [OF u]
  show "conn_inv w' c (cl_conns w' ! c)" if "c < length (cl_conns w')" for c
  proof (rule conn_inv_mono [of w])
    show "conn_inv w c (cl_conns w' ! c)" using rpc_invD(1) [OF inv] that by (simp add: eqs)
  qed (simp_all add: eqs)
  show "calls_inv w'"
    using rpc_invD(4) [OF inv] resumed by (simp add: calls_inv_def eqs equipped_cong [OF u])
qed (use rpc_invD(2,3) [OF inv] in \<open>simp_all add: undisturbedD [OF u]\<close>)

lemma equipped_upd_conn [simp]: "equipped (upd_conn c f w) tid = equipped w tid"
  by (simp add: equipped_def)

lemma calls_inv_upd_conn [simp]: "calls_inv (upd_conn c f w) = calls_inv w"
  by (simp add: calls_inv_def)

lemma conn_inv_upd_conn [simp]: "conn_inv (upd_conn c f w) c' conn = conn_inv w c' conn"
  by (simp add: conn_inv_def)

lemma statuses_upd_conn: "statuses (upd_conn c f w) = (statuses w)[c := rc_st (f (cl_conns w ! c))]"
  by (simp add: upd_conn_def map_update)

text \<open>A change to one connection that keeps its state.\<close>

lemma rpc_inv_upd_conn:
  assumes inv: "rpc_inv w" and c: "c < length (cl_conns w)"
    and conn: "conn_inv w c (f (cl_conns w ! c))" and st: "rc_st (f (cl_conns w ! c)) = conn_st w c"
  shows "rpc_inv (upd_conn c f w)"
proof (rule rpc_invI)
  have "(statuses w)[c := conn_st w c] = statuses w" using c by (simp add: list_update_same_conv)
  then show "queue_inv (statuses (upd_conn c f w)) (connectionTaskQueue (upd_conn c f w)) (cl_connecting (upd_conn c f w)) (cl_io (upd_conn c f w))"
    using rpc_invD(2) [OF inv] by (simp add: statuses_upd_conn st)
qed (use rpc_invD(1,3,4) [OF inv] conn in simp_all)

text \<open>Sending keeps the invariant on a connection that is established.\<close>

lemma send_call_inv:
  assumes inv: "rpc_inv w" and c: "c < length (cl_conns w)" "conn_st w c \<noteq> CONNECTING" and tid: "tid \<in> set (cl_issued w)"
    and s: "send_call now c tid w = Some w'"
  shows "rpc_inv w' \<and> conn_st w' c = conn_st w c \<and> cl_issued w' = cl_issued w \<and> length (cl_conns w') = length (cl_conns w)
    \<and> cl_tasks w' = cl_tasks w"
proof -
  note conn = rpc_invD(1) [OF inv c(1)]
  have send: "rpc_inv (sender_send c tid w)" if "rpc_inv w" "c < length (cl_conns w)" "tid \<in> set (cl_issued w)" for w :: "('a, 'b) RpcClient"
    unfolding sender_send_def
    by (rule rpc_inv_upd_conn [OF that(1,2)]) (use rpc_invD(1) [OF that(1,2)] that(3) in \<open>auto simp: conn_inv_def conn_calls_def\<close>)
  let ?f = "\<lambda>conn. conn\<lparr>rc_waitResult := smap_put (rt_co (cl_tasks w tid)) tid (rc_waitResult conn)\<rparr>"
  have put: "rpc_inv (upd_conn c ?f w)" if "rt_response (cl_tasks w tid) \<noteq> None"
  proof (rule rpc_inv_upd_conn [OF inv c(1)])
    have mem: "set (rc_waitResult (?f (cl_conns w ! c))) \<subseteq> insert (rt_co (cl_tasks w tid), tid) (set (rc_waitResult (cl_conns w ! c)))"
      by (simp add: set_smap_put)
    then have "\<forall>(k, t)\<in>set (rc_waitResult (?f (cl_conns w ! c))). rt_co (cl_tasks w t) = k \<and> rt_response (cl_tasks w t) \<noteq> None"
      using conn that unfolding conn_inv_def by blast
    moreover have "set (conn_calls (?f (cl_conns w ! c))) \<subseteq> insert tid (set (conn_calls (cl_conns w ! c)))"
      using image_mono [OF mem, of snd] by (auto simp: conn_calls_def)
    ultimately show "conn_inv w c (?f (cl_conns w ! c))"
      using conn c(2) tid by (auto simp: conn_inv_def smap_put_sorted)
  qed simp
  show ?thesis
    using inv s send [OF put] send [OF inv] c tid by (auto simp: send_call_def Let_def sender_send_def split: if_splits)
qed

section \<open>Accounting\<close>

definition pend :: "('p, 'k) RpcClient \<Rightarrow> u64 \<Rightarrow> nat multiset" where
  "pend w co = filter_mset (waits (cl_tasks w) co) (mset (pending w))"

lemma pend_upd_conn:
  assumes "c < length (cl_conns w)"
    and "filter_mset (waits (cl_tasks w) co) (mset (conn_calls (f (cl_conns w ! c)))) + gone =
         filter_mset (waits (cl_tasks w) co) (mset (conn_calls (cl_conns w ! c))) + extra"
  shows "pend (upd_conn c f w) co + gone = pend w co + extra"
proof -
  let ?F = "filter_mset (waits (cl_tasks w) co)"
  have "?F (mset (pending (upd_conn c f w)) + mset (conn_calls (cl_conns w ! c))) =
      ?F (mset (pending w) + mset (conn_calls (f (cl_conns w ! c))))"
    by (simp add: pending_upd_conn [OF assms(1)])
  then have "pend (upd_conn c f w) co + ?F (mset (conn_calls (cl_conns w ! c))) =
      pend w co + ?F (mset (conn_calls (f (cl_conns w ! c))))" by (simp add: pend_def)
  then have "pend (upd_conn c f w) co + ?F (mset (conn_calls (cl_conns w ! c))) + gone =
      pend w co + (?F (mset (conn_calls (f (cl_conns w ! c)))) + gone)" by simp
  also have "\<dots> = pend w co + ?F (mset (conn_calls (cl_conns w ! c))) + extra" by (simp add: assms(2))
  finally show ?thesis by (simp add: ac_simps)
qed

lemma pend_sender_send [simp]: "c < length (cl_conns w) \<Longrightarrow> pend (sender_send c tid w) co = pend w co"
  using pend_upd_conn [of c w co "\<lambda>conn. conn\<lparr>rc_datas := rc_datas conn @ [tid]\<rparr>" "{#}" "{#}"]
  by (simp add: sender_send_def conn_calls_def)

lemma in_pending: "c < length (cl_conns w) \<Longrightarrow> tid \<in> set (conn_calls (cl_conns w ! c)) \<Longrightarrow> tid \<in> set (pending w)"
  by (auto simp: pending_def)

lemma waitResult_waits:
  assumes "rpc_inv w" "c < length (cl_conns w)" "map_of (rc_waitResult (cl_conns w ! c)) k = Some tid"
  shows "waits (cl_tasks w) k tid" "tid \<in> set (pending w)"
proof -
  from map_of_SomeD [OF assms(3)] have m: "(k, tid) \<in> set (rc_waitResult (cl_conns w ! c))" .
  with rpc_invD(1) [OF assms(1,2)] show "waits (cl_tasks w) k tid" by (auto simp: conn_inv_def waits_def)
  show "tid \<in> set (pending w)" using m by (intro in_pending [OF assms(2)]) (force simp: conn_calls_def)
qed

lemma send_call_pend:
  assumes inv: "rpc_inv w" and c: "c < length (cl_conns w)"
    and tid: "waits (cl_tasks w) co tid \<Longrightarrow> rt_expireTime (cl_tasks w tid) = 0 \<and> pend w co = {#}"
    and s: "send_call now c tid w = Some w'"
  shows "pend w' co = pend w co + filter_mset (waits (cl_tasks w) co) {#tid#}"
proof (cases "rt_response (cl_tasks w tid) \<noteq> None \<and> (rt_expireTime (cl_tasks w tid) = 0 \<or> now < rt_expireTime (cl_tasks w tid))")
  case False
  then have "\<not> waits (cl_tasks w) co tid" using tid unfolding waits_def by blast
  with False s c show ?thesis by (auto simp: send_call_def Let_def split: if_splits)
next
  case True
  let ?k = "rt_co (cl_tasks w tid)" and ?conn = "cl_conns w ! c"
  let ?f = "\<lambda>conn. conn\<lparr>rc_waitResult := smap_put ?k tid (rc_waitResult conn)\<rparr>"
  let ?F = "filter_mset (waits (cl_tasks w) co)"
  have none: "?F (mset (case map_of (rc_waitResult ?conn) ?k of None \<Rightarrow> [] | Some old \<Rightarrow> [old])) = {#}"
  proof (cases "map_of (rc_waitResult ?conn) ?k")
    case (Some old)
    note old = waitResult_waits [OF inv c Some]
    have "\<not> waits (cl_tasks w) co old"
    proof
      assume w: "waits (cl_tasks w) co old"
      with old(1) True have "waits (cl_tasks w) co tid" by (auto simp: waits_def)
      with tid have "pend w co = {#}" by simp
      with w old(2) show False by (auto simp: pend_def filter_mset_eq_conv)
    qed
    with Some show ?thesis by simp
  qed simp
  have "keys_sorted (rc_waitResult ?conn)" using rpc_invD(1) [OF inv c] by (simp add: conn_inv_def)
  from arg_cong [OF smap_put_mset [OF this, of ?k tid], of ?F]
  have "?F (mset (map snd (smap_put ?k tid (rc_waitResult ?conn))))
      + ?F (mset (case map_of (rc_waitResult ?conn) ?k of None \<Rightarrow> [] | Some old \<Rightarrow> [old]))
      = ?F {#tid#} + ?F (mset (map snd (rc_waitResult ?conn)))" by simp
  then have "?F (mset (map snd (smap_put ?k tid (rc_waitResult ?conn)))) = ?F {#tid#} + ?F (mset (map snd (rc_waitResult ?conn)))"
    unfolding none by (simp only: add.right_neutral)
  then have "?F (mset (conn_calls (?f ?conn))) + {#} = ?F (mset (conn_calls ?conn)) + ?F {#tid#}"
    by (simp add: conn_calls_def ac_simps)
  from pend_upd_conn [where f = ?f, OF c this] True s c show ?thesis by (auto simp: send_call_def Let_def)
qed

section \<open>The routines\<close>

lemma next_index:
  assumes "xs \<noteq> []" "length xs < 2 ^ 32"
  shows "unat ((i + 1 :: u32) mod word_of_nat (length xs)) < length xs"
  using assms by (simp add: unat_mod unat_of_nat_u32)

text \<open>A new connection object in its slot, with its \<open>CONNECT\<close> task queued.\<close>

lemma add_connection_inv:
  fixes w :: "('p, 'k) RpcClient" and ix :: u32
  assumes inv: "rpc_inv w" and ch: "cl_channels w n = Some ch" and i: "i < length (ch_connections ch)"
  defines "c \<equiv> length (cl_conns w)"
  defines "w' \<equiv> w\<lparr>cl_conns := cl_conns w @ [(new_RpcConnection n)\<lparr>rc_st := CONNECTING\<rparr>],
     cl_channels := (cl_channels w)(n \<mapsto> ch\<lparr>ch_conIndex := ix, ch_connections := (ch_connections ch)[i := Some c]\<rparr>),
     connectionTaskQueue := connectionTaskQueue w @ [Task_CONNECT c]\<rparr>"
  shows "rpc_inv w' \<and> pending w' = pending w"
proof (intro conjI rpc_invI)
  fix c' assume c': "c' < length (cl_conns w')"
  show "conn_inv w' c' (cl_conns w' ! c')"
  proof (cases "c' = c")
    case True
    then show ?thesis by (simp add: w'_def c_def conn_inv_def new_RpcConnection_def conn_calls_def)
  next
    case False
    then have old: "c' < length (cl_conns w)" "cl_conns w' ! c' = cl_conns w ! c'" using c' by (auto simp: w'_def c_def nth_append)
    show ?thesis unfolding old(2)
      by (rule conn_inv_mono [OF rpc_invD(1) [OF inv old(1)]]) (auto simp: w'_def)
  qed
next
  have "Task_CONNECT c \<notin> set (connectionTaskQueue w)" "cl_connecting w \<noteq> Some c" "c \<notin> set (cl_io w)"
    using rpc_invD(2) [OF inv] by (auto simp: queue_inv_def c_def)
  then show "queue_inv (statuses w') (connectionTaskQueue w') (cl_connecting w') (cl_io w')"
    using rpc_invD(2) [OF inv] by (fastforce simp: queue_inv_def w'_def c_def nth_append split: option.split)
next
  have "slot_ok (length (cl_conns w')) (ch\<lparr>ch_conIndex := ix, ch_connections := (ch_connections ch)[i := Some c]\<rparr>)"
    using rpc_invD(3) [OF inv] ch set_update_subset_insert [of "ch_connections ch" i "Some c"]
    by (fastforce simp: chan_inv_def slot_ok_def w'_def c_def)
  moreover have "slot_ok (length (cl_conns w')) x" if "cl_channels w m = Some x" for m x
    using rpc_invD(3) [OF inv] that by (fastforce simp: chan_inv_def slot_ok_def w'_def)
  ultimately show "chan_inv (length (cl_conns w')) (cl_channels w') (taskQueue w')"
    using rpc_invD(3) [OF inv] ch i by (fastforce simp: chan_inv_def w'_def)
next
  show "calls_inv w'" using rpc_invD(4) [OF inv] by (simp add: calls_inv_def equipped_def w'_def)
  show "pending w' = pending w" by (simp add: pending_def conn_calls_def w'_def new_RpcConnection_def)
qed

lemma set_channel_inv:
  assumes inv: "rpc_inv w" and ch: "cl_channels w n = Some ch" and ch': "ch_connections ch' = ch_connections ch"
  shows "rpc_inv (w\<lparr>cl_channels := (cl_channels w)(n \<mapsto> ch')\<rparr>)"
proof (rule rpc_invI)
  let ?w = "w\<lparr>cl_channels := (cl_channels w)(n \<mapsto> ch')\<rparr>"
  show "conn_inv ?w c (cl_conns ?w ! c)" if "c < length (cl_conns ?w)" for c
    using that rpc_invD(1) [OF inv, of c] by (auto intro: conn_inv_mono)
  have "slot_ok (length (cl_conns w)) ch" using rpc_invD(3) [OF inv] ch by (auto simp: chan_inv_def)
  then have "slot_ok (length (cl_conns w)) ch'" by (simp add: slot_ok_def ch')
  then show "chan_inv (length (cl_conns ?w)) (cl_channels ?w) (taskQueue ?w)"
    using rpc_invD(3) [OF inv] ch ch' by (fastforce simp: chan_inv_def)
qed (use rpc_invD(2,4) [OF inv] in \<open>simp_all add: calls_inv_def equipped_def\<close>)

lemma getNextConnection_ok:
  assumes inv: "rpc_inv w" and ch: "cl_channels w n = Some ch" "ch_connections ch \<noteq> []"
  shows "\<exists>w' c. getNextConnection n w = Some (w', Some c) \<and> rpc_inv w' \<and> c < length (cl_conns w') \<and> conn_st w' c \<noteq> CLOSED
     \<and> pending w' = pending w \<and> cl_tasks w' = cl_tasks w \<and> cl_issued w' = cl_issued w \<and> cl_resumed w' = cl_resumed w"
proof -
  define i where "i = (ch_conIndex ch + 1) mod word_of_nat (length (ch_connections ch))"
  have slots: "slot_ok (length (cl_conns w)) ch" using rpc_invD(3) [OF inv] ch by (auto simp: chan_inv_def)
  then have i: "unat i < length (ch_connections ch)" unfolding i_def using next_index [OF ch(2)] by (simp add: slot_ok_def)
  let ?slot = "ch_connections ch ! unat i"
  let ?new = "w\<lparr>cl_conns := cl_conns w @ [(new_RpcConnection n)\<lparr>rc_st := CONNECTING\<rparr>],
     cl_channels := (cl_channels w)(n \<mapsto> ch\<lparr>ch_conIndex := i, ch_connections := (ch_connections ch)[unat i := Some (length (cl_conns w))]\<rparr>),
     connectionTaskQueue := connectionTaskQueue w @ [Task_CONNECT (length (cl_conns w))]\<rparr>"
  have c: "c < length (cl_conns w)" if "?slot = Some c" for c
    using slots nth_mem [OF i] that by (auto simp: slot_ok_def)
  show ?thesis
  proof (cases "needs_connection w ?slot = Some True")
    case True
    then have "getNextConnection n w = Some (?new, Some (length (cl_conns w)))"
      using ch by (simp add: getNextConnection_def i_def [symmetric] Let_def)
    then show ?thesis
      using add_connection_inv [OF inv ch(1) i] by (intro exI [of _ ?new] exI [of _ "length (cl_conns w)"]) simp
  next
    case False
    then obtain c' where slot: "?slot = Some c'" "conn_st w c' \<noteq> CLOSED"
      using c by (auto simp: needs_connection_def get_conn_def split: option.splits)
    then have "needs_connection w ?slot = Some False" using c by (simp add: needs_connection_def get_conn_def)
    then have "getNextConnection n w = Some (w\<lparr>cl_channels := (cl_channels w)(n \<mapsto> ch\<lparr>ch_conIndex := i\<rparr>)\<rparr>, Some c')"
      using ch slot by (simp add: getNextConnection_def i_def [symmetric] Let_def)
    moreover have "rpc_inv (w\<lparr>cl_channels := (cl_channels w)(n \<mapsto> ch\<lparr>ch_conIndex := i\<rparr>)\<rparr>)"
      by (rule set_channel_inv [OF inv ch(1)]) simp
    ultimately show ?thesis using slot c [OF slot(1)] by (simp add: pending_def)
  qed
qed

text \<open>
  A coroutine whose calls have no timeout, with at most one call on its way.
\<close>

definition co_ok :: "('p, 'k) RpcClient \<Rightarrow> u64 \<Rightarrow> bool" where
  "co_ok w co \<longleftrightarrow> size (pend w co) \<le> 1 \<and> (\<forall>tid\<in>set (cl_issued w). waits (cl_tasks w) co tid \<longrightarrow> rt_expireTime (cl_tasks w tid) = 0)"

lemma pop_task_inv:
  assumes inv: "rpc_inv w" and q: "taskQueue w = (n, tid) # rest"
  shows "rpc_inv (w\<lparr>taskQueue := rest\<rparr>)" "tid \<in> set (cl_issued w)"
    "\<exists>ch. cl_channels w n = Some ch"
    "pend w co = pend (w\<lparr>taskQueue := rest\<rparr>) co + filter_mset (waits (cl_tasks w) co) {#tid#}"
proof -
  show "rpc_inv (w\<lparr>taskQueue := rest\<rparr>)"
  proof (rule rpc_invI)
    show "conn_inv (w\<lparr>taskQueue := rest\<rparr>) c (cl_conns (w\<lparr>taskQueue := rest\<rparr>) ! c)" if "c < length (cl_conns (w\<lparr>taskQueue := rest\<rparr>))" for c
      using that rpc_invD(1) [OF inv, of c] by (auto intro: conn_inv_mono)
  qed (use rpc_invD(2-4) [OF inv] q in \<open>auto simp: calls_inv_def equipped_def chan_inv_def\<close>)
  show "tid \<in> set (cl_issued w)" using rpc_invD(4) [OF inv] q by (simp add: calls_inv_def)
  show "\<exists>ch. cl_channels w n = Some ch" using rpc_invD(3) [OF inv] q by (simp add: chan_inv_def)
  show "pend w co = pend (w\<lparr>taskQueue := rest\<rparr>) co + filter_mset (waits (cl_tasks w) co) {#tid#}"
    using q by (simp add: pend_def pending_def)
qed

lemma wait_for_connection:
  assumes inv: "rpc_inv w" and c: "c < length (cl_conns w)" "conn_st w c = CONNECTING" and tid: "tid \<in> set (cl_issued w)"
  defines "w' \<equiv> upd_conn c (\<lambda>conn. conn\<lparr>rc_waitSend := rc_waitSend conn @ [tid]\<rparr>) w"
  shows "rpc_inv w' \<and> pend w' co = pend w co + filter_mset (waits (cl_tasks w) co) {#tid#}"
proof
  show "rpc_inv w'" unfolding w'_def
    by (rule rpc_inv_upd_conn [OF inv c(1)])
       (use rpc_invD(1) [OF inv c(1)] c(2) tid in \<open>auto simp: conn_inv_def conn_calls_def\<close>)
  show "pend w' co = pend w co + filter_mset (waits (cl_tasks w) co) {#tid#}"
    using pend_upd_conn [OF c(1), of co "\<lambda>conn. conn\<lparr>rc_waitSend := rc_waitSend conn @ [tid]\<rparr>" "{#}"
        "filter_mset (waits (cl_tasks w) co) {#tid#}"]
    by (simp add: w'_def conn_calls_def)
qed

lemma send_call_total: "\<exists>w'. send_call now c tid w = Some w'"
  by (auto simp: send_call_def Let_def)

lemma send_call_resumed: "send_call now c tid w = Some w' \<Longrightarrow> cl_resumed w' = cl_resumed w"
  by (auto simp: send_call_def Let_def sender_send_def split: if_splits)

text \<open>The next request is for a channel that has been cleared.\<close>

definition next_cleared :: "('p, 'k) RpcClient \<Rightarrow> bool" where
  "next_cleared w \<longleftrightarrow> (\<exists>n tid rest ch. taskQueue w = (n, tid) # rest \<and> cl_channels w n = Some ch \<and> ch_connections ch = [])"

lemma taskHandle_cleared: "next_cleared w \<Longrightarrow> taskHandle_one strerror now w = None"
  by (auto simp: next_cleared_def taskHandle_one_def getNextConnection_def)

lemma taskHandle_ok:
  assumes inv: "rpc_inv w" and use: "\<not> next_cleared w"
  shows "\<exists>w'. taskHandle_one strerror now w = Some w' \<and> rpc_inv w' \<and> cl_tasks w' = cl_tasks w \<and> cl_issued w' = cl_issued w
     \<and> cl_resumed w' = cl_resumed w \<and> (\<forall>co. co_ok w co \<longrightarrow> pend w' co = pend w co)"
proof (cases "taskQueue w")
  case Nil
  with inv show ?thesis by (simp add: taskHandle_one_def)
next
  case (Cons x rest)
  obtain n tid where x: "x = (n, tid)" by (cases x)
  let ?w0 = "w\<lparr>taskQueue := rest\<rparr>"
  note q = Cons [unfolded x]
  note pop = pop_task_inv [OF inv q]
  from pop(3) use q obtain ch where "cl_channels ?w0 n = Some ch" "ch_connections ch \<noteq> []" by (auto simp: next_cleared_def)
  from getNextConnection_ok [OF pop(1) this] obtain w1 c where
    g: "getNextConnection n ?w0 = Some (w1, Some c)" "rpc_inv w1" "c < length (cl_conns w1)" "conn_st w1 c \<noteq> CLOSED"
       "pending w1 = pending ?w0" "cl_tasks w1 = cl_tasks w" "cl_issued w1 = cl_issued w" "cl_resumed w1 = cl_resumed w" by auto
  have pend1: "pend w co = pend w1 co + filter_mset (waits (cl_tasks w1) co) {#tid#}" for co
    using pop(4) [of co] g(5,6) by (simp add: pend_def)
  have tid: "tid \<in> set (cl_issued w1)" using pop(2) g(7) by simp
  show ?thesis
  proof (cases "conn_st w1 c = CONNECTING")
    case True
    let ?w' = "upd_conn c (\<lambda>conn. conn\<lparr>rc_waitSend := rc_waitSend conn @ [tid]\<rparr>) w1"
    have "taskHandle_one strerror now w = Some ?w'" using q g True by (simp add: taskHandle_one_def get_conn_def)
    moreover have "rpc_inv ?w'" "pend ?w' co = pend w co" for co
      using wait_for_connection [OF g(2,3) True tid] pend1 [of co] by auto
    ultimately show ?thesis using g by simp
  next
    case False
    from send_call_total obtain w' where s: "send_call now c tid w1 = Some w'" by blast
    then have "taskHandle_one strerror now w = Some w'" using q g False by (simp add: taskHandle_one_def get_conn_def)
    moreover have "pend w' co = pend w co" if "co_ok w co" for co
      using send_call_pend [OF g(2,3) _ s, of co] pend1 [of co] that tid g(6,7) by (auto simp: co_ok_def)
    ultimately show ?thesis using send_call_inv [OF g(2,3) False tid s] send_call_resumed [OF s] g by auto
  qed
qed

text \<open>The calls of a coroutine that were resumed.\<close>

definition res :: "('p, 'k) RpcClient \<Rightarrow> u64 \<Rightarrow> nat multiset" where
  "res w co = filter_mset (waits (cl_tasks w) co) (mset (cl_resumed w))"

lemma waits_cong:
  assumes "undisturbed w w'"
  shows "waits (cl_tasks w') co = waits (cl_tasks w) co"
proof
  show "waits (cl_tasks w') co tid = waits (cl_tasks w) co tid" for tid
    using call_sig_eqD(2,4) [OF undisturbedD(9) [OF assms, of tid]] by (simp add: waits_def)
qed

lemma pend_undisturbed:
  assumes "undisturbed w w'"
  shows "pend w' co = pend w co"
  by (simp add: pend_def waits_cong [OF assms] undisturbedD(11) [OF assms])

lemma res_undisturbed:
  assumes "undisturbed w w'" "cl_resumed w' = cl_resumed w @ tids"
  shows "res w' co = res w co + filter_mset (waits (cl_tasks w) co) (mset tids)"
  using assms(2) by (simp add: res_def waits_cong [OF assms(1)])

lemma close_conn_inv:
  assumes inv: "rpc_inv w" and q: "connectionTaskQueue w = Task_CLOSE c # rest"
  defines "w1 \<equiv> upd_conn c (\<lambda>conn. conn\<lparr>rc_st := CLOSED, rc_waitResult := []\<rparr>) (w\<lparr>connectionTaskQueue := rest\<rparr>)"
  shows "c < length (cl_conns w)" "conn_st w c = CONNECTED" "rpc_inv w1"
    "pend w1 co + filter_mset (waits (cl_tasks w) co) (mset (map snd (rc_waitResult (cl_conns w ! c)))) = pend w co"
proof -
  show c: "c < length (cl_conns w)" "conn_st w c = CONNECTED" using rpc_invD(2) [OF inv] q by (auto simp: queue_inv_def)
  show "rpc_inv w1"
  proof (rule rpc_invI)
    fix c' assume c': "c' < length (cl_conns w1)"
    then have c'': "c' < length (cl_conns w)" by (simp add: w1_def)
    show "conn_inv w1 c' (cl_conns w1 ! c')"
    proof (cases "c' = c")
      case True
      then show ?thesis using rpc_invD(1) [OF inv c(1)] c by (auto simp: w1_def conn_inv_def conn_calls_def)
    next
      case False
      then have "cl_conns w1 ! c' = cl_conns w ! c'" using c'' by (simp add: w1_def)
      then show ?thesis using conn_inv_mono [OF rpc_invD(1) [OF inv c''], of w1] by (simp add: w1_def q)
    qed
  next
    have "distinct (Task_CLOSE c # rest @ map Task_CONNECT (case cl_connecting w of None \<Rightarrow> [] | Some c \<Rightarrow> [c]) @ map Task_CLOSE (cl_io w))"
      using rpc_invD(2) [OF inv] q by (simp add: queue_inv_def)
    then have d: "Task_CLOSE c \<notin> set rest" "c \<notin> set (cl_io w)" by auto
    have st: "statuses w1 = (statuses w)[c := CLOSED]" using c by (simp add: w1_def upd_conn_def map_update)
    show "queue_inv (statuses w1) (connectionTaskQueue w1) (cl_connecting w1) (cl_io w1)"
      unfolding st using rpc_invD(2) [OF inv] q d c unfolding queue_inv_def
      by (auto simp: w1_def nth_list_update)
  qed (use rpc_invD(3,4) [OF inv] in \<open>simp_all add: w1_def calls_inv_def equipped_def\<close>)
  let ?F = "filter_mset (waits (cl_tasks w) co)"
  have "pend w1 co + ?F (mset (map snd (rc_waitResult (cl_conns w ! c)))) = pend (w\<lparr>connectionTaskQueue := rest\<rparr>) co + {#}"
    unfolding w1_def
    by (rule pend_upd_conn) (use c rpc_invD(1) [OF inv c(1)] in \<open>auto simp: conn_inv_def conn_calls_def\<close>)
  then show "pend w1 co + ?F (mset (map snd (rc_waitResult (cl_conns w ! c)))) = pend w co" by (simp add: pend_def pending_def)
qed

lemma connDelay_ok:
  assumes inv: "rpc_inv w" and c: "c < length (cl_conns w)"
  shows "\<exists>w'. set_connectDelay b (rc_channel (cl_conns w ! c)) w = Some w' \<and> rpc_inv w' \<and> cl_conns w' = cl_conns w
     \<and> cl_tasks w' = cl_tasks w \<and> cl_issued w' = cl_issued w \<and> cl_resumed w' = cl_resumed w \<and> taskQueue w' = taskQueue w
     \<and> connectionTaskQueue w' = connectionTaskQueue w \<and> cl_io w' = cl_io w \<and> cl_connecting w' = cl_connecting w"
proof -
  from rpc_invD(1) [OF inv c] obtain ch where ch: "cl_channels w (rc_channel (cl_conns w ! c)) = Some ch" by (auto simp: conn_inv_def)
  with set_channel_inv [OF inv ch, of "ch\<lparr>ch_connectDelay := b\<rparr>"] show ?thesis by (simp add: set_connectDelay_def)
qed

text \<open>Calls that fail, one after the other.\<close>

lemma fail_waiting_all:
  assumes inv: "rpc_inv w" and tids: "set tids \<subseteq> set (cl_issued w)" "\<forall>tid\<in>set tids. has_response w tid"
  shows "\<exists>w'. for_calls (fail_waiting strerror err) tids w = Some w' \<and> rpc_inv w' \<and> undisturbed w w' \<and> cl_resumed w' = cl_resumed w @ tids"
proof -
  have "\<forall>tid\<in>set tids. equipped w tid \<and> has_response w tid" using rpc_invD(4) [OF inv] tids by (auto simp: calls_inv_def)
  then have "\<exists>w'. for_calls (fail_waiting strerror err) tids w = Some w'"
    by (rule for_calls_ok [rotated -1]) (metis fail_waiting_ok, metis fail_waiting_eq, metis equipped_cong has_response_cong)
  then obtain w' where w': "for_calls (fail_waiting strerror err) tids w = Some w'" by blast
  have "undisturbed w w' \<and> cl_resumed w' = cl_resumed w @ filter (\<lambda>_. True) tids"
    by (rule for_calls_eq [where P = "\<lambda>_ _. True", OF _ _ w']) (simp add: fail_waiting_eq, simp)
  moreover have "set (cl_resumed w @ tids) \<subseteq> set (cl_issued w)" using rpc_invD(4) [OF inv] tids by (simp add: calls_inv_def)
  ultimately show ?thesis using w' rpc_inv_undisturbed [OF inv, of w'] by simp
qed

lemma close_data_all:
  assumes inv: "rpc_inv w" and tids: "set tids \<subseteq> set (cl_issued w)"
  shows "\<exists>w'. for_calls (close_data strerror) tids w = Some w' \<and> rpc_inv w' \<and> undisturbed w w' \<and> cl_resumed w' = cl_resumed w"
proof -
  have "\<forall>tid\<in>set tids. equipped w tid" using rpc_invD(4) [OF inv] tids by (auto simp: calls_inv_def)
  then have "\<exists>w'. for_calls (close_data strerror) tids w = Some w'"
    by (rule for_calls_ok [rotated -1]) (metis close_data_ok, metis close_data_eq, metis equipped_cong)
  then obtain w' where w': "for_calls (close_data strerror) tids w = Some w'" by blast
  have "undisturbed w w' \<and> cl_resumed w' = cl_resumed w @ filter (\<lambda>_. False) tids"
    by (rule for_calls_eq [where P = "\<lambda>_ _. False", OF _ _ w']) (simp add: close_data_eq, simp)
  then show ?thesis using w' rpc_inv_undisturbed [OF inv, of w'] rpc_invD(4) [OF inv] by (simp add: calls_inv_def)
qed

lemma fail_call_all:
  assumes inv: "rpc_inv w" and tids: "set tids \<subseteq> set (cl_issued w)"
  shows "\<exists>w'. for_calls (fail_call strerror err) tids w = Some w' \<and> rpc_inv w' \<and> undisturbed w w'
     \<and> cl_resumed w' = cl_resumed w @ filter (has_response w) tids"
proof -
  have "\<forall>tid\<in>set tids. equipped w tid" using rpc_invD(4) [OF inv] tids by (auto simp: calls_inv_def)
  then have "\<exists>w'. for_calls (fail_call strerror err) tids w = Some w'"
    by (rule for_calls_ok [rotated -1]) (metis fail_call_ok, metis fail_call_eq, metis equipped_cong)
  then obtain w' where w': "for_calls (fail_call strerror err) tids w = Some w'" by blast
  have "undisturbed w w' \<and> cl_resumed w' = cl_resumed w @ filter (has_response w) tids"
    by (rule for_calls_eq [where P = has_response, OF _ _ w']) (rule fail_call_eq, assumption, rule has_response_cong)
  moreover have "set (filter (has_response w) tids) \<subseteq> set (cl_issued w)" using tids by auto
  ultimately show ?thesis using w' rpc_inv_undisturbed [OF inv, of w'] rpc_invD(4) [OF inv] by (simp add: calls_inv_def)
qed

lemma has_response_waitResult:
  assumes "conn_inv w c conn" "tid \<in> snd ` set (rc_waitResult conn)"
  shows "has_response w tid"
  using assms by (auto simp: conn_inv_def has_response_def)

lemma moved:
  fixes P :: "'a multiset"
  assumes "P' + X = P" "R' = R + X"
  shows "P' + R' = P + R \<and> P' \<subseteq># P"
  using assms by auto

lemma handle_CLOSE_ok:
  assumes inv: "rpc_inv w" and q: "connectionTaskQueue w = Task_CLOSE c # rest"
  shows "\<exists>w'. handle_CLOSE strerror c (w\<lparr>connectionTaskQueue := rest\<rparr>) = Some w' \<and> rpc_inv w' \<and> cl_issued w' = cl_issued w
     \<and> (\<forall>tid. call_sig (cl_tasks w' tid) = call_sig (cl_tasks w tid))
     \<and> (\<forall>co. pend w' co + res w' co = pend w co + res w co \<and> pend w' co \<subseteq># pend w co)"
proof -
  note c = close_conn_inv(1,2) [OF inv q]
  from rpc_invD(1) [OF inv c(1)] obtain ch where ch: "cl_channels w (rc_channel (cl_conns w ! c)) = Some ch" by (auto simp: conn_inv_def)
  let ?wd = "w\<lparr>cl_channels := (cl_channels w)(rc_channel (cl_conns w ! c) \<mapsto> ch\<lparr>ch_connectDelay := True\<rparr>)\<rparr>"
  let ?f = "\<lambda>conn. conn\<lparr>rc_st := CLOSED, rc_waitResult := []\<rparr>"
  let ?w1 = "upd_conn c ?f (?wd\<lparr>connectionTaskQueue := rest\<rparr>)"
  let ?conn = "cl_conns w ! c"
  have inv': "rpc_inv ?wd" by (rule set_channel_inv [OF inv ch]) simp
  have q': "connectionTaskQueue ?wd = Task_CLOSE c # rest" using q by simp
  note close = close_conn_inv(3,4) [OF inv' q']
  have conn: "conn_inv ?wd c ?conn" using rpc_invD(1) [OF inv', of c] c by simp
  have waiting: "set (map snd (rc_waitResult ?conn)) \<subseteq> set (cl_issued ?w1)" "\<forall>tid\<in>set (map snd (rc_waitResult ?conn)). has_response ?w1 tid"
    using conn has_response_waitResult [OF conn] by (auto simp: conn_inv_def conn_calls_def has_response_def)
  from fail_waiting_all [OF close(1) waiting] obtain w2 where
    w2: "for_calls (fail_waiting strerror ENETDOWN) (map snd (rc_waitResult ?conn)) ?w1 = Some w2" "rpc_inv w2" "undisturbed ?w1 w2"
        "cl_resumed w2 = cl_resumed ?w1 @ map snd (rc_waitResult ?conn)" by blast
  have "set (rc_datas ?conn) \<subseteq> set (cl_issued w2)" using conn undisturbedD(7) [OF w2(3)] by (simp add: conn_inv_def)
  from close_data_all [OF w2(2) this] obtain w3 where
    w3: "for_calls (close_data strerror) (rc_datas ?conn) w2 = Some w3" "rpc_inv w3" "undisturbed w2 w3" "cl_resumed w3 = cl_resumed w2" by blast
  have u: "undisturbed ?w1 w3" by (rule undisturbed_trans [OF w2(3) w3(3)])
  have swap: "w\<lparr>connectionTaskQueue := rest, cl_channels := (cl_channels w)(rc_channel ?conn \<mapsto> ch\<lparr>ch_connectDelay := True\<rparr>)\<rparr>
      = ?wd\<lparr>connectionTaskQueue := rest\<rparr>" by simp
  have "rc_waitSend ?conn = []" using conn c by (simp add: conn_inv_def)
  then have "handle_CLOSE strerror c (w\<lparr>connectionTaskQueue := rest\<rparr>) = Some w3"
    using w2(1) w3(1) c ch
    by (simp add: handle_CLOSE_def get_conn_def set_connectDelay_def swap)
  moreover have "pend w3 co + res w3 co = pend w co + res w co \<and> pend w3 co \<subseteq># pend w co" for co
  proof (rule moved)
    show "pend w3 co + filter_mset (waits (cl_tasks w) co) (mset (map snd (rc_waitResult ?conn))) = pend w co"
      using close(2) [of co] pend_undisturbed [OF u, of co] by (simp add: pend_def pending_def)
    show "res w3 co = res w co + filter_mset (waits (cl_tasks w) co) (mset (map snd (rc_waitResult ?conn)))"
      using res_undisturbed [OF u, of "map snd (rc_waitResult ?conn)" co] by (simp add: w2(4) w3(4) res_def)
  qed
  ultimately show ?thesis using w3(2) undisturbedD(7,9) [OF u] by simp
qed

lemma begin_CONNECT_ok:
  assumes inv: "rpc_inv w" and q: "connectionTaskQueue w = Task_CONNECT c # rest" and idle: "cl_connecting w = None"
  defines "w' \<equiv> w\<lparr>connectionTaskQueue := rest, cl_connecting := Some c\<rparr>"
  shows "begin_CONNECT c (w\<lparr>connectionTaskQueue := rest\<rparr>) = Some w'" "rpc_inv w'" "pend w' co = pend w co"
proof -
  have c: "c < length (cl_conns w)" "conn_st w c = CONNECTING" using rpc_invD(2) [OF inv] q by (auto simp: queue_inv_def)
  then show "begin_CONNECT c (w\<lparr>connectionTaskQueue := rest\<rparr>) = Some w'" by (simp add: begin_CONNECT_def get_conn_def w'_def)
  show "rpc_inv w'"
  proof (rule rpc_invI)
    show "conn_inv w' c' (cl_conns w' ! c')" if "c' < length (cl_conns w')" for c'
      by (rule conn_inv_mono [of w]) (use that rpc_invD(1) [OF inv, of c'] in \<open>auto simp: w'_def q idle\<close>)
    show "queue_inv (statuses w') (connectionTaskQueue w') (cl_connecting w') (cl_io w')"
      using rpc_invD(2) [OF inv] by (auto simp: queue_inv_def w'_def q idle)
  qed (use rpc_invD(3,4) [OF inv] in \<open>simp_all add: w'_def calls_inv_def equipped_def\<close>)
  show "pend w' co = pend w co" by (simp add: pend_def pending_def w'_def)
qed

text \<open>The attempt to connect is over.\<close>

lemma settle_conn_inv:
  assumes inv: "rpc_inv w" and k: "cl_connecting w = Some c" and st: "st \<noteq> CONNECTING"
  defines "w1 \<equiv> (upd_conn c (\<lambda>conn. conn\<lparr>rc_st := st, rc_waitSend := []\<rparr>) (w\<lparr>cl_connecting := None\<rparr>))
     \<lparr>cl_io := (if st = CONNECTED then cl_io w @ [c] else cl_io w)\<rparr>"
  shows "c < length (cl_conns w)" "conn_st w c = CONNECTING" "rpc_inv w1"
    "pend w1 co + filter_mset (waits (cl_tasks w) co) (mset (rc_waitSend (cl_conns w ! c))) = pend w co"
proof -
  show c: "c < length (cl_conns w)" "conn_st w c = CONNECTING" using rpc_invD(2) [OF inv] k by (auto simp: queue_inv_def)
  show "rpc_inv w1"
  proof (rule rpc_invI)
    fix c' assume "c' < length (cl_conns w1)"
    then have c': "c' < length (cl_conns w)" by (simp add: w1_def)
    show "conn_inv w1 c' (cl_conns w1 ! c')"
    proof (cases "c' = c")
      case True
      then show ?thesis using rpc_invD(1) [OF inv c(1)] c st by (auto simp: w1_def conn_inv_def conn_calls_def)
    next
      case False
      then have "cl_conns w1 ! c' = cl_conns w ! c'" using c' by (simp add: w1_def)
      moreover have "conn_inv w1 c' (cl_conns w ! c')"
        by (rule conn_inv_mono [OF rpc_invD(1) [OF inv c']]) (use False k in \<open>auto simp: w1_def\<close>)
      ultimately show ?thesis by simp
    qed
  next
    have "distinct (connectionTaskQueue w @ Task_CONNECT c # map Task_CLOSE (cl_io w))"
      using rpc_invD(2) [OF inv] k by (simp add: queue_inv_def)
    moreover have "Task_CLOSE c \<notin> set (connectionTaskQueue w)" "c \<notin> set (cl_io w)"
      using rpc_invD(2) [OF inv] c by (auto simp: queue_inv_def)
    moreover have sts: "statuses w1 = (statuses w)[c := st]" using c by (simp add: w1_def upd_conn_def map_update)
    ultimately show "queue_inv (statuses w1) (connectionTaskQueue w1) (cl_connecting w1) (cl_io w1)"
      unfolding sts using rpc_invD(2) [OF inv] c unfolding queue_inv_def
      by (auto simp: w1_def nth_list_update)
  qed (use rpc_invD(3,4) [OF inv] in \<open>simp_all add: w1_def calls_inv_def equipped_def\<close>)
  let ?F = "filter_mset (waits (cl_tasks w) co)"
  have "pend (upd_conn c (\<lambda>conn. conn\<lparr>rc_st := st, rc_waitSend := []\<rparr>) (w\<lparr>cl_connecting := None\<rparr>)) co
      + ?F (mset (rc_waitSend (cl_conns w ! c))) = pend (w\<lparr>cl_connecting := None\<rparr>) co + {#}"
    by (rule pend_upd_conn) (use c in \<open>auto simp: conn_calls_def\<close>)
  then show "pend w1 co + ?F (mset (rc_waitSend (cl_conns w ! c))) = pend w co" by (simp add: pend_def pending_def w1_def)
qed

lemma send_call_all:
  assumes "rpc_inv w" "c < length (cl_conns w)" "conn_st w c \<noteq> CONNECTING" "set tids \<subseteq> set (cl_issued w)"
  shows "\<exists>w'. for_calls (send_call now c) tids w = Some w' \<and> rpc_inv w' \<and> cl_tasks w' = cl_tasks w \<and> cl_issued w' = cl_issued w
     \<and> cl_resumed w' = cl_resumed w
     \<and> (\<forall>co. size (pend w co + filter_mset (waits (cl_tasks w) co) (mset tids)) \<le> 1
          \<and> (\<forall>tid\<in>set (cl_issued w). waits (cl_tasks w) co tid \<longrightarrow> rt_expireTime (cl_tasks w tid) = 0)
        \<longrightarrow> pend w' co = pend w co + filter_mset (waits (cl_tasks w) co) (mset tids))"
  using assms
proof (induction tids arbitrary: w)
  case (Cons tid tids)
  from send_call_total obtain w1 where s: "send_call now c tid w = Some w1" by blast
  have tid: "tid \<in> set (cl_issued w)" using Cons.prems by simp
  note inv1 = send_call_inv [OF Cons.prems(1-3) tid s]
  from Cons.IH [of w1] inv1 Cons.prems obtain w' where
    w': "for_calls (send_call now c) tids w1 = Some w'" "rpc_inv w'" "cl_tasks w' = cl_tasks w1" "cl_issued w' = cl_issued w1"
        "cl_resumed w' = cl_resumed w1"
    and p: "\<forall>co. size (pend w1 co + filter_mset (waits (cl_tasks w1) co) (mset tids)) \<le> 1
          \<and> (\<forall>tid\<in>set (cl_issued w1). waits (cl_tasks w1) co tid \<longrightarrow> rt_expireTime (cl_tasks w1 tid) = 0)
        \<longrightarrow> pend w' co = pend w1 co + filter_mset (waits (cl_tasks w1) co) (mset tids)" by auto
  have "pend w' co = pend w co + filter_mset (waits (cl_tasks w) co) (mset (tid # tids))"
    if size: "size (pend w co + filter_mset (waits (cl_tasks w) co) (mset (tid # tids))) \<le> 1"
      and e: "\<forall>tid\<in>set (cl_issued w). waits (cl_tasks w) co tid \<longrightarrow> rt_expireTime (cl_tasks w tid) = 0" for co
  proof -
    have "pend w1 co = pend w co + filter_mset (waits (cl_tasks w) co) {#tid#}"
      by (rule send_call_pend [OF Cons.prems(1,2) _ s]) (use size e tid in auto)
    with p inv1 size e show ?thesis by (auto simp: ac_simps)
  qed
  with w' s inv1 send_call_resumed [OF s] show ?case by auto
qed simp

text \<open>A step that issues no call: the calls of a coroutine at most move from waiting to resumed.\<close>

definition steady :: "('p, 'k) RpcClient \<Rightarrow> ('p, 'k) RpcClient \<Rightarrow> bool" where
  "steady w w' \<longleftrightarrow> rpc_inv w' \<and> cl_issued w' = cl_issued w \<and> (\<forall>tid. call_sig (cl_tasks w' tid) = call_sig (cl_tasks w tid))
     \<and> (\<forall>co. co_ok w co \<longrightarrow> pend w' co + res w' co = pend w co + res w co \<and> pend w' co \<subseteq># pend w co)"

lemma steady_same:
  assumes "rpc_inv w'" "cl_issued w' = cl_issued w" "cl_tasks w' = cl_tasks w" "cl_resumed w' = cl_resumed w"
    "\<And>co. co_ok w co \<Longrightarrow> pend w' co = pend w co"
  shows "steady w w'"
  using assms by (simp add: steady_def res_def)

lemma filter_has_response:
  "filter_mset (waits (cl_tasks w) co) (mset (filter (has_response w) tids)) = filter_mset (waits (cl_tasks w) co) (mset tids)"
  by (induction tids) (auto simp: waits_def has_response_def)

lemma finish_CONNECT_ok:
  assumes inv: "rpc_inv w" and k: "cl_connecting w = Some c"
  shows "\<exists>w'. finish_CONNECT strerror conn_errno so_error now w = Some w' \<and> steady w w'"
proof -
  note c = settle_conn_inv(1,2) [OF inv k, of CLOSED, simplified]
  let ?conn = "cl_conns w ! c"
  have conn: "conn_inv w c ?conn" by (rule rpc_invD(1) [OF inv c(1)])
  then have calls: "set (rc_waitSend ?conn) \<subseteq> set (cl_issued w)" and no_result: "rc_waitResult ?conn = []"
    using c by (auto simp: conn_inv_def conn_calls_def)
  show ?thesis
  proof (cases "connect_outcome conn_errno so_error")
    case (Some errno)
    let ?w1 = "upd_conn c (\<lambda>conn. conn\<lparr>rc_st := CLOSED, rc_waitSend := []\<rparr>) (w\<lparr>cl_connecting := None\<rparr>)"
    have io: "?w1\<lparr>cl_io := cl_io w\<rparr> = ?w1" by (simp add: upd_conn_def)
    have s: "rpc_inv ?w1" "\<And>co. pend ?w1 co + filter_mset (waits (cl_tasks w) co) (mset (rc_waitSend ?conn)) = pend w co"
      using settle_conn_inv(3,4) [OF inv k, of CLOSED] by (simp_all add: io)
    have "set (rc_waitSend ?conn) \<subseteq> set (cl_issued ?w1)" using calls by simp
    from fail_call_all [OF s(1) this, of strerror errno] obtain w' where
      w': "for_calls (fail_call strerror errno) (rc_waitSend ?conn) ?w1 = Some w'" "rpc_inv w'" "undisturbed ?w1 w'"
          "cl_resumed w' = cl_resumed ?w1 @ filter (has_response ?w1) (rc_waitSend ?conn)" by blast
    have "finish_CONNECT strerror conn_errno so_error now w = Some w'"
      using w'(1) k c(1) Some no_result by (simp add: finish_CONNECT_def get_conn_def)
    moreover have "pend w' co + res w' co = pend w co + res w co \<and> pend w' co \<subseteq># pend w co" for co
    proof (rule moved)
      show "pend w' co + filter_mset (waits (cl_tasks w) co) (mset (rc_waitSend ?conn)) = pend w co"
        using s(2) [of co] pend_undisturbed [OF w'(3), of co] by simp
      have "res w' co = res ?w1 co + filter_mset (waits (cl_tasks ?w1) co) (mset (filter (has_response ?w1) (rc_waitSend ?conn)))"
        by (rule res_undisturbed [OF w'(3,4)])
      then show "res w' co = res w co + filter_mset (waits (cl_tasks w) co) (mset (rc_waitSend ?conn))"
        unfolding filter_has_response by (simp add: res_def)
    qed
    ultimately show ?thesis using w'(2) undisturbedD(7,9) [OF w'(3)] by (simp add: steady_def)
  next
    case None
    let ?w1 = "(upd_conn c (\<lambda>conn. conn\<lparr>rc_st := CONNECTED, rc_waitSend := []\<rparr>) (w\<lparr>cl_connecting := None\<rparr>))\<lparr>cl_io := cl_io w @ [c]\<rparr>"
    have s: "rpc_inv ?w1" "\<And>co. pend ?w1 co + filter_mset (waits (cl_tasks w) co) (mset (rc_waitSend ?conn)) = pend w co"
      using settle_conn_inv(3,4) [OF inv k, of CONNECTED] by simp_all
    from conn obtain ch where ch: "cl_channels w (rc_channel ?conn) = Some ch" by (auto simp: conn_inv_def)
    let ?w2 = "?w1\<lparr>cl_channels := (cl_channels w)(rc_channel ?conn \<mapsto> ch\<lparr>ch_connectDelay := False\<rparr>)\<rparr>"
    have inv2: "rpc_inv ?w2" using set_channel_inv [OF s(1), of "rc_channel ?conn" ch] ch by simp
    let ?w3 = "upd_conn c (\<lambda>conn. conn\<lparr>rc_added := True\<rparr>) ?w2"
    have inv3: "rpc_inv ?w3" by (rule rpc_inv_upd_conn [OF inv2]) (use rpc_invD(1) [OF inv2, of c] c in \<open>simp_all add: conn_inv_def conn_calls_def\<close>)
    from send_call_all [OF inv3, of c "rc_waitSend ?conn" now] c calls obtain w' where
      w': "for_calls (send_call now c) (rc_waitSend ?conn) ?w3 = Some w'" "rpc_inv w'" "cl_tasks w' = cl_tasks w"
          "cl_issued w' = cl_issued w" "cl_resumed w' = cl_resumed w"
      and p: "\<And>co. \<lbrakk>size (pend ?w3 co + filter_mset (waits (cl_tasks ?w3) co) (mset (rc_waitSend ?conn))) \<le> 1;
          \<forall>tid\<in>set (cl_issued ?w3). waits (cl_tasks ?w3) co tid \<longrightarrow> rt_expireTime (cl_tasks ?w3 tid) = 0\<rbrakk> \<Longrightarrow>
        pend w' co = pend ?w3 co + filter_mset (waits (cl_tasks ?w3) co) (mset (rc_waitSend ?conn))" by auto
    have swap: "rpc_addConnection c (upd_conn c (\<lambda>conn. conn\<lparr>rc_st := CONNECTED, rc_waitSend := []\<rparr>) (w\<lparr>cl_connecting := None\<rparr>)
        \<lparr>cl_channels := (cl_channels w)(rc_channel ?conn \<mapsto> ch\<lparr>ch_connectDelay := False\<rparr>)\<rparr>) = ?w3"
      unfolding rpc_addConnection_def by (rule arg_cong [of _ _ "upd_conn c _"]) simp
    have "finish_CONNECT strerror conn_errno so_error now w = Some w'"
      using w'(1) k c(1) None no_result ch by (simp add: finish_CONNECT_def get_conn_def set_connectDelay_def swap)
    moreover have "pend w' co = pend w co" if ok: "co_ok w co" for co
    proof -
      have "pend ?w2 co = pend ?w1 co" by (simp add: pend_def pending_def)
      moreover have "pend ?w3 co = pend ?w2 co"
        using pend_upd_conn [of c ?w2 co "\<lambda>conn. conn\<lparr>rc_added := True\<rparr>" "{#}" "{#}"] c by (simp add: conn_calls_def)
      ultimately have *: "pend ?w3 co + filter_mset (waits (cl_tasks ?w3) co) (mset (rc_waitSend ?conn)) = pend w co" using s(2) [of co] by simp
      from p [of co] ok show ?thesis unfolding * by (simp add: co_ok_def)
    qed
    ultimately show ?thesis using w' by (intro exI [of _ w']) (simp add: steady_same)
  qed
qed

lemma connection_ok:
  assumes inv: "rpc_inv w"
  shows "\<exists>w'. connection_one strerror w = Some w' \<and> steady w w'"
proof (cases "cl_connecting w = None \<and> connectionTaskQueue w \<noteq> []")
  case False
  then have "connection_one strerror w = Some w" by (auto simp: connection_one_def split: list.split)
  with inv show ?thesis by (simp add: steady_same)
next
  case True
  then obtain task rest where q: "connectionTaskQueue w = task # rest" by (cases "connectionTaskQueue w") auto
  show ?thesis
  proof (cases task)
    case (Task_CLOSE c)
    from handle_CLOSE_ok [OF inv q [unfolded Task_CLOSE], of strerror] True q Task_CLOSE show ?thesis
      by (auto simp: connection_one_def steady_def)
  next
    case (Task_CONNECT c)
    note b = begin_CONNECT_ok [OF inv q [unfolded Task_CONNECT]]
    from True have idle: "cl_connecting w = None" by simp
    from b [OF idle] idle q Task_CONNECT show ?thesis
      by (intro exI [of _ "w\<lparr>connectionTaskQueue := rest, cl_connecting := Some c\<rparr>"]) (simp add: connection_one_def steady_same)
  qed
qed

end
