(* ===== verification/RpcDelivery.thy ===== *)
theory RpcDelivery
  imports RpcCalls
begin

text \<open>
  What becomes of the calls of an RPC client under the steps of its own routines and of the threads
  around it: a call is never lost and never answered twice.
\<close>

section \<open>The other steps\<close>

lemma answer_call_sig:
  "answer_call pb code bd task = Some task' \<Longrightarrow> rt_response task \<noteq> None \<Longrightarrow> call_sig task' = call_sig task"
  by (cases "rt_response_1 task") (auto simp: answer_call_def call_sig_def Option.bind_eq_Some_conv split: if_splits)

lemma erase_waiter:
  assumes inv: "rpc_inv w" and c: "c < length (cl_conns w)" and m: "map_of (rc_waitResult (cl_conns w ! c)) k = Some tid"
  defines "w1 \<equiv> upd_conn c (\<lambda>conn. conn\<lparr>rc_waitResult := smap_erase k (rc_waitResult conn)\<rparr>) w"
  shows "rpc_inv w1" "pend w1 co + filter_mset (waits (cl_tasks w) co) {#tid#} = pend w co" "has_response w tid" "tid \<in> set (cl_issued w)"
proof -
  note conn = rpc_invD(1) [OF inv c]
  let ?m = "rc_waitResult (cl_conns w ! c)"
  have st: "conn_st w c \<noteq> CONNECTING" using conn m by (auto simp: conn_inv_def)
  have sub: "set (smap_erase k ?m) \<subseteq> set ?m" "snd ` set (smap_erase k ?m) \<subseteq> snd ` set ?m"
    by (rule set_smap_erase, rule image_mono [OF set_smap_erase])
  have "\<forall>(k', t)\<in>set (smap_erase k ?m). rt_co (cl_tasks w t) = k' \<and> rt_response (cl_tasks w t) \<noteq> None"
    using conn sub unfolding conn_inv_def by blast
  moreover have "snd ` set (smap_erase k ?m) \<subseteq> set (cl_issued w)"
    using conn by (intro order_trans [OF sub(2)]) (auto simp: conn_inv_def conn_calls_def)
  ultimately show "rpc_inv w1" unfolding w1_def
    by (intro rpc_inv_upd_conn [OF inv c]) (use conn st in \<open>auto simp: conn_inv_def conn_calls_def smap_erase_sorted\<close>)
  have "keys_sorted ?m" using conn by (simp add: conn_inv_def)
  from smap_erase_mset [OF this m]
  have "pend w1 co + filter_mset (waits (cl_tasks w) co) {#tid#} = pend w co + {#}"
    unfolding w1_def by (intro pend_upd_conn [OF c]) (simp add: conn_calls_def)
  then show "pend w1 co + filter_mset (waits (cl_tasks w) co) {#tid#} = pend w co" by simp
  have "tid \<in> snd ` set ?m" using map_of_SomeD [OF m] by force
  then show "has_response w tid" "tid \<in> set (cl_issued w)"
    using has_response_waitResult [OF conn] conn by (auto simp: conn_inv_def conn_calls_def)
qed

lemma response_steady:
  assumes inv: "rpc_inv w" and d: "rpc_client_decode e pb c w hb bd = Some (w', bd', t)"
  shows "steady w w'"
proof (cases "w' = w")
  case True
  with inv show ?thesis by (simp add: steady_same)
next
  case False
  let ?k = "get64 e hb 4"
  from d False obtain tid task where
    c: "c < length (cl_conns w)" "map_of (rc_waitResult (cl_conns w ! c)) ?k = Some tid"
    and task: "answer_call pb (get32 e hb 20) bd (cl_tasks w tid) = Some task"
    and r: "resume_call 0 tid ((upd_conn c (\<lambda>conn. conn\<lparr>rc_waitResult := smap_erase ?k (rc_waitResult conn)\<rparr>) w)
              \<lparr>cl_tasks := (cl_tasks w)(tid := task)\<rparr>) = Some w'"
    by (auto simp: rpc_client_decode_def rpc_answered_def Let_def Option.bind_eq_Some_conv split: if_splits option.splits)
  let ?w1 = "upd_conn c (\<lambda>conn. conn\<lparr>rc_waitResult := smap_erase ?k (rc_waitResult conn)\<rparr>) w"
  let ?w2 = "?w1\<lparr>cl_tasks := (cl_tasks w)(tid := task)\<rparr>"
  note e = erase_waiter [OF inv c]
  have "call_sig task = call_sig (cl_tasks w tid)" using answer_call_sig [OF task] e(3) by (simp add: has_response_def)
  then have "undisturbed ?w1 ?w2" by (simp add: undisturbed_def)
  moreover from resume_call_eq [OF r] have r': "undisturbed ?w2 w'" "cl_resumed w' = cl_resumed w @ [tid]" by simp_all
  ultimately have u: "undisturbed ?w1 w'" by (blast intro: undisturbed_trans)
  have "rpc_inv w'" by (rule rpc_inv_undisturbed [OF e(1) u])
    (use r'(2) e(4) rpc_invD(4) [OF inv] in \<open>auto simp: calls_inv_def\<close>)
  moreover have "pend w' co + res w' co = pend w co + res w co \<and> pend w' co \<subseteq># pend w co" for co
  proof (rule moved)
    show "pend w' co + filter_mset (waits (cl_tasks w) co) {#tid#} = pend w co" using e(2) [of co] pend_undisturbed [OF u, of co] by simp
    show "res w' co = res w co + filter_mset (waits (cl_tasks w) co) {#tid#}"
      using res_undisturbed [OF u, of "[tid]" co] r'(2) by (simp add: res_def)
  qed
  ultimately show ?thesis using undisturbedD(7,9) [OF u] by (simp add: steady_def)
qed

lemma steady_undisturbed:
  assumes "rpc_inv w" "undisturbed w w'" "cl_resumed w' = cl_resumed w"
  shows "steady w w'"
proof -
  have "set (cl_resumed w') \<subseteq> set (cl_issued w)" using rpc_invD(4) [OF assms(1)] assms(3) by (simp add: calls_inv_def)
  from rpc_inv_undisturbed [OF assms(1,2) this] show ?thesis
    using undisturbedD(7,9) [OF assms(2)] pend_undisturbed [OF assms(2)] res_undisturbed [OF assms(2), of "[]"] assms(3)
    by (simp add: steady_def)
qed

lemma sent_steady:
  assumes inv: "rpc_inv w" and s: "request_encoded c w = Some w'"
  shows "steady w w'"
proof (cases "w' = w")
  case True
  with inv show ?thesis by (simp add: steady_same)
next
  case False
  from s False obtain tid rest where c: "c < length (cl_conns w)" "rc_datas (cl_conns w ! c) = tid # rest"
    and r: "(if rt_response (cl_tasks w tid) = None then run_done tid (upd_conn c (\<lambda>conn. conn\<lparr>rc_datas := rest\<rparr>) w)
             else Some (upd_conn c (\<lambda>conn. conn\<lparr>rc_datas := rest\<rparr>) w)) = Some w'"
    by (auto simp: request_encoded_def Let_def Option.bind_eq_Some_conv split: list.splits)
  let ?w1 = "upd_conn c (\<lambda>conn. conn\<lparr>rc_datas := rest\<rparr>) w"
  have inv1: "rpc_inv ?w1"
    by (rule rpc_inv_upd_conn [OF inv c(1)]) (use rpc_invD(1) [OF inv c(1)] c(2) in \<open>auto simp: conn_inv_def conn_calls_def\<close>)
  have "undisturbed ?w1 w' \<and> cl_resumed w' = cl_resumed ?w1" using r by (auto split: if_splits dest: run_done_eq)
  with steady_undisturbed [OF inv1] have "steady ?w1 w'" by blast
  moreover have "pend ?w1 co = pend w co" for co
    using pend_upd_conn [OF c(1), of co "\<lambda>conn. conn\<lparr>rc_datas := rest\<rparr>" "{#}" "{#}"] by (simp add: conn_calls_def)
  ultimately show ?thesis by (simp add: steady_def co_ok_def res_def)
qed

lemma lost_steady:
  assumes inv: "rpc_inv w" and c: "c \<in> set (cl_io w)"
  shows "steady w (rpc_onClose c (w\<lparr>cl_io := remove1 c (cl_io w)\<rparr>))" (is "steady w ?w")
proof (rule steady_same)
  show "rpc_inv ?w"
  proof (rule rpc_invI)
    show "conn_inv ?w c' (cl_conns ?w ! c')" if "c' < length (cl_conns ?w)" for c'
      by (rule conn_inv_mono [of w]) (use that rpc_invD(1) [OF inv, of c'] in \<open>auto simp: rpc_onClose_def\<close>)
    have q: "queue_inv (statuses w) (connectionTaskQueue w) (cl_connecting w) (cl_io w)" by (rule rpc_invD(2) [OF inv])
    then have "distinct (cl_io w)" by (auto simp: queue_inv_def distinct_map inj_on_def)
    then have "set (remove1 c (cl_io w)) = set (cl_io w) - {c}" by simp
    with q c \<open>distinct (cl_io w)\<close> show "queue_inv (statuses ?w) (connectionTaskQueue ?w) (cl_connecting ?w) (cl_io ?w)"
      unfolding queue_inv_def by (auto simp: rpc_onClose_def distinct_map inj_on_def)
  qed (use rpc_invD(3,4) [OF inv] in \<open>simp_all add: rpc_onClose_def calls_inv_def equipped_def\<close>)
qed (simp_all add: rpc_onClose_def pend_def pending_def)

lemma clear_steady:
  assumes inv: "rpc_inv w" and s: "clearChannel_one multi w = Some w'"
  shows "steady w w'"
proof (cases "clearChannelQueue w")
  case Nil
  with inv s show ?thesis by (simp add: clearChannel_one_def steady_same)
next
  case (Cons n rest)
  from s Cons obtain ch where ch: "cl_channels w n = Some ch"
    and w': "w' = w\<lparr>clearChannelQueue := rest, cl_closing := cl_closing w @ List.map_filter id (ch_connections ch),
                  cl_channels := (cl_channels w)(n \<mapsto> ch\<lparr>ch_connections := []\<rparr>)\<rparr>"
    by (auto simp: clearChannel_one_def Option.bind_eq_Some_conv split: if_splits)
  show ?thesis
  proof (rule steady_same)
    show "rpc_inv w'"
    proof (rule rpc_invI)
      show "conn_inv w' c (cl_conns w' ! c)" if "c < length (cl_conns w')" for c
        by (rule conn_inv_mono [of w]) (use that rpc_invD(1) [OF inv, of c] in \<open>auto simp: w'\<close>)
      have "chan_inv (length (cl_conns w)) (cl_channels w) (taskQueue w)" by (rule rpc_invD(3) [OF inv])
      then show "chan_inv (length (cl_conns w')) (cl_channels w') (taskQueue w')"
        by (auto simp: chan_inv_def w' slot_ok_def split: prod.splits)
    qed (use rpc_invD(2,4) [OF inv] in \<open>simp_all add: w' calls_inv_def equipped_def\<close>)
  qed (simp_all add: w' pend_def pending_def)
qed

lemma destroyed_steady:
  assumes inv: "rpc_inv w"
  shows "steady w (end_Guard n w)"
proof (rule steady_same)
  show "rpc_inv (end_Guard n w)"
  proof (rule rpc_invI)
    show "conn_inv (end_Guard n w) c (cl_conns (end_Guard n w) ! c)" if "c < length (cl_conns (end_Guard n w))" for c
      by (rule conn_inv_mono [of w]) (use that rpc_invD(1) [OF inv, of c] in \<open>auto simp: end_Guard_def\<close>)
  qed (use rpc_invD(2-4) [OF inv] in \<open>simp_all add: end_Guard_def calls_inv_def equipped_def\<close>)
qed (simp_all add: end_Guard_def pend_def pending_def)

section \<open>Calls\<close>

lemma CallMethod_eq:
  assumes "CallMethod pb tid rnd new pid self now channel sid method controller request response kind hasDone w = Some w'"
  obtains task envs where
    "w' = w\<lparr>cl_tasks := (cl_tasks w)(tid := task), cl_envs := envs, taskQueue := taskQueue w @ [(channel, tid)],
       cl_issued := cl_issued w @ [tid]\<rparr>"
    "dom (cl_envs w) \<subseteq> dom envs" "rt_pid task = pid" "rt_co task = self" "rt_controller task = controller" "rt_done task = hasDone"
    "rt_response task \<noteq> None \<longleftrightarrow> \<not> md_not_care_response method" "md_not_care_response method \<longrightarrow> hasDone"
proof (cases "\<not> md_not_care_response method \<and> 0 < md_timeout method")
  case True
  from assms True show thesis
    by (auto simp: CallMethod_def Let_def Option.bind_eq_Some_conv split: if_splits intro!: that)
next
  case False
  with assms show thesis by (auto simp: CallMethod_def Let_def split: if_splits intro!: that)
qed

lemma pending_issued: "rpc_inv w \<Longrightarrow> set (pending w) \<subseteq> set (cl_issued w)"
proof -
  assume inv: "rpc_inv w"
  have "set (conn_calls conn) \<subseteq> set (cl_issued w)" if "conn \<in> set (cl_conns w)" for conn
    using that rpc_invD(1) [OF inv] by (auto simp: in_set_conv_nth conn_inv_def)
  moreover have "snd ` set (taskQueue w) \<subseteq> set (cl_issued w)" using rpc_invD(4) [OF inv] by (simp add: calls_inv_def)
  ultimately show ?thesis by (auto simp: pending_def)
qed

lemma call_inv:
  assumes inv: "rpc_inv w" and new: "tid \<notin> set (cl_issued w)"
    and ch: "cl_channels w channel = Some ch" "ch_connections ch \<noteq> []"
    and task: "rt_response task \<noteq> None \<longrightarrow> rt_controller task \<noteq> None \<and> cl_envs w (rt_pid task) \<noteq> None" "rt_response task = None \<longrightarrow> rt_done task"
    and envs: "dom (cl_envs w) \<subseteq> dom envs"
  defines "w' \<equiv> w\<lparr>cl_tasks := (cl_tasks w)(tid := task), cl_envs := envs, taskQueue := taskQueue w @ [(channel, tid)],
       cl_issued := cl_issued w @ [tid]\<rparr>"
  shows "rpc_inv w'" "pend w' co = pend w co + (if rt_co task = co \<and> rt_response task \<noteq> None then {#tid#} else {#})" "res w' co = res w co"
proof -
  note issued = pending_issued [OF inv]
  have calls: "calls_inv w" by (rule rpc_invD(4) [OF inv])
  show "rpc_inv w'"
  proof (rule rpc_invI)
    show "conn_inv w' c (cl_conns w' ! c)" if "c < length (cl_conns w')" for c
    proof (rule conn_inv_mono [of w])
      show c: "conn_inv w c (cl_conns w' ! c)" using that rpc_invD(1) [OF inv, of c] by (simp add: w'_def)
      show "call_sig (cl_tasks w' t) = call_sig (cl_tasks w t)" if "t \<in> set (conn_calls (cl_conns w' ! c))" for t
        using c that new by (auto simp: w'_def conn_inv_def)
    qed (auto simp: w'_def)
    have "equipped w' t" if "t \<in> set (cl_issued w)" for t
    proof -
      have "equipped w t" "t \<noteq> tid" using calls that new by (auto simp: calls_inv_def)
      then show ?thesis using envs by (auto simp: equipped_def w'_def split: if_splits)
    qed
    moreover have "equipped w' tid" using task envs by (auto simp: equipped_def w'_def)
    ultimately show "calls_inv w'" using calls new by (auto simp: calls_inv_def w'_def)
    have "chan_inv (length (cl_conns w)) (cl_channels w) (taskQueue w)" by (rule rpc_invD(3) [OF inv])
    then show "chan_inv (length (cl_conns w')) (cl_channels w') (taskQueue w')" using ch by (auto simp: chan_inv_def w'_def)
  qed (use rpc_invD(2) [OF inv] in \<open>simp add: w'_def\<close>)
  have F: "filter_mset (waits (cl_tasks w') co) (mset xs) = filter_mset (waits (cl_tasks w) co) (mset xs)" if "set xs \<subseteq> set (cl_issued w)" for xs
    by (rule filter_mset_cong) (use that new in \<open>auto simp: waits_def w'_def\<close>)
  have "mset (pending w') = mset (pending w) + {#tid#}" by (simp add: pending_def w'_def)
  then show "pend w' co = pend w co + (if rt_co task = co \<and> rt_response task \<noteq> None then {#tid#} else {#})"
    using F [OF issued] by (simp add: pend_def) (simp add: waits_def w'_def)
  show "res w' co = res w co" using F [of "cl_resumed w"] calls by (simp add: res_def calls_inv_def) (simp add: w'_def)
qed

section \<open>Reachable states\<close>

definition no_timeouts :: "('p, 'k) RpcClient \<Rightarrow> u64 \<Rightarrow> bool" where
  "no_timeouts w co \<longleftrightarrow> (\<forall>tid\<in>set (cl_issued w). waits (cl_tasks w) co tid \<longrightarrow> rt_expireTime (cl_tasks w tid) = 0)"

definition accounted :: "('p, 'k) RpcClient \<Rightarrow> u64 \<Rightarrow> bool" where
  "accounted w co \<longleftrightarrow> size (pend w co) \<le> 1 \<and> pend w co + res w co = filter_mset (waits (cl_tasks w) co) (mset (cl_issued w))"

lemma steady_accounted:
  assumes s: "steady w w'" and acc: "no_timeouts w co \<longrightarrow> accounted w co" and n: "no_timeouts w' co"
  shows "accounted w' co"
proof -
  have sig: "\<And>tid. call_sig (cl_tasks w' tid) = call_sig (cl_tasks w tid)" and i: "cl_issued w' = cl_issued w"
    using s by (simp_all add: steady_def)
  have same: "waits (cl_tasks w') co = waits (cl_tasks w) co" "\<And>tid. rt_expireTime (cl_tasks w' tid) = rt_expireTime (cl_tasks w tid)"
    using call_sig_eqD(2-4) [OF sig] by (auto simp: waits_def fun_eq_iff)
  have "no_timeouts w co" using n by (simp add: no_timeouts_def same i)
  with acc have a: "accounted w co" and "co_ok w co" by (auto simp: accounted_def co_ok_def no_timeouts_def)
  with s have "pend w' co + res w' co = pend w co + res w co" "pend w' co \<subseteq># pend w co" by (auto simp: steady_def)
  with a size_mset_mono [OF this(2)] show ?thesis by (auto simp: accounted_def same i)
qed

lemma call_accounted:
  assumes inv: "rpc_inv w" and acc: "no_timeouts w co \<longrightarrow> accounted w co" and new: "tid \<notin> set (cl_issued w)"
    and p: "pend w' co = pend w co + (if rt_co task = co \<and> rt_response task \<noteq> None then {#tid#} else {#})" "res w' co = res w co"
    and w': "cl_issued w' = cl_issued w @ [tid]" "cl_tasks w' = (cl_tasks w)(tid := task)"
    and next_call: "\<forall>t\<in>set (cl_issued w). waits (cl_tasks w) (rt_co task) t \<and> rt_expireTime (cl_tasks w t) = 0 \<longrightarrow> t \<in> set (cl_resumed w)"
    and n: "no_timeouts w' co"
  shows "accounted w' co"
proof -
  let ?F = "filter_mset (waits (cl_tasks w) co)"
  have same: "waits (cl_tasks w') co t = waits (cl_tasks w) co t" "rt_expireTime (cl_tasks w' t) = rt_expireTime (cl_tasks w t)"
    if "t \<in> set (cl_issued w)" for t using that new by (auto simp: waits_def w'(2))
  have n': "no_timeouts w co" using n same by (auto simp: no_timeouts_def w'(1))
  with acc have a: "accounted w co" by simp
  have "filter_mset (waits (cl_tasks w') co) (mset (cl_issued w)) = ?F (mset (cl_issued w))"
    by (rule filter_mset_cong) (simp_all add: same)
  then have total: "pend w' co + res w' co = filter_mset (waits (cl_tasks w') co) (mset (cl_issued w'))"
    using a p by (simp add: accounted_def w'(1)) (auto simp: waits_def w'(2) ac_simps)
  have "pend w co = {#}" if "rt_co task = co"
  proof (rule ccontr)
    assume "pend w co \<noteq> {#}"
    then obtain t where t: "t \<in># pend w co" by blast
    then have "waits (cl_tasks w) co t" "t \<in> set (cl_issued w)" using pending_issued [OF inv] by (auto simp: pend_def)
    with n' next_call that have "t \<in># res w co" by (auto simp: no_timeouts_def res_def)
    with t have "2 \<le> count (pend w co + res w co) t" by (auto simp: Suc_le_eq numeral_2_eq_2 add_mono_thms_linordered_semiring(1)
          simp flip: count_greater_zero_iff)
    also have "\<dots> \<le> count (mset (cl_issued w)) t" using a by (simp add: accounted_def)
    also have "\<dots> \<le> 1" using rpc_invD(4) [OF inv] by (simp add: calls_inv_def distinct_count_atmost_1)
    finally show False by simp
  qed
  then have "size (pend w' co) \<le> 1" using a p(1) by (auto simp: accounted_def)
  with total show ?thesis by (simp add: accounted_def)
qed

lemma step_accounted:
  assumes step: "rpc_step e pb strerror w w'" and inv: "rpc_inv w" and acc: "\<And>co. no_timeouts w co \<longrightarrow> accounted w co"
  shows "rpc_inv w' \<and> (\<forall>co. no_timeouts w' co \<longrightarrow> accounted w' co)"
proof -
  have steady: ?thesis if "steady w w'" using that steady_accounted [OF that acc] by (auto simp: steady_def)
  from step show ?thesis
  proof cases
    case (call tid rnd new pid self now channel sid md controller request response kind hasDone ch)
    from CallMethod_eq [OF call(1)] obtain task envs where
      w': "w' = w\<lparr>cl_tasks := (cl_tasks w)(tid := task), cl_envs := envs, taskQueue := taskQueue w @ [(channel, tid)],
         cl_issued := cl_issued w @ [tid]\<rparr>" and envs: "dom (cl_envs w) \<subseteq> dom envs"
      and t: "rt_pid task = pid" "rt_co task = self" "rt_controller task = controller" "rt_done task = hasDone"
        "rt_response task \<noteq> None \<longleftrightarrow> \<not> md_not_care_response md" "md_not_care_response md \<longrightarrow> hasDone" by metis
    have ok: "rt_response task \<noteq> None \<longrightarrow> rt_controller task \<noteq> None \<and> cl_envs w (rt_pid task) \<noteq> None"
      "rt_response task = None \<longrightarrow> rt_done task" using call(3,6) t by auto
    note c = call_inv [OF inv call(2) call(4,5) ok envs]
    have "accounted w' co" if "no_timeouts w' co" for co
    proof (rule call_accounted [OF inv acc call(2)])
      show "pend w' co = pend w co + (if rt_co task = co \<and> rt_response task \<noteq> None then {#tid#} else {#})"
        "res w' co = res w co" using c(2,3) [of co] by (simp_all add: w')
    qed (use call(7) t(2) that in \<open>simp_all add: w'\<close>)
    then show ?thesis using c(1) by (simp add: w')
  next
    case (task now)
    then have "\<not> next_cleared w" using taskHandle_cleared [of w strerror now] by auto
    with task taskHandle_ok [OF inv, of strerror now] have "steady w w'" by (auto intro: steady_same)
    then show ?thesis by (rule steady)
  next
    case connection
    with connection_ok [OF inv, of strerror] have "steady w w'" by auto
    then show ?thesis by (rule steady)
  next
    case (connected conn_errno so_error now)
    then obtain c where "cl_connecting w = Some c" by (auto simp: finish_CONNECT_def Option.bind_eq_Some_conv)
    with connected finish_CONNECT_ok [OF inv this, of strerror conn_errno so_error now] have "steady w w'" by auto
    then show ?thesis by (rule steady)
  next
    case (response c hb bd bd' t)
    then have "steady w w'" using response_steady [OF inv] by blast
    then show ?thesis by (rule steady)
  next
    case (sent c)
    then have "steady w w'" using sent_steady [OF inv] by blast
    then show ?thesis by (rule steady)
  next
    case (lost c)
    then have "steady w w'" using lost_steady [OF inv] by blast
    then show ?thesis by (rule steady)
  next
    case (destroyed channel)
    then have "steady w w'" using destroyed_steady [OF inv] by simp
    then show ?thesis by (rule steady)
  next
    case (clear multi)
    then have "steady w w'" using clear_steady [OF inv] by blast
    then show ?thesis by (rule steady)
  next
    case (threads tasks' envs')
    then have "undisturbed w w'" "cl_resumed w' = cl_resumed w" by (simp_all add: undisturbed_def)
    with steady_undisturbed [OF inv] have "steady w w'" by blast
    then show ?thesis by (rule steady)
  qed
qed

definition fresh_channels :: "(nat \<rightharpoonup> ChannelCore) \<Rightarrow> bool" where
  "fresh_channels channels \<longleftrightarrow> (\<forall>n ch. channels n = Some ch \<longrightarrow> (\<exists>connectNum. ch = new_ChannelCore connectNum))"

lemma init_accounted:
  assumes "fresh_channels channels"
  shows "rpc_inv (rpc_init tasks envs channels clear)" "accounted (rpc_init tasks envs channels clear) co"
proof -
  have "slot_ok 0 (new_ChannelCore n)" for n :: u32
    using unat_u32_less [of n] by (auto simp: slot_ok_def new_ChannelCore_def)
  with assms show "rpc_inv (rpc_init tasks envs channels clear)"
    by (auto simp: rpc_inv_def queue_inv_def chan_inv_def calls_inv_def rpc_init_def fresh_channels_def)
  show "accounted (rpc_init tasks envs channels clear) co" by (simp add: accounted_def pend_def res_def pending_def rpc_init_def)
qed

lemma reachable_accounted:
  assumes "(rpc_step e pb strerror)\<^sup>*\<^sup>* (rpc_init tasks envs channels clear) w" "fresh_channels channels"
  shows "rpc_inv w \<and> (\<forall>co. no_timeouts w co \<longrightarrow> accounted w co)"
  using assms(1)
proof induction
  case base
  then show ?case using init_accounted [OF assms(2)] by blast
next
  case (step w w')
  then show ?case using step_accounted [OF step(2)] by blast
qed


definition channels_kept :: "('p, 'k) RpcClient \<Rightarrow> ('p, 'k) RpcClient \<Rightarrow> bool" where
  "channels_kept w w' \<longleftrightarrow> clearChannelQueue w' = clearChannelQueue w \<and> dom (cl_channels w') = dom (cl_channels w)"




lemma channels_kept_upd_conn [simp]: "channels_kept w (upd_conn c f w') = channels_kept w w'"
  by (simp add: channels_kept_def)













section \<open>Properties\<close>

text \<open>
  C3: the client neither loses nor duplicates a call.  Take a coroutine that calls only methods without
  a timeout, in any state that the client's routines and the threads around it can reach, with
  connections that fail, are lost and are replaced, and with any responses.  Each of its calls is in
  exactly one place: in the task queue, in the list of one connection that is being established, among
  the results one connection waits for, or resumed, and that exactly once; at most one of its calls has
  not been resumed.  A call that waits for a connection waits for one whose \<open>CONNECT\<close> task is queued or
  being handled.
\<close>

theorem rpc_calls_accounted:
  assumes "(rpc_step e pb strerror)\<^sup>*\<^sup>* (rpc_init tasks envs channels clear) w" "fresh_channels channels" "no_timeouts w co"
  shows "(\<forall>tid\<in>set (cl_issued w). waits (cl_tasks w) co tid \<longrightarrow> count_list (pending w @ cl_resumed w) tid = 1)
    \<and> length (filter (waits (cl_tasks w) co) (pending w)) \<le> 1
    \<and> (\<forall>c < length (cl_conns w). rc_waitSend (cl_conns w ! c) \<noteq> [] \<longrightarrow>
         Task_CONNECT c \<in> set (connectionTaskQueue w) \<or> cl_connecting w = Some c)"
proof (intro conjI ballI impI allI)
  from reachable_accounted [OF assms(1,2)] assms(3) have inv: "rpc_inv w" and acc: "accounted w co" by auto
  fix tid assume tid: "tid \<in> set (cl_issued w)" "waits (cl_tasks w) co tid"
  have "count_list (pending w @ cl_resumed w) tid = count (filter_mset (waits (cl_tasks w) co) (mset (pending w) + mset (cl_resumed w))) tid"
    using tid(2) by (simp add: count_mset)
  also have "\<dots> = count (mset (cl_issued w)) tid" using acc tid(2) by (simp add: accounted_def pend_def res_def flip: filter_union_mset)
  also have "\<dots> = 1" using tid(1) rpc_invD(4) [OF inv] by (simp add: calls_inv_def distinct_count_atmost_1)
  finally show "count_list (pending w @ cl_resumed w) tid = 1" .
next
  from reachable_accounted [OF assms(1,2)] assms(3) have "accounted w co" by auto
  then show "length (filter (waits (cl_tasks w) co) (pending w)) \<le> 1"
    by (simp add: accounted_def pend_def flip: mset_filter size_mset)
next
  from reachable_accounted [OF assms(1,2)] have inv: "rpc_inv w" by auto
  fix c assume "c < length (cl_conns w)" "rc_waitSend (cl_conns w ! c) \<noteq> []"
  with rpc_invD(1) [OF inv] show "Task_CONNECT c \<in> set (connectionTaskQueue w) \<or> cl_connecting w = Some c"
    by (auto simp: conn_inv_def)
qed


text \<open>An instance: a channel, one call, and the client's thread taking it off the queue.\<close>

definition sample_rpc0 :: "(byte list, unit) RpcClient" where
  "sample_rpc0 = rpc_init (\<lambda>_. sample_task) (\<lambda>_. Some sample_env) [0 \<mapsto> new_ChannelCore 1] []"

definition sample_rpc1 :: "(byte list, unit) RpcClient" where
  "sample_rpc1 = the (CallMethod bytes_rpc_pb 0 (\<lambda>_. 0) 9 1 7 100 0 3 (method_descriptor sample_method) (Some new_Controller)
     [7, 8] (Some []) () False sample_rpc0)"

definition sample_rpc2 :: "(byte list, unit) RpcClient" where
  "sample_rpc2 = the (taskHandle_one (\<lambda>_. []) 100 sample_rpc1)"

lemmas sample_rpc_defs = sample_rpc0_def sample_rpc1_def sample_rpc2_def rpc_init_def new_ChannelCore_def CallMethod_def
  sample_method_def Let_def

lemma sample_rpc_call: "rpc_step LittleEndian bytes_rpc_pb (\<lambda>_. []) sample_rpc0 sample_rpc1"
proof -
  have c: "CallMethod bytes_rpc_pb 0 (\<lambda>_. 0) 9 1 7 100 0 3 (method_descriptor sample_method) (Some new_Controller)
     [7, 8] (Some []) () False sample_rpc0 = Some sample_rpc1" by (simp add: sample_rpc_defs)
  show ?thesis by (rule rpc_step.call [OF c, of "new_ChannelCore 1"]) (simp_all add: sample_rpc_defs)
qed

lemma sample_rpc_steps:
  "(rpc_step LittleEndian bytes_rpc_pb (\<lambda>_. []))\<^sup>*\<^sup>* (rpc_init (\<lambda>_. sample_task) (\<lambda>_. Some sample_env) [0 \<mapsto> new_ChannelCore 1] []) sample_rpc2"
  "fresh_channels [0 \<mapsto> new_ChannelCore 1]" "no_timeouts sample_rpc2 7"
  "cl_issued sample_rpc2 = [0]" "waits (cl_tasks sample_rpc2) 7 0"
proof -
  note sample_rpc_call
  moreover have t: "taskHandle_one (\<lambda>_. []) 100 sample_rpc1 = Some sample_rpc2"
    by (simp add: sample_rpc_defs taskHandle_one_def getNextConnection_def needs_connection_def get_conn_def new_RpcConnection_def)
  then have "rpc_step LittleEndian bytes_rpc_pb (\<lambda>_. []) sample_rpc1 sample_rpc2" by (rule rpc_step.task)
  ultimately show "(rpc_step LittleEndian bytes_rpc_pb (\<lambda>_. []))\<^sup>*\<^sup>* (rpc_init (\<lambda>_. sample_task) (\<lambda>_. Some sample_env) [0 \<mapsto> new_ChannelCore 1] []) sample_rpc2"
    unfolding sample_rpc0_def by (meson rtranclp.rtrancl_into_rtrancl rtranclp.rtrancl_refl)
  show "fresh_channels [0 \<mapsto> new_ChannelCore 1]" by (auto simp: fresh_channels_def split: if_splits)
  show "no_timeouts sample_rpc2 7" "cl_issued sample_rpc2 = [0]" "waits (cl_tasks sample_rpc2) 7 0"
    by (simp_all add: sample_rpc_defs taskHandle_one_def getNextConnection_def needs_connection_def get_conn_def new_RpcConnection_def
        no_timeouts_def waits_def)
qed

theorem rpc_calls_accounted_witness:
  "count_list (pending sample_rpc2 @ cl_resumed sample_rpc2) 0 = 1"
  using rpc_calls_accounted [OF sample_rpc_steps(1-3)] sample_rpc_steps(4,5) by simp


lemma clear_before_request:
  "\<exists>w. (rpc_step LittleEndian bytes_rpc_pb (\<lambda>_. []))\<^sup>*\<^sup>* (rpc_init (\<lambda>_. sample_task) (\<lambda>_. Some sample_env) [0 \<mapsto> new_ChannelCore 1] []) w
     \<and> taskHandle_one (\<lambda>_. []) 100 w = None"
proof -
  let ?w = "end_Guard 0 sample_rpc1"
  let ?w' = "?w\<lparr>clearChannelQueue := [], cl_channels := [0 \<mapsto> (new_ChannelCore 1)\<lparr>ch_connections := []\<rparr>]\<rparr>"
  have d: "rpc_step LittleEndian bytes_rpc_pb (\<lambda>_. []) sample_rpc1 ?w" by (rule rpc_step.destroyed) (simp add: sample_rpc_defs)
  have "clearChannel_one True ?w = Some ?w'"
    by (simp add: sample_rpc_defs end_Guard_def clearChannel_one_def List.map_filter_def)
  then have "rpc_step LittleEndian bytes_rpc_pb (\<lambda>_. []) ?w ?w'" by (rule rpc_step.clear)
  with d have "(rpc_step LittleEndian bytes_rpc_pb (\<lambda>_. []))\<^sup>*\<^sup>* sample_rpc0 ?w'"
    using sample_rpc_call by (meson rtranclp.rtrancl_into_rtrancl rtranclp.rtrancl_refl)
  moreover have "taskHandle_one (\<lambda>_. []) 100 ?w' = None"
    by (rule taskHandle_cleared) (simp add: next_cleared_def end_Guard_def sample_rpc_defs)
  ultimately show ?thesis unfolding sample_rpc0_def by blast
qed


end
