(* ===== verification/Pool.thy ===== *)
theory Pool
  imports Prelude "HOL-Library.Multiset"
begin

text \<open>
  The connection pools of \<open>corpc_redis\<close>, \<open>corpc_mysql\<close>, \<open>corpc_mongodb\<close> and \<open>corpc_memcached\<close>: the
  services \<open>take\<close> and \<open>put\<close>, the clearing of idle connections and the proxies.  The four pools differ in
  how they connect and in their messages only.

  A pool's service methods run as coroutines of one thread.  Where one yields, its operation is split:
  \<open>connecting\<close> are the callers of \<open>take\<close> inside the client library's connect, \<open>reconnecting\<close> the waiters
  that a \<open>put\<close> has taken off the waiting list and connects for.  A coroutine that \<open>co_resume\<close> continues
  runs to its end at once.  \<open>requests\<close> are the calls of \<open>take\<close> and \<open>results\<close> their responses, in order; \<open>taken\<close> the handles in the hands of
  callers and \<open>freed\<close> those given back to the client library.  The client libraries are not part of the
  repository: their results are arguments.
\<close>

section \<open>The pool\<close>

record 'h Pool =
  maxConnectNum :: u32
  realConnectCount :: u32
  idleList :: "('h \<times> int) list"
  waitingList :: "u64 list"
  connecting :: "u64 list"
  reconnecting :: "u64 list"
  taken :: "'h list"
  freed :: "'h list"
  requests :: "u64 list"
  results :: "(u64 \<times> (string + 'h)) list"

definition new_Pool :: "u32 \<Rightarrow> 'h Pool" where
  "new_Pool mx = \<lparr>maxConnectNum = mx, realConnectCount = 0, idleList = [], waitingList = [], connecting = [],
     reconnecting = [], taken = [], freed = [], requests = [], results = []\<rparr>"

text \<open>The outcome of an attempt to connect; a handle that is refused has been freed.\<close>

datatype 'h connect_result = Connected 'h | Refused string "'h option"

definition set_handle :: "u64 \<Rightarrow> 'h \<Rightarrow> 'h Pool \<Rightarrow> 'h Pool" where
  "set_handle co h p = p\<lparr>results := results p @ [(co, Inr h)], taken := taken p @ [h]\<rparr>"

definition set_failed :: "u64 \<Rightarrow> string \<Rightarrow> 'h Pool \<Rightarrow> 'h Pool" where
  "set_failed co reason p = p\<lparr>results := results p @ [(co, Inl reason)]\<rparr>"

definition free_handle :: "'h \<Rightarrow> 'h Pool \<Rightarrow> 'h Pool" where
  "free_handle h p = p\<lparr>freed := freed p @ [h]\<rparr>"

definition take_idle :: "u64 \<Rightarrow> 'h Pool \<Rightarrow> 'h Pool" where
  "take_idle co p = set_handle co (fst (last (idleList p))) (p\<lparr>idleList := butlast (idleList p)\<rparr>)"

text \<open>\<open>take\<close> up to the point where it yields, and after it was resumed.\<close>

definition pool_take :: "u64 \<Rightarrow> 'h Pool \<Rightarrow> 'h Pool" where
  "pool_take co p =
     (let p = p\<lparr>requests := requests p @ [co]\<rparr> in
      if idleList p \<noteq> [] then take_idle co p
      else if realConnectCount p < maxConnectNum p
      then p\<lparr>realConnectCount := realConnectCount p + 1, connecting := connecting p @ [co]\<rparr>
      else p\<lparr>waitingList := waitingList p @ [co]\<rparr>)"

definition take_resumed :: "string \<Rightarrow> u64 \<Rightarrow> 'h Pool \<Rightarrow> 'h Pool" where
  "take_resumed msg co p = (if idleList p = [] then set_failed co msg p else take_idle co p)"

text \<open>All waiting coroutines are resumed.\<close>

function resume_waiting :: "string \<Rightarrow> 'h Pool \<Rightarrow> 'h Pool" where
  "resume_waiting msg p =
     (case waitingList p of
        [] \<Rightarrow> p
      | co # cos \<Rightarrow> resume_waiting msg (take_resumed msg co (p\<lparr>waitingList := cos\<rparr>)))"
  by pat_completeness auto
termination
  by (relation "measure (\<lambda>(msg, p). length (waitingList p))")
     (auto simp: take_resumed_def take_idle_def set_handle_def set_failed_def)

declare resume_waiting.simps [simp del]

definition take_connected :: "string \<Rightarrow> u64 \<Rightarrow> 'h connect_result \<Rightarrow> 'h Pool \<Rightarrow> 'h Pool" where
  "take_connected msg co result p =
     (let p = p\<lparr>connecting := remove1 co (connecting p)\<rparr> in
      case result of
        Connected h \<Rightarrow> set_handle co h p
      | Refused reason h \<Rightarrow>
          let p = (case h of None \<Rightarrow> p | Some h \<Rightarrow> free_handle h p) in
          set_failed co reason (resume_waiting msg (p\<lparr>realConnectCount := realConnectCount p - 1\<rparr>)))"

text \<open>\<open>put\<close>; \<open>None\<close> is a failed assertion.\<close>

definition put_error :: "'h \<Rightarrow> 'h Pool \<Rightarrow> 'h Pool option" where
  "put_error h p =
     (let p = free_handle h (p\<lparr>realConnectCount := realConnectCount p - 1\<rparr>) in
      case waitingList p of
        [] \<Rightarrow> Some p
      | co # cos \<Rightarrow>
          if idleList p \<noteq> [] then None
          else if realConnectCount p < maxConnectNum p
          then Some (p\<lparr>waitingList := cos, realConnectCount := realConnectCount p + 1, reconnecting := reconnecting p @ [co]\<rparr>)
          else Some p)"

definition put_idle :: "string \<Rightarrow> int \<Rightarrow> 'h \<Rightarrow> 'h Pool \<Rightarrow> 'h Pool option" where
  "put_idle msg now h p =
     (let p = p\<lparr>idleList := idleList p @ [(h, now)]\<rparr> in
      case waitingList p of
        [] \<Rightarrow> Some p
      | co # cos \<Rightarrow> if length (idleList p) \<noteq> 1 then None else Some (take_resumed msg co (p\<lparr>waitingList := cos\<rparr>)))"

definition pool_put :: "string \<Rightarrow> int \<Rightarrow> 'h \<Rightarrow> bool \<Rightarrow> 'h Pool \<Rightarrow> 'h Pool option" where
  "pool_put msg now h err p =
     (let p = p\<lparr>taken := remove1 h (taken p)\<rparr> in
      if length (idleList p) < unat (maxConnectNum p)
      then if err then put_error h p else put_idle msg now h p
      else if waitingList p \<noteq> [] then None
      else Some (free_handle h (p\<lparr>realConnectCount := realConnectCount p - 1\<rparr>)))"

definition put_reconnected :: "string \<Rightarrow> int \<Rightarrow> u64 \<Rightarrow> 'h connect_result \<Rightarrow> 'h Pool \<Rightarrow> 'h Pool" where
  "put_reconnected msg now co result p =
     (let p = p\<lparr>reconnecting := remove1 co (reconnecting p)\<rparr> in
      case result of
        Connected h \<Rightarrow> take_resumed msg co (p\<lparr>idleList := idleList p @ [(h, now)]\<rparr>)
      | Refused reason h \<Rightarrow>
          let p = (case h of None \<Rightarrow> p | Some h \<Rightarrow> free_handle h p) in
          resume_waiting msg (take_resumed msg co (p\<lparr>realConnectCount := realConnectCount p - 1\<rparr>)))"

text \<open>What \<open>clearIdleRoutine\<close> does every ten seconds.\<close>

function pool_clearIdle :: "int \<Rightarrow> 'h Pool \<Rightarrow> 'h Pool" where
  "pool_clearIdle now p =
     (case idleList p of
        [] \<Rightarrow> p
      | (h, t) # rest \<Rightarrow>
          if t < now - 60
          then pool_clearIdle now (free_handle h (p\<lparr>idleList := rest, realConnectCount := realConnectCount p - 1\<rparr>))
          else p)"
  by pat_completeness auto
termination
  by (relation "measure (\<lambda>(now, p). length (idleList p))") (auto simp: free_handle_def)

declare pool_clearIdle.simps [simp del]

section \<open>The four pools\<close>

text \<open>
  Redis: \<open>ctx\<close> is the result of \<open>redisConnectWithTimeout\<close>, with \<open>errstr\<close> when \<open>err\<close> is set; \<open>auth\<close> and
  \<open>select\<close> say whether the commands got a reply.
\<close>

definition redis_connect :: "string \<Rightarrow> u16 \<Rightarrow> ('h \<times> string option) option \<Rightarrow> bool \<Rightarrow> bool \<Rightarrow> 'h connect_result" where
  "redis_connect passwd dbIndex ctx auth select =
     (case ctx of
        None \<Rightarrow> Refused ''can't allocate redis context'' None
      | Some (h, Some errstr) \<Rightarrow> Refused (''can't connect to redis server for '' @ errstr) (Some h)
      | Some (h, None) \<Rightarrow>
          if passwd \<noteq> [] \<and> \<not> auth then Refused ''auth failed'' (Some h)
          else if dbIndex \<noteq> 0 \<and> \<not> select then Refused ''can't select index'' (Some h)
          else Connected h)"

definition redis_reconnect :: "('h \<times> string option) option \<Rightarrow> 'h connect_result" where
  "redis_reconnect ctx =
     (case ctx of None \<Rightarrow> Refused [] None | Some (h, Some errstr) \<Rightarrow> Refused [] (Some h) | Some (h, None) \<Rightarrow> Connected h)"

definition redis_take :: "u64 \<Rightarrow> 'h Pool \<Rightarrow> 'h Pool" where "redis_take = pool_take"

definition redis_take_connected :: "string \<Rightarrow> u16 \<Rightarrow> ('h \<times> string option) option \<Rightarrow> bool \<Rightarrow> bool \<Rightarrow> u64 \<Rightarrow> 'h Pool \<Rightarrow> 'h Pool" where
  "redis_take_connected passwd dbIndex ctx auth select co =
     take_connected ''can't connect to redis server'' co (redis_connect passwd dbIndex ctx auth select)"

definition redis_put :: "int \<Rightarrow> 'h \<Rightarrow> bool \<Rightarrow> 'h Pool \<Rightarrow> 'h Pool option" where
  "redis_put = pool_put ''can't connect to redis server''"

definition redis_put_reconnected :: "int \<Rightarrow> ('h \<times> string option) option \<Rightarrow> u64 \<Rightarrow> 'h Pool \<Rightarrow> 'h Pool" where
  "redis_put_reconnected now ctx co = put_reconnected ''can't connect to redis server'' now co (redis_reconnect ctx)"

definition redis_clearIdle :: "int \<Rightarrow> 'h Pool \<Rightarrow> 'h Pool" where "redis_clearIdle = pool_clearIdle"

text \<open>MySQL: \<open>con\<close> is the result of \<open>mysql_init\<close>, \<open>ok\<close> that of \<open>mysql_real_connect\<close>.\<close>

definition mysql_connect :: "'h option \<Rightarrow> bool \<Rightarrow> 'h connect_result" where
  "mysql_connect con ok =
     (case con of
        None \<Rightarrow> Refused ''can't create MYSQL object probably because not enough memory'' None
      | Some h \<Rightarrow> if ok then Connected h else Refused ''can't connect to mysql server'' (Some h))"

definition mysql_take :: "u64 \<Rightarrow> 'h Pool \<Rightarrow> 'h Pool" where "mysql_take = pool_take"

definition mysql_take_connected :: "'h option \<Rightarrow> bool \<Rightarrow> u64 \<Rightarrow> 'h Pool \<Rightarrow> 'h Pool" where
  "mysql_take_connected con ok co = take_connected ''can't connect to mysql server'' co (mysql_connect con ok)"

definition mysql_put :: "int \<Rightarrow> 'h \<Rightarrow> bool \<Rightarrow> 'h Pool \<Rightarrow> 'h Pool option" where
  "mysql_put = pool_put ''can't connect to mysql server''"

definition mysql_put_reconnected :: "int \<Rightarrow> 'h option \<Rightarrow> bool \<Rightarrow> u64 \<Rightarrow> 'h Pool \<Rightarrow> 'h Pool" where
  "mysql_put_reconnected now con ok co = put_reconnected ''can't connect to mysql server'' now co (mysql_connect con ok)"

definition mysql_clearIdle :: "int \<Rightarrow> 'h Pool \<Rightarrow> 'h Pool" where "mysql_clearIdle = pool_clearIdle"

text \<open>MongoDB: \<open>client\<close> is the result of \<open>mongoc_client_new\<close>, which does not connect yet.\<close>

definition mongodb_connect :: "'h option \<Rightarrow> 'h connect_result" where
  "mongodb_connect client = (case client of None \<Rightarrow> Refused ''new mongoc client fail'' None | Some h \<Rightarrow> Connected h)"

definition mongodb_take :: "'h option \<Rightarrow> u64 \<Rightarrow> 'h Pool \<Rightarrow> 'h Pool" where
  "mongodb_take client co p =
     (let p' = pool_take co p in
      if idleList p = [] \<and> realConnectCount p < maxConnectNum p
      then take_connected ''can't connect to mongodb server'' co (mongodb_connect client) p' else p')"

definition mongodb_put :: "int \<Rightarrow> 'h option \<Rightarrow> 'h \<Rightarrow> bool \<Rightarrow> 'h Pool \<Rightarrow> 'h Pool option" where
  "mongodb_put now client h err p =
     map_option (\<lambda>p'. if reconnecting p' = reconnecting p then p'
         else put_reconnected ''can't connect to mongodb server'' now (last (reconnecting p')) (mongodb_connect client) p')
       (pool_put ''can't connect to mongodb server'' now h err p)"

definition mongodb_clearIdle :: "int \<Rightarrow> 'h Pool \<Rightarrow> 'h Pool" where "mongodb_clearIdle = pool_clearIdle"

text \<open>Memcached: \<open>memc\<close> is the result of \<open>memcached_create\<close>, \<open>ok\<close> that of \<open>memcached_server_push\<close>.\<close>

definition memcached_connect :: "'h option \<Rightarrow> bool \<Rightarrow> 'h connect_result" where
  "memcached_connect memc ok =
     (case memc of
        None \<Rightarrow> Refused ''Couldn't create memcached'' None
      | Some h \<Rightarrow> if ok then Connected h else Refused ''Couldn't add memcached server'' (Some h))"

definition memcached_take :: "u64 \<Rightarrow> 'h Pool \<Rightarrow> 'h Pool" where "memcached_take = pool_take"

definition memcached_take_connected :: "'h option \<Rightarrow> bool \<Rightarrow> u64 \<Rightarrow> 'h Pool \<Rightarrow> 'h Pool" where
  "memcached_take_connected memc ok co = take_connected ''can't connect to memcached server'' co (memcached_connect memc ok)"

definition memcached_put :: "int \<Rightarrow> 'h \<Rightarrow> bool \<Rightarrow> 'h Pool \<Rightarrow> 'h Pool option" where
  "memcached_put = pool_put ''can't connect to memcached server''"

definition memcached_put_reconnected :: "int \<Rightarrow> 'h option \<Rightarrow> bool \<Rightarrow> u64 \<Rightarrow> 'h Pool \<Rightarrow> 'h Pool" where
  "memcached_put_reconnected now memc ok co = put_reconnected ''can't connect to memcached server'' now co (memcached_connect memc ok)"

definition memcached_clearIdle :: "int \<Rightarrow> 'h Pool \<Rightarrow> 'h Pool" where "memcached_clearIdle = pool_clearIdle"

section \<open>Steps\<close>

text \<open>
  A step of a pool.  Only handles that were taken are put back, each once, and the client library does
  not return a handle that is in use.
\<close>

definition fresh_result :: "'h connect_result \<Rightarrow> 'h Pool \<Rightarrow> bool" where
  "fresh_result result p \<longleftrightarrow> (\<forall>h. result = Connected h \<longrightarrow> h \<notin> fst ` set (idleList p) \<union> set (taken p))"

inductive pool_step :: "string \<Rightarrow> 'h Pool \<Rightarrow> 'h Pool \<Rightarrow> bool" for msg where
  take: "pool_step msg p (pool_take co p)"
| connected: "co \<in> set (connecting p) \<Longrightarrow> fresh_result result p \<Longrightarrow> pool_step msg p (take_connected msg co result p)"
| put: "h \<in> set (taken p) \<Longrightarrow> pool_put msg now h err p = Some p' \<Longrightarrow> pool_step msg p p'"
| reconnected: "co \<in> set (reconnecting p) \<Longrightarrow> fresh_result result p \<Longrightarrow> pool_step msg p (put_reconnected msg now co result p)"
| clear: "pool_step msg p (pool_clearIdle now p)"

inductive redis_step :: "string \<Rightarrow> u16 \<Rightarrow> 'h Pool \<Rightarrow> 'h Pool \<Rightarrow> bool" for passwd dbIndex where
  "redis_step passwd dbIndex p (redis_take co p)"
| "co \<in> set (connecting p) \<Longrightarrow> fresh_result (redis_connect passwd dbIndex ctx auth select) p \<Longrightarrow>
     redis_step passwd dbIndex p (redis_take_connected passwd dbIndex ctx auth select co p)"
| "h \<in> set (taken p) \<Longrightarrow> redis_put now h err p = Some p' \<Longrightarrow> redis_step passwd dbIndex p p'"
| "co \<in> set (reconnecting p) \<Longrightarrow> fresh_result (redis_reconnect ctx) p \<Longrightarrow>
     redis_step passwd dbIndex p (redis_put_reconnected now ctx co p)"
| "redis_step passwd dbIndex p (redis_clearIdle now p)"

inductive mysql_step :: "'h Pool \<Rightarrow> 'h Pool \<Rightarrow> bool" where
  "mysql_step p (mysql_take co p)"
| "co \<in> set (connecting p) \<Longrightarrow> fresh_result (mysql_connect con ok) p \<Longrightarrow> mysql_step p (mysql_take_connected con ok co p)"
| "h \<in> set (taken p) \<Longrightarrow> mysql_put now h err p = Some p' \<Longrightarrow> mysql_step p p'"
| "co \<in> set (reconnecting p) \<Longrightarrow> fresh_result (mysql_connect con ok) p \<Longrightarrow> mysql_step p (mysql_put_reconnected now con ok co p)"
| "mysql_step p (mysql_clearIdle now p)"

inductive mongodb_step :: "'h Pool \<Rightarrow> 'h Pool \<Rightarrow> bool" where
  "fresh_result (mongodb_connect client) p \<Longrightarrow> mongodb_step p (mongodb_take client co p)"
| "h \<in> set (taken p) \<Longrightarrow> fresh_result (mongodb_connect client) (p\<lparr>taken := remove1 h (taken p)\<rparr>) \<Longrightarrow>
     mongodb_put now client h err p = Some p' \<Longrightarrow> mongodb_step p p'"
| "mongodb_step p (mongodb_clearIdle now p)"

inductive memcached_step :: "'h Pool \<Rightarrow> 'h Pool \<Rightarrow> bool" where
  "memcached_step p (memcached_take co p)"
| "co \<in> set (connecting p) \<Longrightarrow> fresh_result (memcached_connect memc ok) p \<Longrightarrow>
     memcached_step p (memcached_take_connected memc ok co p)"
| "h \<in> set (taken p) \<Longrightarrow> memcached_put now h err p = Some p' \<Longrightarrow> memcached_step p p'"
| "co \<in> set (reconnecting p) \<Longrightarrow> fresh_result (memcached_connect memc ok) p \<Longrightarrow>
     memcached_step p (memcached_put_reconnected now memc ok co p)"
| "memcached_step p (memcached_clearIdle now p)"

section \<open>Invariant\<close>

definition pool_inv :: "'h Pool \<Rightarrow> bool" where
  "pool_inv p \<longleftrightarrow>
     unat (realConnectCount p) = length (idleList p) + length (taken p) + length (connecting p) + length (reconnecting p)
     \<and> realConnectCount p \<le> maxConnectNum p
     \<and> (waitingList p \<noteq> [] \<longrightarrow> idleList p = [] \<and> realConnectCount p = maxConnectNum p)
     \<and> distinct (map fst (idleList p) @ taken p)
     \<and> mset (requests p) = mset (map fst (results p)) + mset (waitingList p) + mset (connecting p) + mset (reconnecting p)"

lemmas pool_ops = take_idle_def set_handle_def set_failed_def free_handle_def take_resumed_def

lemma count_up:
  assumes "(n :: u32) < m"
  shows "unat (n + 1) = Suc (unat n) \<and> n + 1 \<le> m"
proof -
  have "Suc (unat n) < 4294967296" using unat_u32_less [of m] assms unfolding word_less_nat_alt by linarith
  with assms show ?thesis by (simp add: word_less_nat_alt word_le_nat_alt unat_word_ariths)
qed

lemma count_down: "0 < unat (n :: u32) \<Longrightarrow> unat (n - 1) = unat n - 1 \<and> (n \<le> m \<longrightarrow> n - 1 \<le> m)"
  by (auto simp: unat_minus_one unat_gt_0 word_le_nat_alt)

lemma resume_waiting_eq:
  "idleList p = [] \<or> waitingList p = [] \<Longrightarrow>
   resume_waiting msg p = p\<lparr>waitingList := [], results := results p @ map (\<lambda>co. (co, Inl msg)) (waitingList p)\<rparr>"
proof (induction msg p rule: resume_waiting.induct)
  case (1 msg p)
  show ?case
  proof (cases "waitingList p")
    case Nil
    then show ?thesis by (simp add: resume_waiting.simps [of msg p])
  next
    case (Cons co cos)
    with 1 show ?thesis by (subst resume_waiting.simps) (simp add: pool_ops)
  qed
qed

lemma take_inv: "pool_inv p \<Longrightarrow> pool_inv (pool_take co p)"
proof -
  assume inv: "pool_inv p"
  consider (idle) x xs where "idleList p = xs @ [x]" | (connect) "idleList p = []" "realConnectCount p < maxConnectNum p"
    | (wait) "idleList p = []" "realConnectCount p = maxConnectNum p"
    using inv by (metis pool_inv_def order_le_less rev_exhaust)
  then show ?thesis
  proof cases
    case idle
    with inv show ?thesis by (cases x) (auto simp: pool_inv_def pool_take_def pool_ops Let_def)
  next
    case connect
    with inv count_up [OF connect(2)] show ?thesis by (auto simp: pool_inv_def pool_take_def Let_def)
  next
    case wait
    with inv show ?thesis by (auto simp: pool_inv_def pool_take_def Let_def)
  qed
qed

lemma free_handle_inv [simp]: "pool_inv (free_handle h p) = pool_inv p"
  by (simp add: pool_inv_def free_handle_def)

lemma remove1_split:
  assumes "x \<in> set xs"
  obtains ys where "remove1 x xs = ys" "length xs = Suc (length ys)" "mset xs = add_mset x (mset ys)" "set ys \<subseteq> set xs"
proof
  show "remove1 x xs = remove1 x xs" ..
  show "length xs = Suc (length (remove1 x xs))" using assms by (induction xs) auto
  show "mset xs = add_mset x (mset (remove1 x xs))" using assms by simp
qed (rule set_remove1_subset)

text \<open>A caller leaves without a connection, and all who wait are told.\<close>

lemma give_up_inv:
  assumes inv: "pool_inv p" and co: "co \<in> set (connecting p)" and q: "q = p\<lparr>connecting := remove1 co (connecting p), freed := fs\<rparr>"
  shows "pool_inv (set_failed co reason (resume_waiting msg (q\<lparr>realConnectCount := realConnectCount q - 1\<rparr>)))"
proof -
  from remove1_split [OF co] obtain ys where
    ys: "remove1 co (connecting p) = ys" "length (connecting p) = Suc (length ys)" "mset (connecting p) = add_mset co (mset ys)" by metis
  have "0 < unat (realConnectCount p)" using inv ys by (simp add: pool_inv_def)
  note down = count_down [OF this, of "maxConnectNum p"]
  have w: "idleList p = [] \<or> waitingList p = []" using inv by (auto simp: pool_inv_def)
  show ?thesis
    unfolding q using inv down w ys by (simp add: resume_waiting_eq pool_inv_def set_failed_def comp_def)
qed

lemma connected_inv:
  assumes inv: "pool_inv p" and co: "co \<in> set (connecting p)" and fresh: "fresh_result result p"
  shows "pool_inv (take_connected msg co result p)"
proof (cases result)
  case (Connected h)
  from remove1_split [OF co] obtain ys where
    ys: "remove1 co (connecting p) = ys" "length (connecting p) = Suc (length ys)" "mset (connecting p) = add_mset co (mset ys)" by metis
  with Connected inv fresh show ?thesis
    by (auto simp: take_connected_def pool_inv_def set_handle_def fresh_result_def)
next
  case (Refused reason h)
  have "(case h of None \<Rightarrow> p\<lparr>connecting := remove1 co (connecting p)\<rparr> | Some h \<Rightarrow> free_handle h (p\<lparr>connecting := remove1 co (connecting p)\<rparr>))
      = p\<lparr>connecting := remove1 co (connecting p), freed := freed p @ (case h of None \<Rightarrow> [] | Some h \<Rightarrow> [h])\<rparr>"
    by (simp add: free_handle_def split: option.split)
  from give_up_inv [OF inv co this, of reason msg] Refused show ?thesis by (simp add: take_connected_def Let_def)
qed

text \<open>The same for the waiter that a \<open>put\<close> reconnects for.\<close>

lemma reconnected_inv:
  assumes inv: "pool_inv p" and co: "co \<in> set (reconnecting p)" and fresh: "fresh_result result p"
  shows "pool_inv (put_reconnected msg now co result p)"
proof -
  from remove1_split [OF co] obtain ys where
    ys: "remove1 co (reconnecting p) = ys" "length (reconnecting p) = Suc (length ys)" "mset (reconnecting p) = add_mset co (mset ys)" by metis
  have "0 < unat (realConnectCount p)" using inv ys by (simp add: pool_inv_def)
  note down = count_down [OF this, of "maxConnectNum p"]
  show ?thesis
  proof (cases result)
    case (Connected h)
    with inv fresh ys show ?thesis
      by (auto simp: put_reconnected_def pool_inv_def pool_ops fresh_result_def)
  next
    case (Refused reason h)
    have q: "(case h of None \<Rightarrow> p\<lparr>reconnecting := ys\<rparr> | Some h \<Rightarrow> free_handle h (p\<lparr>reconnecting := ys\<rparr>))
        = p\<lparr>reconnecting := ys, freed := freed p @ (case h of None \<Rightarrow> [] | Some h \<Rightarrow> [h])\<rparr>"
      by (simp add: free_handle_def split: option.split)
    show ?thesis
    proof (cases "idleList p" rule: rev_cases)
      case Nil
      then show ?thesis using inv down ys Refused
        by (simp add: put_reconnected_def Let_def q) (simp add: resume_waiting_eq pool_ops pool_inv_def comp_def)
    next
      case (snoc xs x)
      then have "waitingList p = []" using inv by (auto simp: pool_inv_def)
      with snoc show ?thesis using inv down ys Refused
        by (cases x) (simp add: put_reconnected_def Let_def q, auto simp: resume_waiting_eq pool_ops pool_inv_def)
    qed
  qed
qed

lemma put_ok:
  assumes inv: "pool_inv p" and h: "h \<in> set (taken p)"
  shows "\<exists>p'. pool_put msg now h err p = Some p' \<and> pool_inv p' \<and> maxConnectNum p' = maxConnectNum p"
proof -
  from remove1_split [OF h] obtain ys where
    ys: "remove1 h (taken p) = ys" "length (taken p) = Suc (length ys)" "mset (taken p) = add_mset h (mset ys)" "set ys \<subseteq> set (taken p)" by metis
  have "distinct (taken p)" using inv by (simp add: pool_inv_def)
  then have d: "distinct ys" "h \<notin> set ys" using ys(1) by auto
  have "0 < unat (realConnectCount p)" using inv ys by (simp add: pool_inv_def)
  note down = count_down [OF this, of "maxConnectNum p"]
  have "length (idleList p) < unat (realConnectCount p)" using inv ys by (simp add: pool_inv_def)
  also have "\<dots> \<le> unat (maxConnectNum p)" using inv by (simp add: pool_inv_def word_le_nat_alt)
  finally have room: "length (idleList p) < unat (maxConnectNum p)" .
  have "h \<notin> fst ` set (idleList p)" using inv h by (auto simp: pool_inv_def)
  show ?thesis
  proof (cases err)
    case True
    show ?thesis
    proof (cases "waitingList p")
      case Nil
      with True room inv ys d down show ?thesis
        by (auto simp: pool_put_def put_error_def Let_def pool_inv_def free_handle_def)
    next
      case (Cons co cos)
      then have full: "idleList p = []" "realConnectCount p = maxConnectNum p" using inv by (auto simp: pool_inv_def)
      then have "maxConnectNum p - 1 < maxConnectNum p" using down room by (simp add: word_less_nat_alt)
      with True room inv ys d down full Cons show ?thesis
        by (auto simp: pool_put_def put_error_def Let_def pool_inv_def free_handle_def)
    qed
  next
    case False
    show ?thesis
    proof (cases "waitingList p")
      case Nil
      with False room inv ys d \<open>h \<notin> fst ` set (idleList p)\<close> show ?thesis
        by (auto simp: pool_put_def put_idle_def Let_def pool_inv_def)
    next
      case (Cons co cos)
      then have "idleList p = []" using inv by (auto simp: pool_inv_def)
      with False room inv ys d Cons show ?thesis
        by (auto simp: pool_put_def put_idle_def Let_def pool_inv_def pool_ops)
    qed
  qed
qed

lemma clear_inv: "pool_inv p \<Longrightarrow> pool_inv (pool_clearIdle now p)"
proof (induction now p rule: pool_clearIdle.induct)
  case (1 now p)
  show ?case
  proof (cases "idleList p")
    case Nil
    with 1 show ?thesis by (simp add: pool_clearIdle.simps [of now p])
  next
    case (Cons x rest)
    obtain h t where x: "x = (h, t)" by (cases x)
    have "0 < unat (realConnectCount p)" using 1(2) Cons by (simp add: pool_inv_def)
    note down = count_down [OF this, of "maxConnectNum p"]
    have "pool_inv (free_handle h (p\<lparr>idleList := rest, realConnectCount := realConnectCount p - 1\<rparr>))"
      using 1(2) Cons x down by (simp add: pool_inv_def free_handle_def)
    with 1 Cons x show ?thesis by (subst pool_clearIdle.simps) simp
  qed
qed

lemma resume_waiting_max [simp]: "maxConnectNum (resume_waiting msg p) = maxConnectNum p"
proof (induction msg p rule: resume_waiting.induct)
  case (1 msg p)
  then show ?case by (subst resume_waiting.simps) (auto simp: pool_ops split: list.split)
qed

lemma clearIdle_max [simp]: "maxConnectNum (pool_clearIdle now p) = maxConnectNum p"
proof (induction now p rule: pool_clearIdle.induct)
  case (1 now p)
  then show ?case by (subst pool_clearIdle.simps) (auto simp: pool_ops split: list.split)
qed

lemma take_max [simp]:
  "maxConnectNum (pool_take co p) = maxConnectNum p"
  "maxConnectNum (take_connected msg co result p) = maxConnectNum p"
  "maxConnectNum (put_reconnected msg now co result p) = maxConnectNum p"
  by (auto simp: pool_take_def take_connected_def put_reconnected_def pool_ops Let_def split: connect_result.split option.split)

lemma pool_step_inv: "pool_step msg p p' \<Longrightarrow> pool_inv p \<Longrightarrow> pool_inv p' \<and> maxConnectNum p' = maxConnectNum p"
proof (induction rule: pool_step.induct)
  case (put h p now err p')
  with put_ok [OF put(3,1), of msg now err] show ?case by auto
qed (auto simp: take_inv connected_inv reconnected_inv clear_inv)

section \<open>What a pool promises\<close>

text \<open>A service is a connection pool when its steps are those of a pool with some message.\<close>

locale connection_pool =
  fixes step :: "'h Pool \<Rightarrow> 'h Pool \<Rightarrow> bool" and msg :: string
  assumes step_pool: "step p p' \<Longrightarrow> (pool_step msg)\<^sup>*\<^sup>* p p'"
begin

lemma reachable_inv:
  assumes "step\<^sup>*\<^sup>* (new_Pool mx) p"
  shows "pool_inv p \<and> maxConnectNum p = mx"
  using assms
proof induction
  case base
  then show ?case by (simp add: pool_inv_def new_Pool_def)
next
  case (step p p')
  have "pool_inv p' \<and> maxConnectNum p' = maxConnectNum p" using step_pool [OF step(2)]
  proof induction
    case base
    then show ?case using step.IH by simp
  next
    case (step q q')
    then show ?case using pool_step_inv by metis
  qed
  with step.IH show ?case by simp
qed

end

interpretation redis: connection_pool "redis_step passwd dbIndex" "''can't connect to redis server''" for passwd dbIndex
proof
  show "(pool_step ''can't connect to redis server'')\<^sup>*\<^sup>* p p'" if "redis_step passwd dbIndex p p'" for p p' :: "'h Pool"
    using that by cases (auto simp: redis_take_def redis_take_connected_def redis_put_def redis_put_reconnected_def redis_clearIdle_def
        intro: r_into_rtranclp pool_step.intros)
qed

interpretation mysql: connection_pool mysql_step "''can't connect to mysql server''"
proof
  show "(pool_step ''can't connect to mysql server'')\<^sup>*\<^sup>* p p'" if "mysql_step p p'" for p p' :: "'h Pool"
    using that by cases (auto simp: mysql_take_def mysql_take_connected_def mysql_put_def mysql_put_reconnected_def mysql_clearIdle_def
        intro: r_into_rtranclp pool_step.intros)
qed

interpretation memcached: connection_pool memcached_step "''can't connect to memcached server''"
proof
  show "(pool_step ''can't connect to memcached server'')\<^sup>*\<^sup>* p p'" if "memcached_step p p'" for p p' :: "'h Pool"
    using that by cases (auto simp: memcached_take_def memcached_take_connected_def memcached_put_def memcached_put_reconnected_def
        memcached_clearIdle_def intro: r_into_rtranclp pool_step.intros)
qed

text \<open>MongoDB creates its client without yielding, so one of its steps may be two of a pool.\<close>

lemma put_reconnecting:
  assumes "pool_put msg now h err p = Some p'" "reconnecting p' \<noteq> reconnecting p"
  shows "\<exists>co. reconnecting p' = reconnecting p @ [co]" "idleList p' = idleList p" "taken p' = remove1 h (taken p)"
  using assms
  by (auto simp: pool_put_def put_error_def put_idle_def Let_def pool_ops split: if_splits list.splits)

interpretation mongodb: connection_pool mongodb_step "''can't connect to mongodb server''"
proof
  let ?msg = "''can't connect to mongodb server''"
  show "(pool_step ?msg)\<^sup>*\<^sup>* p p'" if "mongodb_step p p'" for p p' :: "'h Pool"
    using that
  proof cases
    case (1 client co)
    show ?thesis
    proof (cases "idleList p = [] \<and> realConnectCount p < maxConnectNum p")
      case True
      let ?q = "pool_take co p"
      have "pool_step ?msg p ?q" by (rule pool_step.take)
      moreover have "pool_step ?msg ?q (take_connected ?msg co (mongodb_connect client) ?q)"
        by (rule pool_step.connected) (use True 1(2) in \<open>auto simp: pool_take_def Let_def fresh_result_def\<close>)
      ultimately show ?thesis using 1(1) True by (auto simp: mongodb_take_def Let_def)
    next
      case False
      then show ?thesis using 1(1) by (auto simp: mongodb_take_def Let_def intro: r_into_rtranclp pool_step.take)
    qed
  next
    case (2 h client now err)
    from 2(3) obtain q where q: "pool_put ?msg now h err p = Some q"
      and p': "p' = (if reconnecting q = reconnecting p then q else put_reconnected ?msg now (last (reconnecting q)) (mongodb_connect client) q)"
      by (auto simp: mongodb_put_def)
    have s: "pool_step ?msg p q" using 2(1) q by (rule pool_step.put)
    show ?thesis
    proof (cases "reconnecting q = reconnecting p")
      case True
      with s p' show ?thesis by (simp add: r_into_rtranclp)
    next
      case False
      note r = put_reconnecting [OF q False]
      have "pool_step ?msg q (put_reconnected ?msg now (last (reconnecting q)) (mongodb_connect client) q)"
        by (rule pool_step.reconnected) (use r 2(2) in \<open>auto simp: fresh_result_def\<close>)
      with s p' False show ?thesis by auto
    qed
  next
    case (3 now)
    then show ?thesis by (auto simp: mongodb_clearIdle_def intro: r_into_rtranclp pool_step.clear)
  qed
qed

definition pool_reachable :: "string \<Rightarrow> u16 \<Rightarrow> u32 \<Rightarrow> 'h Pool \<Rightarrow> bool" where
  "pool_reachable passwd dbIndex mx p \<longleftrightarrow>
     (redis_step passwd dbIndex)\<^sup>*\<^sup>* (new_Pool mx) p \<or> mysql_step\<^sup>*\<^sup>* (new_Pool mx) p
     \<or> mongodb_step\<^sup>*\<^sup>* (new_Pool mx) p \<or> memcached_step\<^sup>*\<^sup>* (new_Pool mx) p"

lemma pool_reachable_inv: "pool_reachable passwd dbIndex mx p \<Longrightarrow> pool_inv p \<and> maxConnectNum p = mx"
  using redis.reachable_inv mysql.reachable_inv mongodb.reachable_inv memcached.reachable_inv
  unfolding pool_reachable_def by blast

section \<open>Properties\<close>

text \<open>
  C21: a Redis, MySQL, MongoDB or Memcached pool never has more connections than its maximum, counting
  those in use and those being established, its counter is exact and never wraps, and no handle is given
  to two callers at a time.  Every caller of \<open>take\<close> is answered at most once: it has its response, waits,
  or is being connected.
\<close>

theorem pools_bounded:
  assumes "pool_reachable passwd dbIndex mx p"
  shows "unat (realConnectCount p) = length (idleList p) + length (taken p) + length (connecting p) + length (reconnecting p)
    \<and> realConnectCount p \<le> mx \<and> distinct (map fst (idleList p) @ taken p)
    \<and> mset (requests p) = mset (map fst (results p)) + mset (waitingList p) + mset (connecting p) + mset (reconnecting p)"
  using pool_reachable_inv [OF assms] unfolding pool_inv_def by auto

text \<open>
  C20: nobody waits for a pool in vain.  When a caller waits, every connection is in use or being
  established, so at least one will come back.  Putting back a handle never fails an assertion; if the
  connection is in order it goes to the caller that has waited longest.
\<close>

theorem pools_serve_waiters:
  assumes "pool_reachable passwd dbIndex mx p" "0 < mx" "waitingList p = co # cos"
  shows "(taken p \<noteq> [] \<or> connecting p \<noteq> [] \<or> reconnecting p \<noteq> [])
    \<and> (\<forall>h\<in>set (taken p). pool_put msg now h err p \<noteq> None)
    \<and> (\<forall>h\<in>set (taken p). \<exists>p'. pool_put msg now h False p = Some p'
         \<and> results p' = results p @ [(co, Inr h)] \<and> waitingList p' = cos)"
proof (intro conjI ballI)
  from pool_reachable_inv [OF assms(1)] have inv: "pool_inv p" and mx: "maxConnectNum p = mx" by auto
  have "unat mx = length (taken p) + length (connecting p) + length (reconnecting p)" "idleList p = []"
    using inv mx assms(3) by (auto simp: pool_inv_def)
  moreover have "0 < unat mx" using assms(2) by (simp add: unat_gt_0 word_neq_0_conv)
  ultimately show "taken p \<noteq> [] \<or> connecting p \<noteq> [] \<or> reconnecting p \<noteq> []" by auto
  fix h assume "h \<in> set (taken p)"
  with put_ok [OF inv, of h msg now err] show "pool_put msg now h err p \<noteq> None" by auto
next
  from pool_reachable_inv [OF assms(1)] have inv: "pool_inv p" and mx: "maxConnectNum p = mx" by auto
  fix h assume h: "h \<in> set (taken p)"
  have "idleList p = []" "0 < unat (maxConnectNum p)" using inv mx assms(2,3) by (auto simp: pool_inv_def unat_gt_0)
  then show "\<exists>p'. pool_put msg now h False p = Some p' \<and> results p' = results p @ [(co, Inr h)] \<and> waitingList p' = cos"
    using assms(3) by (simp add: pool_put_def put_idle_def Let_def pool_ops)
qed

text \<open>An instance: a pool of one connection, taken by coroutine 5; coroutine 6 waits.\<close>

definition sample_pool :: "nat Pool" where
  "sample_pool = mysql_take 6 (mysql_take_connected (Some 7) True 5 (mysql_take 5 (new_Pool 1)))"

lemmas sample_pool_defs = sample_pool_def mysql_take_def mysql_take_connected_def mysql_connect_def pool_take_def
  take_connected_def set_handle_def new_Pool_def Let_def

lemma sample_pool_reachable: "pool_reachable [] 0 1 sample_pool"
proof -
  have "mysql_step (new_Pool 1) (mysql_take 5 (new_Pool 1))" by (rule mysql_step.intros)
  moreover have "mysql_step (mysql_take 5 (new_Pool 1)) (mysql_take_connected (Some 7) True 5 (mysql_take 5 (new_Pool 1)))"
    by (rule mysql_step.intros) (simp_all add: sample_pool_defs fresh_result_def)
  moreover have "mysql_step (mysql_take_connected (Some (7 :: nat)) True 5 (mysql_take 5 (new_Pool 1))) sample_pool"
    unfolding sample_pool_def by (rule mysql_step.intros)
  ultimately have "mysql_step\<^sup>*\<^sup>* (new_Pool 1) sample_pool" by (meson converse_rtranclp_into_rtranclp rtranclp.rtrancl_refl)
  then show ?thesis by (simp add: pool_reachable_def)
qed

theorem pools_bounded_witness:
  "realConnectCount sample_pool \<le> 1 \<and> distinct (map fst (idleList sample_pool) @ taken sample_pool)"
  using pools_bounded [OF sample_pool_reachable] by simp

theorem pools_serve_waiters_witness:
  "taken sample_pool = [7] \<and> (\<exists>p'. pool_put [] 100 7 False sample_pool = Some p' \<and> results p' = results sample_pool @ [(6, Inr 7)])"
proof -
  have "waitingList sample_pool = [6]" "taken sample_pool = [7]" by (simp_all add: sample_pool_defs)
  then show ?thesis using pools_serve_waiters [OF sample_pool_reachable, of 6 "[]" "[]" 100] by auto
qed

end
