(* ===== verification/Semaphore.thy ===== *)
theory Semaphore
  imports Prelude
begin

text \<open>
  \<open>Semaphore\<close> of \<open>corpc_semaphore.h/.cpp\<close>, a semaphore for coroutines of several threads.  \<open>res_\<close> is the
  number of permits, or -1 while a coroutine works on the list of waiting coroutines; it is an \<open>int\<close> of 32
  bits, and the addition in \<open>post\<close> wraps around (C++ leaves it undefined; this is what the machine does).

  The state has one program counter per coroutine, and a step is one atomic access: a load followed by
  a successful \<open>compare_exchange_weak\<close> is one step, since the exchange succeeds only at the value that
  was loaded; failed attempts and spinning change nothing.
\<close>

section \<open>The code\<close>

datatype sem_pc =
    Sem_out
  | Sem_wait | Wait_locked | Wait_pushed | Suspended
  | Sem_post | Post_locked | Post_popped nat | Post_resume nat

record Semaphore =
  sem_res :: int
  sem_waitRoutines :: "nat list"
  sem_pcs :: "nat \<Rightarrow> sem_pc"

text \<open>The value of an integer in an \<open>int\<close> of 32 bits.\<close>

definition wrap_int :: "int \<Rightarrow> int" where
  "wrap_int x = signed_take_bit 31 x"

definition new_Semaphore :: "int \<Rightarrow> Semaphore" where
  "new_Semaphore num = \<lparr>sem_res = wrap_int num, sem_waitRoutines = [], sem_pcs = (\<lambda>_. Sem_out)\<rparr>"

definition set_pc :: "nat \<Rightarrow> sem_pc \<Rightarrow> Semaphore \<Rightarrow> Semaphore" where
  "set_pc i pc s = s\<lparr>sem_pcs := (sem_pcs s)(i := pc)\<rparr>"

text \<open>\<open>wait\<close>, from the call to the point where it returns or yields.\<close>

definition sem_wait_step :: "nat \<Rightarrow> Semaphore \<Rightarrow> Semaphore option" where
  "sem_wait_step i s =
     (case sem_pcs s i of
        Sem_wait \<Rightarrow>
          if sem_res s = 0 then Some (set_pc i Wait_locked (s\<lparr>sem_res := -1\<rparr>))
          else if sem_res s > 0 then Some (set_pc i Sem_out (s\<lparr>sem_res := sem_res s - 1\<rparr>))
          else None
      | Wait_locked \<Rightarrow> Some (set_pc i Wait_pushed (s\<lparr>sem_waitRoutines := sem_waitRoutines s @ [i]\<rparr>))
      | Wait_pushed \<Rightarrow> Some (set_pc i Suspended (s\<lparr>sem_res := 0\<rparr>))
      | _ \<Rightarrow> None)"

text \<open>\<open>post\<close>; the coroutine that it resumes leaves \<open>wait\<close>.\<close>

definition sem_post_step :: "nat \<Rightarrow> Semaphore \<Rightarrow> Semaphore option" where
  "sem_post_step i s =
     (case sem_pcs s i of
        Sem_post \<Rightarrow>
          if sem_res s = 0 then Some (set_pc i Post_locked (s\<lparr>sem_res := -1\<rparr>))
          else if sem_res s > 0 then Some (set_pc i Sem_out (s\<lparr>sem_res := wrap_int (sem_res s + 1)\<rparr>))
          else None
      | Post_locked \<Rightarrow>
          (case sem_waitRoutines s of
             [] \<Rightarrow> Some (set_pc i Sem_out (s\<lparr>sem_res := 1\<rparr>))
           | j # js \<Rightarrow> Some (set_pc i (Post_popped j) (s\<lparr>sem_waitRoutines := js\<rparr>)))
      | Post_popped j \<Rightarrow> Some (set_pc i (Post_resume j) (s\<lparr>sem_res := 0\<rparr>))
      | Post_resume j \<Rightarrow> Some (set_pc i Sem_out (set_pc j Sem_out s))
      | _ \<Rightarrow> None)"

text \<open>What a step does to the permits and the list, seen from outside.\<close>

datatype sem_label = Take | Enter nat | Put | Release nat | Silent

definition sem_event :: "nat \<Rightarrow> Semaphore \<Rightarrow> sem_label" where
  "sem_event i s =
     (case sem_pcs s i of
        Sem_wait \<Rightarrow> if sem_res s > 0 then Take else Silent
      | Wait_locked \<Rightarrow> Enter i
      | Sem_post \<Rightarrow> if sem_res s > 0 then Put else Silent
      | Post_locked \<Rightarrow> (case sem_waitRoutines s of [] \<Rightarrow> Put | j # _ \<Rightarrow> Release j)
      | _ \<Rightarrow> Silent)"

inductive sem_step :: "Semaphore \<Rightarrow> sem_label \<Rightarrow> Semaphore \<Rightarrow> bool" where
  call_wait: "sem_pcs s i = Sem_out \<Longrightarrow> sem_step s Silent (set_pc i Sem_wait s)"
| call_post: "sem_pcs s i = Sem_out \<Longrightarrow> sem_step s Silent (set_pc i Sem_post s)"
| waiting: "sem_wait_step i s = Some s' \<Longrightarrow> sem_step s (sem_event i s) s'"
| posting: "sem_post_step i s = Some s' \<Longrightarrow> sem_step s (sem_event i s) s'"

inductive sem_run :: "Semaphore \<Rightarrow> sem_label list \<Rightarrow> Semaphore \<Rightarrow> bool" where
  run_start: "sem_run s [] s"
| run_step: "sem_run s ls s' \<Longrightarrow> sem_step s' l s'' \<Longrightarrow> sem_run s (ls @ [l]) s''"

section \<open>The specification\<close>

text \<open>Permits, and the coroutines that wait for one in the order of their arrival.\<close>

inductive sem_spec :: "nat \<times> nat list \<Rightarrow> sem_label \<Rightarrow> nat \<times> nat list \<Rightarrow> bool" where
  "sem_spec (Suc n, []) Take (n, [])"
| "i \<notin> set q \<Longrightarrow> sem_spec (0, q) (Enter i) (0, q @ [i])"
| "sem_spec (n, []) Put (Suc n, [])"
| "sem_spec (0, j # q) (Release j) (0, q)"
| "sem_spec x Silent x"

inductive sem_spec_run :: "nat \<times> nat list \<Rightarrow> sem_label list \<Rightarrow> nat \<times> nat list \<Rightarrow> bool" where
  "sem_spec_run x [] x"
| "sem_spec_run x ls y \<Longrightarrow> sem_spec y l z \<Longrightarrow> sem_spec_run x (ls @ [l]) z"

text \<open>
  The permits after a sequence of events, and whether they have always had room in an \<open>int\<close>.
\<close>

definition permits :: "int \<Rightarrow> sem_label list \<Rightarrow> int" where
  "permits num ls = num + int (count_list ls Put) - int (count_list ls Take)"

definition permits_fit :: "int \<Rightarrow> sem_label list \<Rightarrow> bool" where
  "permits_fit num ls \<longleftrightarrow> (\<forall>n\<le>length ls. permits num (take n ls) \<le> 2147483647)"

definition sem_abs :: "Semaphore \<Rightarrow> nat \<times> nat list" where
  "sem_abs s = (nat (sem_res s), sem_waitRoutines s)"

section \<open>Invariant\<close>

fun holds_lock :: "sem_pc \<Rightarrow> bool" where
  "holds_lock Wait_locked = True"
| "holds_lock Wait_pushed = True"
| "holds_lock Post_locked = True"
| "holds_lock (Post_popped j) = True"
| "holds_lock _ = False"

fun resumes :: "nat \<Rightarrow> sem_pc \<Rightarrow> bool" where
  "resumes j (Post_popped j') = (j = j')"
| "resumes j (Post_resume j') = (j = j')"
| "resumes j _ = False"

text \<open>
  One coroutine at a time works on the list, and only while there is no permit; whoever is on the list
  is suspended or about to be, and whoever is suspended is on the list or is being resumed by one \<open>post\<close>.
\<close>

definition lock_inv :: "int \<Rightarrow> (nat \<Rightarrow> sem_pc) \<Rightarrow> bool" where
  "lock_inv r pcs \<longleftrightarrow> (if r = -1 then \<exists>i. holds_lock (pcs i) \<and> (\<forall>i'. holds_lock (pcs i') \<longrightarrow> i' = i) else \<forall>i. \<not> holds_lock (pcs i))"

definition list_inv :: "nat list \<Rightarrow> (nat \<Rightarrow> sem_pc) \<Rightarrow> bool" where
  "list_inv q pcs \<longleftrightarrow> distinct q \<and> (\<forall>j\<in>set q. pcs j = Suspended \<or> pcs j = Wait_pushed) \<and> (\<forall>i. pcs i = Wait_pushed \<longrightarrow> i \<in> set q)"

definition resume_inv :: "nat list \<Rightarrow> (nat \<Rightarrow> sem_pc) \<Rightarrow> bool" where
  "resume_inv q pcs \<longleftrightarrow>
     (\<forall>i j. resumes j (pcs i) \<longrightarrow> pcs j = Suspended \<and> j \<notin> set q)
     \<and> (\<forall>i i' j. resumes j (pcs i) \<longrightarrow> resumes j (pcs i') \<longrightarrow> i = i')
     \<and> (\<forall>j. pcs j = Suspended \<longrightarrow> j \<notin> set q \<longrightarrow> (\<exists>i. resumes j (pcs i)))"

definition sem_inv :: "Semaphore \<Rightarrow> bool" where
  "sem_inv s \<longleftrightarrow>
     sem_res s \<ge> -1 \<and> (sem_res s > 0 \<longrightarrow> sem_waitRoutines s = []) \<and> lock_inv (sem_res s) (sem_pcs s)
     \<and> list_inv (sem_waitRoutines s) (sem_pcs s) \<and> resume_inv (sem_waitRoutines s) (sem_pcs s)"

lemma set_pc_simps [simp]:
  "sem_res (set_pc i pc s) = sem_res s" "sem_waitRoutines (set_pc i pc s) = sem_waitRoutines s"
  "sem_pcs (set_pc i pc s) = (sem_pcs s)(i := pc)"
  by (simp_all add: set_pc_def)

lemma wrap_int_id: "0 \<le> x \<Longrightarrow> x \<le> 2147483647 \<Longrightarrow> wrap_int x = x"
  by (simp add: wrap_int_def signed_take_bit_int_eq_self)

lemma permits_fit_append: "permits_fit num (ls @ [l]) \<longleftrightarrow> permits_fit num ls \<and> permits num (ls @ [l]) \<le> 2147483647"
  by (auto simp: permits_fit_def le_Suc_eq)

lemma permits_fit_start: "permits_fit num ls \<Longrightarrow> num \<le> 2147483647"
  by (auto simp: permits_fit_def permits_def dest: spec [of _ 0])

lemma new_Semaphore_inv: "0 \<le> num \<Longrightarrow> num \<le> 2147483647 \<Longrightarrow> sem_inv (new_Semaphore num)"
  by (simp add: wrap_int_id sem_inv_def new_Semaphore_def lock_inv_def list_inv_def resume_inv_def)

text \<open>How the parts change when one coroutine moves on.\<close>

lemma lock_inv_same:
  "lock_inv r pcs \<Longrightarrow> holds_lock pc = holds_lock (pcs i) \<Longrightarrow> (r = -1 \<longleftrightarrow> r' = -1) \<Longrightarrow> lock_inv r' (pcs(i := pc))"
  unfolding lock_inv_def by (auto split: if_splits)

lemma lock_inv_acquire: "lock_inv r pcs \<Longrightarrow> r \<noteq> -1 \<Longrightarrow> holds_lock pc \<Longrightarrow> lock_inv (-1) (pcs(i := pc))"
  unfolding lock_inv_def by auto

lemma lock_inv_release: "lock_inv r pcs \<Longrightarrow> holds_lock (pcs i) \<Longrightarrow> \<not> holds_lock pc \<Longrightarrow> r' \<noteq> -1 \<Longrightarrow> lock_inv r' (pcs(i := pc))"
  unfolding lock_inv_def by (auto split: if_splits)

lemma lock_invD: "lock_inv r pcs \<Longrightarrow> holds_lock (pcs i) \<Longrightarrow> r = -1"
  unfolding lock_inv_def by (auto split: if_splits)

lemma list_inv_same:
  "list_inv q pcs \<Longrightarrow> pcs i \<noteq> Suspended \<Longrightarrow> pcs i \<noteq> Wait_pushed \<Longrightarrow> pc \<noteq> Wait_pushed \<Longrightarrow> list_inv q (pcs(i := pc))"
  unfolding list_inv_def by auto

lemma list_inv_pushed:
  "list_inv q pcs \<Longrightarrow> pcs i = Wait_pushed \<Longrightarrow> list_inv q (pcs(i := Suspended))"
  unfolding list_inv_def by auto

lemma list_inv_push:
  "list_inv q pcs \<Longrightarrow> pcs i = Wait_locked \<Longrightarrow> list_inv (q @ [i]) (pcs(i := Wait_pushed))"
  unfolding list_inv_def by auto

lemma resume_inv_cong:
  assumes inv: "resume_inv q pcs"
    and r: "\<And>j k. resumes j (pcs' k) = resumes j (pcs k)" and s: "\<And>j. (pcs' j = Suspended \<and> j \<notin> set q') = (pcs j = Suspended \<and> j \<notin> set q)"
  shows "resume_inv q' pcs'"
proof -
  have "\<forall>i j. resumes j (pcs' i) \<longrightarrow> pcs' j = Suspended \<and> j \<notin> set q'"
    using inv unfolding resume_inv_def s r by (elim conjE)
  moreover have "\<forall>i i' j. resumes j (pcs' i) \<longrightarrow> resumes j (pcs' i') \<longrightarrow> i = i'"
    using inv unfolding resume_inv_def r by (elim conjE)
  moreover have "\<forall>j. pcs' j = Suspended \<longrightarrow> j \<notin> set q' \<longrightarrow> (\<exists>i. resumes j (pcs' i))"
    using inv s unfolding resume_inv_def r by metis
  ultimately show ?thesis unfolding resume_inv_def by (intro conjI)
qed

lemma resume_inv_same:
  assumes "resume_inv q pcs" "pcs i \<noteq> Suspended" "pc \<noteq> Suspended" "\<And>j. resumes j pc = resumes j (pcs i)"
  shows "resume_inv q (pcs(i := pc))"
  using assms(1) by (rule resume_inv_cong) (use assms(2-4) in auto)

lemma resume_inv_push:
  assumes "resume_inv q pcs" "pcs i = Wait_locked"
  shows "resume_inv (q @ [i]) (pcs(i := Wait_pushed))"
  using assms(1) by (rule resume_inv_cong) (use assms(2) in auto)

lemma resume_inv_pushed:
  assumes "resume_inv q pcs" "pcs i = Wait_pushed" "i \<in> set q"
  shows "resume_inv q (pcs(i := Suspended))"
  using assms(1) by (rule resume_inv_cong) (use assms(2,3) in auto)

lemma resume_inv_pop:
  assumes inv: "resume_inv (j # js) pcs" and d: "j \<notin> set js" and j: "pcs j = Suspended" and i: "pcs i = Post_locked"
  shows "resume_inv js (pcs(i := Post_popped j))"
proof -
  let ?p = "pcs(i := Post_popped j)"
  have r: "resumes k (?p m) \<longleftrightarrow> (if m = i then k = j else resumes k (pcs m))" for k m
    by simp
  have nj: "\<not> resumes j (pcs m)" for m
    using inv unfolding resume_inv_def by auto
  have s: "?p k = Suspended \<longleftrightarrow> pcs k = Suspended" for k
    using i by simp
  have "\<forall>m k. resumes k (?p m) \<longrightarrow> ?p k = Suspended \<and> k \<notin> set js"
    unfolding r s using inv d j unfolding resume_inv_def by auto
  moreover have "\<forall>m m' k. resumes k (?p m) \<longrightarrow> resumes k (?p m') \<longrightarrow> m = m'"
    unfolding r using inv nj unfolding resume_inv_def by metis
  moreover have "\<forall>k. ?p k = Suspended \<longrightarrow> k \<notin> set js \<longrightarrow> (\<exists>m. resumes k (?p m))"
  proof (intro allI impI)
    fix k
    assume k: "?p k = Suspended" "k \<notin> set js"
    show "\<exists>m. resumes k (?p m)"
    proof (cases "k = j")
      case True
      then have "resumes k (?p i)" by simp
      then show ?thesis ..
    next
      case False
      then obtain m where m: "resumes k (pcs m)"
        using inv k s unfolding resume_inv_def by auto
      then have "m \<noteq> i" using i by auto
      then have "resumes k (?p m)" using m by simp
      then show ?thesis ..
    qed
  qed
  ultimately show ?thesis
    unfolding resume_inv_def by (intro conjI)
qed

lemma resume_inv_resume:
  assumes inv: "resume_inv q pcs" and i: "pcs i = Post_resume j"
  shows "resume_inv q (pcs(j := Sem_out, i := Sem_out))"
proof -
  let ?p = "pcs(j := Sem_out, i := Sem_out)"
  have i1: "resumes k (pcs m) \<Longrightarrow> pcs k = Suspended \<and> k \<notin> set q" for k m
    using inv unfolding resume_inv_def by simp
  have i2: "resumes k (pcs m) \<Longrightarrow> resumes k (pcs m') \<Longrightarrow> m = m'" for k m m'
    using inv unfolding resume_inv_def by (elim conjE allE impE)
  have i3: "pcs k = Suspended \<Longrightarrow> k \<notin> set q \<Longrightarrow> \<exists>m. resumes k (pcs m)" for k
    using inv unfolding resume_inv_def by simp
  have rj: "resumes j (pcs i)"
    using i by simp
  have j: "pcs j = Suspended"
    using i1 [OF rj] ..
  have one: "resumes j (pcs m) \<Longrightarrow> m = i" for m
    using rj by (rule i2 [rotated])
  have r: "resumes k (?p m) \<longleftrightarrow> m \<noteq> i \<and> m \<noteq> j \<and> resumes k (pcs m)" for k m
    by simp
  have s: "?p k = Suspended \<longleftrightarrow> k \<noteq> j \<and> pcs k = Suspended" for k
    using i by simp
  have "\<forall>m k. resumes k (?p m) \<longrightarrow> ?p k = Suspended \<and> k \<notin> set q"
    unfolding r s using i1 one by metis
  moreover have "\<forall>m m' k. resumes k (?p m) \<longrightarrow> resumes k (?p m') \<longrightarrow> m = m'"
    unfolding r using i2 by metis
  moreover have "\<forall>k. ?p k = Suspended \<longrightarrow> k \<notin> set q \<longrightarrow> (\<exists>m. resumes k (?p m))"
  proof (intro allI impI)
    fix k
    assume k: "?p k = Suspended" "k \<notin> set q"
    then obtain m where m: "resumes k (pcs m)"
      using i3 [of k] s [of k] by metis
    have "m \<noteq> i" using m i k(1) by (auto split: if_splits)
    moreover have "m \<noteq> j" using m j by auto
    ultimately have "resumes k (?p m)" using m by simp
    then show "\<exists>m. resumes k (?p m)" ..
  qed
  ultimately show ?thesis
    unfolding resume_inv_def by (intro conjI)
qed

lemma list_inv_pop:
  assumes "list_inv (j # js) pcs" "pcs i = Post_locked" "pcs j = Suspended"
  shows "list_inv js (pcs(i := Post_popped j))"
proof -
  have "\<forall>k. (pcs(i := Post_popped j)) k = Wait_pushed \<longrightarrow> k \<in> set js"
    using assms unfolding list_inv_def by auto
  then show ?thesis
    using assms unfolding list_inv_def by auto
qed

lemma list_inv_resume:
  assumes "list_inv q pcs" "pcs i = Post_resume j" "j \<notin> set q"
  shows "list_inv q (pcs(j := Sem_out, i := Sem_out))"
  using assms unfolding list_inv_def by auto

section \<open>Every step keeps the invariant and follows the specification\<close>

lemma sem_invD:
  assumes "sem_inv s"
  shows "sem_res s \<ge> -1" "sem_res s > 0 \<Longrightarrow> sem_waitRoutines s = []" "lock_inv (sem_res s) (sem_pcs s)"
    "list_inv (sem_waitRoutines s) (sem_pcs s)" "resume_inv (sem_waitRoutines s) (sem_pcs s)"
  using assms by (simp_all add: sem_inv_def)

lemma sem_invI:
  assumes "sem_res s \<ge> -1" "sem_res s > 0 \<Longrightarrow> sem_waitRoutines s = []" "lock_inv (sem_res s) (sem_pcs s)"
    "list_inv (sem_waitRoutines s) (sem_pcs s)" "resume_inv (sem_waitRoutines s) (sem_pcs s)"
  shows "sem_inv s"
  using assms by (simp add: sem_inv_def)

text \<open>A step of one coroutine that neither touches the list nor resumes anyone.\<close>

lemma sem_inv_move:
  assumes inv: "sem_inv s" and pc: "sem_pcs s i \<noteq> Suspended" "sem_pcs s i \<noteq> Wait_pushed" "pc \<noteq> Wait_pushed" "pc \<noteq> Suspended"
    and r: "\<And>j. resumes j pc = resumes j (sem_pcs s i)" and l: "lock_inv n ((sem_pcs s)(i := pc))"
    and n: "n \<ge> -1" "n > 0 \<Longrightarrow> sem_waitRoutines s = []"
  shows "sem_inv (set_pc i pc (s\<lparr>sem_res := n\<rparr>))"
proof (rule sem_invI)
  show "list_inv (sem_waitRoutines (set_pc i pc (s\<lparr>sem_res := n\<rparr>))) (sem_pcs (set_pc i pc (s\<lparr>sem_res := n\<rparr>)))"
    using list_inv_same [OF sem_invD(4) [OF inv] pc(1-3)] by simp
  show "resume_inv (sem_waitRoutines (set_pc i pc (s\<lparr>sem_res := n\<rparr>))) (sem_pcs (set_pc i pc (s\<lparr>sem_res := n\<rparr>)))"
    using resume_inv_same [OF sem_invD(5) [OF inv] pc(1,4) r] by simp
qed (use n l in simp_all)

lemma sem_call_inv:
  assumes inv: "sem_inv s" and i: "sem_pcs s i = Sem_out" and pc: "pc = Sem_wait \<or> pc = Sem_post"
  shows "sem_inv (set_pc i pc s)"
proof -
  have "lock_inv (sem_res s) ((sem_pcs s)(i := pc))"
    using sem_invD(3) [OF inv] by (rule lock_inv_same) (use i pc in auto)
  then have "sem_inv (set_pc i pc (s\<lparr>sem_res := sem_res s\<rparr>))"
    by (intro sem_inv_move) (use inv i pc in \<open>auto simp: sem_invD(1,2)\<close>)
  then show ?thesis by simp
qed

lemma sem_wait_step_inv:
  assumes inv: "sem_inv s" and st: "sem_wait_step i s = Some s'"
  shows "sem_inv s'"
proof (cases "sem_pcs s i")
  case Sem_wait
  show ?thesis
  proof (cases "sem_res s = 0")
    case True
    have "lock_inv (-1) ((sem_pcs s)(i := Wait_locked))"
      using sem_invD(3) [OF inv] by (rule lock_inv_acquire) (use True in auto)
    then have "sem_inv (set_pc i Wait_locked (s\<lparr>sem_res := -1\<rparr>))"
      by (intro sem_inv_move) (use inv Sem_wait in auto)
    then show ?thesis using st Sem_wait True by (simp add: sem_wait_step_def)
  next
    case False
    then have p: "sem_res s > 0" using st Sem_wait by (simp add: sem_wait_step_def split: if_splits)
    have "lock_inv (sem_res s - 1) ((sem_pcs s)(i := Sem_out))"
      using sem_invD(3) [OF inv] by (rule lock_inv_same) (use p Sem_wait in auto)
    then have "sem_inv (set_pc i Sem_out (s\<lparr>sem_res := sem_res s - 1\<rparr>))"
      by (intro sem_inv_move) (use inv Sem_wait p in \<open>auto simp: sem_invD(2)\<close>)
    then show ?thesis using st Sem_wait False p by (simp add: sem_wait_step_def)
  qed
next
  case Wait_locked
  have r: "sem_res s = -1" using lock_invD [OF sem_invD(3) [OF inv], of i] Wait_locked by simp
  have "s' = set_pc i Wait_pushed (s\<lparr>sem_waitRoutines := sem_waitRoutines s @ [i]\<rparr>)"
    using st Wait_locked by (simp add: sem_wait_step_def)
  moreover have "lock_inv (sem_res s) ((sem_pcs s)(i := Wait_pushed))"
    using sem_invD(3) [OF inv] by (rule lock_inv_same) (use Wait_locked in auto)
  ultimately show ?thesis
    using r list_inv_push [OF sem_invD(4) [OF inv] Wait_locked] resume_inv_push [OF sem_invD(5) [OF inv] Wait_locked]
    by (simp add: sem_inv_def)
next
  case Wait_pushed
  then have "i \<in> set (sem_waitRoutines s)"
    using sem_invD(4) [OF inv] by (simp add: list_inv_def)
  note r = resume_inv_pushed [OF sem_invD(5) [OF inv] Wait_pushed this]
  have "s' = set_pc i Suspended (s\<lparr>sem_res := 0\<rparr>)"
    using st Wait_pushed by (simp add: sem_wait_step_def)
  moreover have "lock_inv 0 ((sem_pcs s)(i := Suspended))"
    using sem_invD(3) [OF inv] by (rule lock_inv_release) (use Wait_pushed in auto)
  ultimately show ?thesis
    using r list_inv_pushed [OF sem_invD(4) [OF inv] Wait_pushed] by (simp add: sem_inv_def)
qed (use st in \<open>simp_all add: sem_wait_step_def\<close>)

lemma popped_suspended:
  assumes inv: "sem_inv s" and i: "sem_pcs s i = Post_locked" and q: "sem_waitRoutines s = j # js"
  shows "sem_pcs s j = Suspended"
proof -
  have "sem_res s = -1" using lock_invD [OF sem_invD(3) [OF inv], of i] i by simp
  then obtain h where h: "\<And>k. holds_lock (sem_pcs s k) \<Longrightarrow> k = h"
    using sem_invD(3) [OF inv] unfolding lock_inv_def by auto
  have "sem_pcs s j \<noteq> Wait_pushed" using h [of i] h [of j] i by auto
  then show ?thesis using sem_invD(4) [OF inv] q unfolding list_inv_def by auto
qed

lemma sem_post_step_inv:
  assumes inv: "sem_inv s" and st: "sem_post_step i s = Some s'" and b: "sem_event i s = Put \<Longrightarrow> sem_res s < 2147483647"
  shows "sem_inv s'"
proof (cases "sem_pcs s i")
  case Sem_post
  show ?thesis
  proof (cases "sem_res s = 0")
    case True
    have "lock_inv (-1) ((sem_pcs s)(i := Post_locked))"
      using sem_invD(3) [OF inv] by (rule lock_inv_acquire) (use True in auto)
    then have "sem_inv (set_pc i Post_locked (s\<lparr>sem_res := -1\<rparr>))"
      by (intro sem_inv_move) (use inv Sem_post in auto)
    then show ?thesis using st Sem_post True by (simp add: sem_post_step_def)
  next
    case False
    then have p: "sem_res s > 0" using st Sem_post by (simp add: sem_post_step_def split: if_splits)
    then have w: "wrap_int (sem_res s + 1) = sem_res s + 1" using b Sem_post by (intro wrap_int_id) (simp_all add: sem_event_def)
    have "lock_inv (sem_res s + 1) ((sem_pcs s)(i := Sem_out))"
      using sem_invD(3) [OF inv] by (rule lock_inv_same) (use p Sem_post in auto)
    then have "sem_inv (set_pc i Sem_out (s\<lparr>sem_res := sem_res s + 1\<rparr>))"
      by (intro sem_inv_move) (use inv Sem_post p in \<open>auto simp: sem_invD(2)\<close>)
    then show ?thesis using st Sem_post False p w by (simp add: sem_post_step_def)
  qed
next
  case Post_locked
  have r: "sem_res s = -1" using lock_invD [OF sem_invD(3) [OF inv], of i] Post_locked by simp
  show ?thesis
  proof (cases "sem_waitRoutines s")
    case Nil
    have "lock_inv 1 ((sem_pcs s)(i := Sem_out))"
      using sem_invD(3) [OF inv] by (rule lock_inv_release) (use Post_locked in auto)
    then have "sem_inv (set_pc i Sem_out (s\<lparr>sem_res := 1\<rparr>))"
      by (intro sem_inv_move) (use inv Post_locked Nil in auto)
    then show ?thesis using st Post_locked Nil by (simp add: sem_post_step_def)
  next
    case (Cons j js)
    note j = popped_suspended [OF inv Post_locked Cons]
    have s': "s' = set_pc i (Post_popped j) (s\<lparr>sem_waitRoutines := js\<rparr>)"
      using st Post_locked Cons by (simp add: sem_post_step_def)
    have "lock_inv (sem_res s) ((sem_pcs s)(i := Post_popped j))"
      using sem_invD(3) [OF inv] by (rule lock_inv_same) (use Post_locked in auto)
    moreover have l: "list_inv (j # js) (sem_pcs s)" using sem_invD(4) [OF inv] Cons by simp
    moreover have "j \<notin> set js" using l by (simp add: list_inv_def)
    moreover have "resume_inv (j # js) (sem_pcs s)" using sem_invD(5) [OF inv] Cons by simp
    ultimately show ?thesis
      using r s' list_inv_pop [OF l Post_locked j] resume_inv_pop [OF _ _ j Post_locked, of js] by (simp add: sem_inv_def)
  qed
next
  case (Post_popped j)
  have "lock_inv 0 ((sem_pcs s)(i := Post_resume j))"
    using sem_invD(3) [OF inv] by (rule lock_inv_release) (use Post_popped in auto)
  then have "sem_inv (set_pc i (Post_resume j) (s\<lparr>sem_res := 0\<rparr>))"
    by (intro sem_inv_move) (use inv Post_popped in auto)
  then show ?thesis using st Post_popped by (simp add: sem_post_step_def)
next
  case (Post_resume j)
  have j: "sem_pcs s j = Suspended \<and> j \<notin> set (sem_waitRoutines s)"
    using sem_invD(5) [OF inv] Post_resume unfolding resume_inv_def by (metis resumes.simps(2))
  have s': "s' = set_pc i Sem_out (set_pc j Sem_out s)"
    using st Post_resume by (simp add: sem_post_step_def)
  have "lock_inv (sem_res s) ((sem_pcs s)(j := Sem_out))"
    using sem_invD(3) [OF inv] by (rule lock_inv_same) (use j in auto)
  then have "lock_inv (sem_res s) ((sem_pcs s)(j := Sem_out, i := Sem_out))"
    by (rule lock_inv_same) (use Post_resume in auto)
  then show ?thesis
    using inv s' j list_inv_resume [OF sem_invD(4) [OF inv] Post_resume] resume_inv_resume [OF sem_invD(5) [OF inv] Post_resume]
    by (simp add: sem_inv_def)
qed (use st in \<open>simp_all add: sem_post_step_def\<close>)

lemma sem_step_inv: "sem_step s l s' \<Longrightarrow> sem_inv s \<Longrightarrow> (l = Put \<Longrightarrow> sem_res s < 2147483647) \<Longrightarrow> sem_inv s'"
  by (cases rule: sem_step.cases) (auto intro: sem_call_inv sem_wait_step_inv sem_post_step_inv)

text \<open>The simulation, a step at a time.\<close>

lemmas sem_spec_defs = sem_abs_def sem_event_def sem_spec.simps

lemma wait_step_refines:
  assumes inv: "sem_inv s" and st: "sem_wait_step i s = Some s'"
  shows "sem_spec (sem_abs s) (sem_event i s) (sem_abs s')"
proof (cases "sem_pcs s i")
  case Sem_wait
  then show ?thesis
    using st sem_invD(2) [OF inv] by (auto simp: sem_wait_step_def sem_spec_defs nat_diff_distrib split: if_splits)
next
  case Wait_locked
  have "sem_res s = -1" using lock_invD [OF sem_invD(3) [OF inv], of i] Wait_locked by simp
  moreover have "i \<notin> set (sem_waitRoutines s)"
    using sem_invD(4) [OF inv] Wait_locked unfolding list_inv_def by auto
  ultimately show ?thesis
    using st Wait_locked by (auto simp: sem_wait_step_def sem_spec_defs)
next
  case Wait_pushed
  have "sem_res s = -1" using lock_invD [OF sem_invD(3) [OF inv], of i] Wait_pushed by simp
  then show ?thesis
    using st Wait_pushed by (auto simp: sem_wait_step_def sem_spec_defs)
qed (use st in \<open>simp_all add: sem_wait_step_def\<close>)

lemma post_step_refines:
  assumes inv: "sem_inv s" and st: "sem_post_step i s = Some s'" and b: "sem_event i s = Put \<Longrightarrow> sem_res s < 2147483647"
  shows "sem_spec (sem_abs s) (sem_event i s) (sem_abs s')"
proof (cases "sem_pcs s i")
  case Sem_post
  then show ?thesis
    using st sem_invD(2) [OF inv] b wrap_int_id [of "sem_res s + 1"]
    by (auto simp: sem_post_step_def sem_spec_defs nat_add_distrib split: if_splits)
next
  case Post_locked
  have "sem_res s = -1" using lock_invD [OF sem_invD(3) [OF inv], of i] Post_locked by simp
  then show ?thesis
    using st Post_locked by (auto simp: sem_post_step_def sem_spec_defs split: list.splits)
next
  case (Post_popped j)
  have "sem_res s = -1" using lock_invD [OF sem_invD(3) [OF inv], of i] Post_popped by simp
  then show ?thesis
    using st Post_popped by (auto simp: sem_post_step_def sem_spec_defs)
qed (use st in \<open>auto simp: sem_post_step_def sem_spec_defs\<close>)

lemma sem_abs_set_pc [simp]: "sem_abs (set_pc i pc s) = sem_abs s"
  by (simp add: sem_abs_def)

lemma sem_step_refines:
  "sem_step s l s' \<Longrightarrow> sem_inv s \<Longrightarrow> (l = Put \<Longrightarrow> sem_res s < 2147483647) \<Longrightarrow> sem_spec (sem_abs s) l (sem_abs s')"
  by (cases rule: sem_step.cases)
    (auto intro: wait_step_refines post_step_refines sem_spec.intros(5))

text \<open>In the specification permits are neither made nor lost.\<close>

lemma sem_spec_permits: "sem_spec_run x ls y \<Longrightarrow> fst y + count_list ls Take = fst x + count_list ls Put"
  by (induction rule: sem_spec_run.induct) (auto elim!: sem_spec.cases)

lemma sem_run_ok:
  "sem_run s0 ls s \<Longrightarrow> s0 = new_Semaphore num \<Longrightarrow> 0 \<le> num \<Longrightarrow> permits_fit num ls \<Longrightarrow>
   sem_inv s \<and> sem_spec_run (nat num, []) ls (sem_abs s)"
proof (induction rule: sem_run.induct)
  case (run_start s)
  then have "num \<le> 2147483647" by (simp add: permits_fit_start)
  with run_start new_Semaphore_inv [of num] show ?case
    by (auto simp: new_Semaphore_def sem_abs_def wrap_int_id intro: sem_spec_run.intros)
next
  case (run_step s ls s' l s'')
  have fit: "permits_fit num ls" "permits num (ls @ [l]) \<le> 2147483647"
    using run_step.prems(3) by (simp_all add: permits_fit_append)
  then have IH: "sem_inv s'" "sem_spec_run (nat num, []) ls (sem_abs s')" using run_step.IH run_step.prems(1,2) by blast+
  have room: "sem_res s' < 2147483647" if "l = Put"
    using sem_spec_permits [OF IH(2)] fit(2) that run_step.prems(2) by (simp add: permits_def sem_abs_def)
  show ?case
    using sem_step_inv [OF run_step.hyps(2) IH(1) room] sem_step_refines [OF run_step.hyps(2) IH(1) room] IH(2)
    by (auto intro: sem_spec_run.intros)
qed

text \<open>A call under way can go on, or the one that works on the list can.\<close>

lemma holds_lock_can_step:
  "holds_lock (sem_pcs s i) \<Longrightarrow> \<exists>s'. sem_wait_step i s = Some s' \<or> sem_post_step i s = Some s'"
  by (cases "sem_pcs s i") (auto simp: sem_wait_step_def sem_post_step_def split: list.splits)

lemma sem_can_step:
  assumes inv: "sem_inv s" and i: "sem_pcs s i \<noteq> Sem_out" "sem_pcs s i \<noteq> Suspended"
  shows "\<exists>i s'. sem_wait_step i s = Some s' \<or> sem_post_step i s = Some s'"
proof (cases "sem_res s = -1")
  case True
  then obtain h where "holds_lock (sem_pcs s h)"
    using sem_invD(3) [OF inv] unfolding lock_inv_def by auto
  then show ?thesis using holds_lock_can_step by blast
next
  case False
  then have "sem_res s = 0 \<or> sem_res s > 0" using sem_invD(1) [OF inv] by linarith
  then have "\<exists>s'. sem_wait_step i s = Some s' \<or> sem_post_step i s = Some s'"
    using i by (cases "sem_pcs s i") (auto simp: sem_wait_step_def sem_post_step_def split: list.splits)
  then show ?thesis by blast
qed

text \<open>
  The bound is needed: at the largest \<open>int\<close> a further \<open>post\<close> makes the count negative, and then no call of
  \<open>wait\<close> or \<open>post\<close> gets past its first test.
\<close>

lemma post_overflow:
  assumes "sem_res s = 2147483647" "sem_pcs s i = Sem_post"
  shows "\<exists>s'. sem_post_step i s = Some s' \<and> sem_res s' = - 2147483648 \<and>
    (\<forall>j. sem_pcs s' j = Sem_wait \<or> sem_pcs s' j = Sem_post \<longrightarrow> sem_wait_step j s' = None \<and> sem_post_step j s' = None)"
proof -
  let ?s = "set_pc i Sem_out (s\<lparr>sem_res := - 2147483648\<rparr>)"
  have "wrap_int 2147483648 = - 2147483648"
    by (simp add: wrap_int_def signed_take_bit_eq_take_bit_minus bit_iff_odd take_bit_eq_mod)
  then have "sem_post_step i s = Some ?s"
    using assms by (simp add: sem_post_step_def)
  moreover have "\<forall>j. sem_pcs ?s j = Sem_wait \<or> sem_pcs ?s j = Sem_post \<longrightarrow> sem_wait_step j ?s = None \<and> sem_post_step j ?s = None"
    by (auto simp: sem_wait_step_def sem_post_step_def)
  ultimately show ?thesis by simp
qed

text \<open>
  C28: a semaphore refines its specification, as long as there are never more permits than an \<open>int\<close> of 32
  bits can count.  Whatever coroutines of whatever threads call \<open>wait\<close> and \<open>post\<close>, the permits and the
  list of waiting coroutines change as in the specification: a permit is taken only when there is one, a
  coroutine joins the list only when there is none, and \<open>post\<close> gives its permit to the coroutine that has
  waited longest, or to the count when nobody waits.  The number of permits is the initial number, plus
  those put back, minus those taken.
\<close>
theorem Semaphore_refines_spec:
  assumes "0 \<le> num" and "sem_run (new_Semaphore num) ls s" and "permits_fit num ls"
  shows "sem_spec_run (nat num, []) ls (sem_abs s) \<and> fst (sem_abs s) + count_list ls Take = nat num + count_list ls Put"
proof -
  have "sem_spec_run (nat num, []) ls (sem_abs s)"
    using sem_run_ok [OF assms(2) refl assms(1,3)] ..
  with sem_spec_permits [OF this] show ?thesis by simp
qed

text \<open>A run in which coroutine 1 waits, suspends and is about to be resumed by coroutine 2.\<close>

definition two_routines :: "int \<Rightarrow> nat list \<Rightarrow> sem_pc \<Rightarrow> sem_pc \<Rightarrow> Semaphore" where
  "two_routines r q a b = \<lparr>sem_res = r, sem_waitRoutines = q, sem_pcs = (\<lambda>_. Sem_out)(1 := a, 2 := b)\<rparr>"

lemma two_routines_simps [simp]:
  "sem_res (two_routines r q a b) = r" "sem_waitRoutines (two_routines r q a b) = q"
  "sem_pcs (two_routines r q a b) (Suc 0) = a" "sem_pcs (two_routines r q a b) 2 = b"
  "(two_routines r q a b)\<lparr>sem_res := r'\<rparr> = two_routines r' q a b"
  "(two_routines r q a b)\<lparr>sem_waitRoutines := q'\<rparr> = two_routines r q' a b"
  "set_pc (Suc 0) c (two_routines r q a b) = two_routines r q c b"
  "set_pc 2 c (two_routines r q a b) = two_routines r q a c"
  by (simp_all add: two_routines_def set_pc_def fun_upd_twist)

lemma sem_run_example:
  "sem_run (new_Semaphore 0) [Silent, Silent, Enter 1, Silent, Silent, Silent, Release 1, Silent]
     (two_routines 0 [] Suspended (Post_resume 1))"
proof -
  note d = sem_wait_step_def sem_post_step_def sem_event_def
  have "new_Semaphore 0 = two_routines 0 [] Sem_out Sem_out"
    by (simp add: new_Semaphore_def two_routines_def fun_eq_iff wrap_int_def)
  then have "sem_run (new_Semaphore 0) [] (two_routines 0 [] Sem_out Sem_out)"
    by (simp add: run_start)
  from run_step [OF this call_wait [of _ 1]] have "sem_run (new_Semaphore 0) [Silent] (two_routines 0 [] Sem_wait Sem_out)"
    by simp
  from run_step [OF this waiting [of 1]] have "sem_run (new_Semaphore 0) [Silent, Silent] (two_routines (-1) [] Wait_locked Sem_out)"
    by (simp add: d)
  from run_step [OF this waiting [of 1]] have "sem_run (new_Semaphore 0) [Silent, Silent, Enter 1] (two_routines (-1) [1] Wait_pushed Sem_out)"
    by (simp add: d)
  from run_step [OF this waiting [of 1]] have "sem_run (new_Semaphore 0) [Silent, Silent, Enter 1, Silent] (two_routines 0 [1] Suspended Sem_out)"
    by (simp add: d)
  from run_step [OF this call_post [of _ 2]] have "sem_run (new_Semaphore 0) [Silent, Silent, Enter 1, Silent, Silent] (two_routines 0 [1] Suspended Sem_post)"
    by simp
  from run_step [OF this posting [of 2]] have "sem_run (new_Semaphore 0) [Silent, Silent, Enter 1, Silent, Silent, Silent] (two_routines (-1) [1] Suspended Post_locked)"
    by (simp add: d)
  from run_step [OF this posting [of 2]] have "sem_run (new_Semaphore 0) [Silent, Silent, Enter 1, Silent, Silent, Silent, Release 1] (two_routines (-1) [] Suspended (Post_popped 1))"
    by (simp add: d)
  from run_step [OF this posting [of 2]] show ?thesis
    by (simp add: d)
qed

lemma permits_fit_example: "permits_fit 0 [Silent, Silent, Enter 1, Silent, Silent, Silent, Release 1, Silent]"
  by (auto simp: permits_fit_def permits_def le_Suc_eq numeral_eq_Suc)

theorem Semaphore_refines_spec_witness:
  "sem_spec_run (0, []) [Silent, Silent, Enter 1, Silent, Silent, Silent, Release 1, Silent] (0, [])"
  using Semaphore_refines_spec [OF _ sem_run_example permits_fit_example] by (simp add: sem_abs_def)

text \<open>
  C29: no wake-up is lost, as long as there are never more permits than an \<open>int\<close> of 32 bits can count.  While a coroutine waits there is no permit; a suspended coroutine is on the
  list, or exactly one \<open>post\<close> has taken it off and is about to resume it; and as long as some call of
  \<open>wait\<close> or \<open>post\<close> is under way that is not suspended, one of these calls can make a step.
\<close>
theorem Semaphore_no_lost_wakeup:
  assumes "0 \<le> num" and "sem_run (new_Semaphore num) ls s" and "permits_fit num ls"
  shows "(sem_waitRoutines s \<noteq> [] \<longrightarrow> sem_res s \<le> 0) \<and>
    (\<forall>j. sem_pcs s j = Suspended \<longrightarrow> j \<in> set (sem_waitRoutines s) \<or> (\<exists>!i. resumes j (sem_pcs s i))) \<and>
    ((\<exists>i. sem_pcs s i \<noteq> Sem_out \<and> sem_pcs s i \<noteq> Suspended) \<longrightarrow>
       (\<exists>i s'. sem_wait_step i s = Some s' \<or> sem_post_step i s = Some s'))"
proof (intro conjI)
  have inv: "sem_inv s"
    using sem_run_ok [OF assms(2) refl assms(1,3)] ..
  show "sem_waitRoutines s \<noteq> [] \<longrightarrow> sem_res s \<le> 0"
    using sem_invD(2) [OF inv] by force
  show "\<forall>j. sem_pcs s j = Suspended \<longrightarrow> j \<in> set (sem_waitRoutines s) \<or> (\<exists>!i. resumes j (sem_pcs s i))"
    using sem_invD(5) [OF inv] unfolding resume_inv_def by metis
  show "(\<exists>i. sem_pcs s i \<noteq> Sem_out \<and> sem_pcs s i \<noteq> Suspended) \<longrightarrow>
       (\<exists>i s'. sem_wait_step i s = Some s' \<or> sem_post_step i s = Some s')"
  proof (intro impI, elim exE conjE)
    fix i
    assume i: "sem_pcs s i \<noteq> Sem_out" "sem_pcs s i \<noteq> Suspended"
    show "\<exists>i s'. sem_wait_step i s = Some s' \<or> sem_post_step i s = Some s'"
      using i inv sem_can_step by metis
  qed
qed

theorem Semaphore_no_lost_wakeup_witness:
  "sem_pcs (two_routines 0 [] Suspended (Post_resume 1)) 1 = Suspended \<and>
   (\<exists>!i. resumes 1 (sem_pcs (two_routines 0 [] Suspended (Post_resume 1)) i))"
proof -
  let ?s = "two_routines 0 [] Suspended (Post_resume 1)"
  have "sem_pcs ?s 1 = Suspended" "sem_waitRoutines ?s = []" by simp_all
  then show ?thesis
    using Semaphore_no_lost_wakeup [OF _ sem_run_example permits_fit_example] by auto
qed

end
