(* ===== verification/Mutex.thy ===== *)
theory Mutex
  imports Prelude
begin

text \<open>
  \<open>Mutex\<close> of \<open>corpc_mutex.h/.cpp\<close>, a lock for coroutines of several threads after the model of Go's
  \<open>sync.Mutex\<close>.  \<open>state_\<close> holds three flags (locked, a coroutine has been woken, starving) and, from bit 3
  on, the number of waiting coroutines.

  The state has one program counter per coroutine with the local variables of \<open>lockSlow\<close>.  A step is
  one access to \<open>state_\<close> with the decisions that follow from it; \<open>compare_exchange_weak\<close> may fail without
  reason (\<open>ok\<close> is false).  What \<open>wait\<close> and \<open>post\<close> do under the spin lock \<open>waitlock_\<close> is one step.  The time
  that \<open>gettimeofday\<close> gives in a step, in microseconds, is the argument \<open>now\<close>; nothing is assumed of it.
  \<open>state_\<close> is an \<open>int\<close>: the 32 bits of the code are enough for \<open>2 ^ 28\<close> waiting coroutines.
  \<open>None\<close> is a call of \<open>abort\<close>.
\<close>

section \<open>The code\<close>

definition MUTEXLOCKED :: int where "MUTEXLOCKED = 1"
definition MUTEXWOKEN :: int where "MUTEXWOKEN = 2"
definition MUTEXSTARVING :: int where "MUTEXSTARVING = 4"
definition MUTEXWAITERSHIFT :: nat where "MUTEXWAITERSHIFT = 3"

record lock_locals =
  oldV :: int
  starving :: bool
  awoke :: bool
  waitStartTime :: int
  iter :: nat

datatype (discs_sels) mutex_pc =
    M_out
  | M_lock
  | M_load lock_locals
  | M_slow lock_locals
  | M_wait bool lock_locals
  | M_waiting lock_locals
  | M_woken lock_locals
  | M_handoff int
  | M_own
  | M_unlock_load
  | M_unlocking int
  | M_posting

record Mutex =
  state :: int
  dontWait :: bool
  waitRoutines :: "nat list"
  lastco :: "nat option"
  beginTm :: int
  pcs :: "mutex_pc list"

definition new_Mutex :: "nat \<Rightarrow> Mutex" where
  "new_Mutex n = \<lparr>state = 0, dontWait = False, waitRoutines = [], lastco = None, beginTm = 0, pcs = replicate n M_out\<rparr>"

definition goto :: "nat \<Rightarrow> mutex_pc \<Rightarrow> Mutex \<Rightarrow> Mutex" where
  "goto i pc m = m\<lparr>pcs := (pcs m)[i := pc]\<rparr>"

text \<open>\<open>lock\<close>: the fast path.\<close>

definition mutex_lock :: "bool \<Rightarrow> nat \<Rightarrow> Mutex \<Rightarrow> Mutex" where
  "mutex_lock ok i m =
     (if ok \<and> state m = 0 then goto i M_own (m\<lparr>state := MUTEXLOCKED\<rparr>)
      else goto i (M_load \<lparr>oldV = 0, starving = False, awoke = False, waitStartTime = 0, iter = 0\<rparr>) m)"

text \<open>\<open>oldV = state_.load()\<close> of \<open>lockSlow\<close>.\<close>

definition slow_load :: "nat \<Rightarrow> lock_locals \<Rightarrow> Mutex \<Rightarrow> Mutex" where
  "slow_load i l m = goto i (M_slow (l\<lparr>oldV := state m\<rparr>)) m"

text \<open>\<open>newV\<close> before the woken flag is cleared.\<close>

definition slow_newV :: "int \<Rightarrow> bool \<Rightarrow> int" where
  "slow_newV old starv =
     (let newV = old;
          newV = (if old AND MUTEXSTARVING = 0 then newV OR MUTEXLOCKED else newV);
          newV = (if old AND (MUTEXLOCKED OR MUTEXSTARVING) \<noteq> 0 then newV + push_bit MUTEXWAITERSHIFT 1 else newV)
      in if starv \<and> old AND MUTEXLOCKED \<noteq> 0 then newV OR MUTEXSTARVING else newV)"

text \<open>Which coroutine has taken the lock in spite of a woken one, and since when.\<close>

definition note_owner :: "int \<Rightarrow> nat \<Rightarrow> int \<Rightarrow> Mutex \<Rightarrow> Mutex" where
  "note_owner now i old m =
     (if lastco m = None then (if old AND MUTEXWOKEN \<noteq> 0 then m\<lparr>lastco := Some i, beginTm := now\<rparr> else m)
      else if lastco m \<noteq> Some i then m\<lparr>lastco := None, beginTm := 0\<rparr>
      else m)"

text \<open>
  A turn of the loop of \<open>lockSlow\<close>, up to and including its \<open>compare_exchange_weak\<close>.  A coroutine that has
  taken the lock repeatedly while a woken one waits for it pauses and repeats the turn.
\<close>

definition slow_turn :: "bool \<Rightarrow> int \<Rightarrow> nat \<Rightarrow> lock_locals \<Rightarrow> Mutex \<Rightarrow> Mutex option" where
  "slow_turn ok now i l m =
     (if oldV l AND (MUTEXLOCKED OR MUTEXSTARVING) = MUTEXLOCKED \<and> iter l < 4 then
        (if \<not> awoke l \<and> oldV l AND MUTEXWOKEN = 0 \<and> drop_bit MUTEXWAITERSHIFT (oldV l) \<noteq> 0 \<and> ok \<and> state m = oldV l then
           Some (goto i (M_load (l\<lparr>awoke := True, iter := iter l + 1\<rparr>)) (m\<lparr>state := oldV l OR MUTEXWOKEN\<rparr>))
         else Some (goto i (M_load (l\<lparr>iter := iter l + 1\<rparr>)) m))
      else if \<not> awoke l \<and> oldV l AND MUTEXWOKEN \<noteq> 0 \<and> lastco m = Some i \<and> now - beginTm m > 1000 then Some m
      else
        let newV = slow_newV (oldV l) (starving l) in
        if awoke l \<and> newV AND MUTEXWOKEN = 0 then None
        else
          let newV = (if awoke l then newV AND NOT MUTEXWOKEN else newV) in
          if ok \<and> state m = oldV l then
            (if oldV l AND (MUTEXLOCKED OR MUTEXSTARVING) = 0 then Some (note_owner now i (oldV l) (goto i M_own (m\<lparr>state := newV\<rparr>)))
             else Some (goto i (M_wait (waitStartTime l \<noteq> 0) (if waitStartTime l = 0 then l\<lparr>waitStartTime := now\<rparr> else l))
                     (m\<lparr>state := newV\<rparr>)))
          else Some (goto i (M_load l) m))"

text \<open>\<open>wait\<close>, under \<open>waitlock_\<close>.\<close>

definition mutex_wait :: "nat \<Rightarrow> bool \<Rightarrow> lock_locals \<Rightarrow> Mutex \<Rightarrow> Mutex" where
  "mutex_wait i queueLifo l m =
     (if dontWait m then goto i (M_woken l) (m\<lparr>dontWait := False\<rparr>)
      else goto i (M_waiting l)
        (m\<lparr>waitRoutines := (if queueLifo then i # waitRoutines m else waitRoutines m @ [i])\<rparr>))"

text \<open>The rest of the loop, after \<open>wait\<close>.\<close>

definition after_wait :: "int \<Rightarrow> nat \<Rightarrow> lock_locals \<Rightarrow> Mutex \<Rightarrow> Mutex option" where
  "after_wait now i l m =
     (let l = (if \<not> starving l then l\<lparr>starving := now - waitStartTime l > 1000\<rparr> else l);
          old = state m
      in if old AND MUTEXSTARVING \<noteq> 0 then
           (if old AND (MUTEXLOCKED OR MUTEXWOKEN) \<noteq> 0 \<or> drop_bit MUTEXWAITERSHIFT old = 0 then None
            else
              let delta = MUTEXLOCKED - push_bit MUTEXWAITERSHIFT 1;
                  delta = (if \<not> starving l \<or> drop_bit MUTEXWAITERSHIFT old = 1 then delta - MUTEXSTARVING else delta)
              in Some (goto i (M_handoff delta) m))
         else Some (goto i (M_slow (l\<lparr>oldV := old, awoke := True, iter := 0\<rparr>)) m))"

definition hand_off :: "nat \<Rightarrow> int \<Rightarrow> Mutex \<Rightarrow> Mutex" where
  "hand_off i delta m =
     (let m = goto i M_own (m\<lparr>state := state m + delta\<rparr>)
      in if lastco m \<noteq> None then m\<lparr>lastco := None, beginTm := 0\<rparr> else m)"

text \<open>\<open>unlock\<close>, and the start of \<open>unlockSlow\<close>.\<close>

definition mutex_unlock :: "nat \<Rightarrow> Mutex \<Rightarrow> Mutex option" where
  "mutex_unlock i m =
     (let newV = state m - MUTEXLOCKED; m = m\<lparr>state := newV\<rparr>
      in if newV \<noteq> 0 then
           (if (newV + MUTEXLOCKED) AND MUTEXLOCKED = 0 then None
            else if newV AND MUTEXSTARVING = 0 then Some (goto i (M_unlocking newV) m)
            else Some (goto i M_posting m))
         else Some (goto i M_out m))"

text \<open>A turn of the loop of \<open>unlockSlow\<close>, and its \<open>load\<close>.\<close>

definition unlock_turn :: "bool \<Rightarrow> nat \<Rightarrow> int \<Rightarrow> Mutex \<Rightarrow> Mutex" where
  "unlock_turn ok i old m =
     (if drop_bit MUTEXWAITERSHIFT old = 0 \<or> old AND (MUTEXLOCKED OR MUTEXWOKEN OR MUTEXSTARVING) \<noteq> 0 then goto i M_out m
      else if ok \<and> state m = old then
        goto i M_posting (m\<lparr>state := (old - push_bit MUTEXWAITERSHIFT 1) OR MUTEXWOKEN\<rparr>)
      else goto i M_unlock_load m)"

definition unlock_load :: "nat \<Rightarrow> Mutex \<Rightarrow> Mutex" where
  "unlock_load i m = goto i (M_unlocking (state m)) m"

text \<open>\<open>post\<close>, under \<open>waitlock_\<close>; the coroutine that is resumed returns from \<open>wait\<close>.\<close>

fun resumed :: "mutex_pc \<Rightarrow> mutex_pc" where
  "resumed (M_waiting l) = M_woken l"
| "resumed pc = pc"

definition mutex_post :: "nat \<Rightarrow> Mutex \<Rightarrow> Mutex" where
  "mutex_post i m =
     (case waitRoutines m of
        [] \<Rightarrow> goto i M_out (m\<lparr>dontWait := True\<rparr>)
      | j # q \<Rightarrow> goto i M_out (goto j (resumed (pcs m ! j)) (m\<lparr>waitRoutines := q\<rparr>)))"

text \<open>The steps of coroutine \<open>i\<close>; it may call \<open>lock\<close> when it does not hold the lock and \<open>unlock\<close> when it does.\<close>

inductive mutex_step :: "nat \<Rightarrow> Mutex \<Rightarrow> Mutex option \<Rightarrow> bool" for i m where
  "pcs m ! i = M_out \<Longrightarrow> mutex_step i m (Some (goto i M_lock m))"
| "pcs m ! i = M_lock \<Longrightarrow> mutex_step i m (Some (mutex_lock ok i m))"
| "pcs m ! i = M_load l \<Longrightarrow> mutex_step i m (Some (slow_load i l m))"
| "pcs m ! i = M_slow l \<Longrightarrow> mutex_step i m (slow_turn ok now i l m)"
| "pcs m ! i = M_wait lifo l \<Longrightarrow> mutex_step i m (Some (mutex_wait i lifo l m))"
| "pcs m ! i = M_woken l \<Longrightarrow> mutex_step i m (after_wait now i l m)"
| "pcs m ! i = M_handoff d \<Longrightarrow> mutex_step i m (Some (hand_off i d m))"
| "pcs m ! i = M_own \<Longrightarrow> mutex_step i m (mutex_unlock i m)"
| "pcs m ! i = M_unlock_load \<Longrightarrow> mutex_step i m (Some (unlock_load i m))"
| "pcs m ! i = M_unlocking old \<Longrightarrow> mutex_step i m (Some (unlock_turn ok i old m))"
| "pcs m ! i = M_posting \<Longrightarrow> mutex_step i m (Some (mutex_post i m))"

definition mutex_next :: "Mutex \<Rightarrow> Mutex \<Rightarrow> bool" where
  "mutex_next m m' \<longleftrightarrow> (\<exists>i<length (pcs m). mutex_step i m (Some m'))"

section \<open>The bits of \<open>state_\<close>\<close>

definition enc :: "bool \<Rightarrow> bool \<Rightarrow> bool \<Rightarrow> int \<Rightarrow> int" where
  "enc L W S w = of_bool L + 2 * of_bool W + 4 * of_bool S + 8 * w"

lemmas mutex_consts = MUTEXLOCKED_def MUTEXWOKEN_def MUTEXSTARVING_def MUTEXWAITERSHIFT_def

lemma low_bits: "m AND 7 = m \<Longrightarrow> x AND m = (x mod 8) AND (m :: int)"
proof -
  assume "m AND 7 = m"
  then have "x AND m = (x AND 7) AND m" by (metis and.assoc and.commute)
  moreover have "x AND 7 = x mod 8" using take_bit_eq_mod [of 3 x] take_bit_eq_mask [of 3 x] by (simp add: mask_eq_exp_minus_1)
  ultimately show ?thesis by simp
qed

lemma enc_mod: "enc L W S w mod 8 = of_bool L + 2 * of_bool W + 4 * of_bool S"
  by (cases L; cases W; cases S) (simp_all add: enc_def)

lemma enc_and:
  "enc L W S w AND 1 = of_bool L" "enc L W S w AND 2 = 2 * of_bool W" "enc L W S w AND 4 = 4 * of_bool S"
  "enc L W S w AND 5 = of_bool L + 4 * of_bool S" "enc L W S w AND 3 = of_bool L + 2 * of_bool W"
  "enc L W S w AND 7 = of_bool L + 2 * of_bool W + 4 * of_bool S"
  using low_bits [of 1 "enc L W S w"] low_bits [of 2 "enc L W S w"] low_bits [of 4 "enc L W S w"]
    low_bits [of 5 "enc L W S w"] low_bits [of 3 "enc L W S w"] low_bits [of 7 "enc L W S w"]
  by (cases L; cases W; cases S; simp add: enc_mod)+

lemma or_by_and: "x OR y = x + y - (x AND y :: int)"
  using plus_and_or [of x y] by simp

lemma enc_or:
  "enc L W S w OR 1 = enc True W S w" "enc L W S w OR 2 = enc L True S w" "enc L W S w OR 4 = enc L W True w"
  unfolding or_by_and enc_and by (simp_all add: enc_def)

lemma and_not_by_and: "x AND NOT m = x - (x AND m :: int)"
proof -
  have "x - (x AND m) = x AND NOT (x AND m)"
    by (rule disjunctive_diff) (simp add: bit_and_iff)
  also have "\<dots> = x AND NOT m"
    by (rule bit_eqI) (auto simp: bit_and_iff bit_not_iff bit_or_iff)
  finally show ?thesis by simp
qed

lemma enc_and_not: "enc L W S w AND - 3 = enc L False S w"
proof -
  have "enc L W S w AND NOT 2 = enc L False S w"
    unfolding and_not_by_and enc_and by (simp add: enc_def)
  then show ?thesis by simp
qed

lemma enc_shift: "drop_bit 3 (enc L W S w) = w"
  by (cases L; cases W; cases S) (simp_all add: enc_def drop_bit_eq_div)

lemma enc_cases:
  obtains L W S w where "x = enc L W S w"
proof
  have bit: "of_bool (y mod 2 = 1) = y mod 2" for y :: int by (cases y rule: parity_cases) auto
  have "x = 2 * (x div 2) + x mod 2" by simp
  moreover have "x div 2 = 2 * (x div 4) + x div 2 mod 2"
    using zdiv_zmult2_eq [of 2 x 2] mult_div_mod_eq [of 2 "x div 2"] by simp
  moreover have "x div 4 = 2 * (x div 8) + x div 4 mod 2"
    using zdiv_zmult2_eq [of 2 x 4] mult_div_mod_eq [of 2 "x div 4"] by simp
  ultimately show "x = enc (x mod 2 = 1) (x div 2 mod 2 = 1) (x div 4 mod 2 = 1) (x div 8)"
    unfolding enc_def bit by linarith
qed

lemma enc_eq_iff [simp]: "enc L W S w = enc L' W' S' w' \<longleftrightarrow> L = L' \<and> W = W' \<and> S = S' \<and> w = w'"
proof
  assume eq: "enc L W S w = enc L' W' S' w'"
  then have "enc L W S w mod 8 = enc L' W' S' w' mod 8" by simp
  then have "L = L' \<and> W = W' \<and> S = S'" unfolding enc_mod by (auto simp: of_bool_def split: if_splits)
  then show "L = L' \<and> W = W' \<and> S = S' \<and> w = w'" using eq by (simp add: enc_def)
qed simp

lemma slow_newV_enc: "slow_newV (enc L W S w) st = enc (L \<or> \<not> S) W (S \<or> st \<and> L) (w + of_bool (L \<or> S))"
proof -
  have step: "enc L W S w + 8 = enc L W S (w + 1)" for L W S w by (simp add: enc_def)
  show ?thesis
    by (cases L; cases S; cases st) (simp_all add: slow_newV_def mutex_consts enc_and enc_or step)
qed

section \<open>Counting coroutines\<close>

definition cnt :: "('a \<Rightarrow> bool) \<Rightarrow> 'a list \<Rightarrow> int" where
  "cnt P xs = int (length (filter P xs))"

lemma cnt_update:
  "i < length xs \<Longrightarrow> cnt P (xs[i := y]) = cnt P xs - of_bool (P (xs ! i)) + of_bool (P y)"
proof (induction xs arbitrary: i)
  case (Cons x xs)
  then show ?case by (cases i) (auto simp: cnt_def)
qed simp

lemma cnt_nonneg [simp]: "0 \<le> cnt P xs"
  by (simp add: cnt_def)

lemma cnt_pos: "i < length xs \<Longrightarrow> P (xs ! i) \<Longrightarrow> 1 \<le> cnt P xs"
  unfolding cnt_def by (metis filter_empty_conv length_0_conv less_one linorder_not_less nth_mem of_nat_0_less_iff zless_iff_Suc_zadd int_one_le_iff_zero_less neq0_conv)

lemma cnt_zero: "cnt P xs = 0 \<longleftrightarrow> (\<forall>i<length xs. \<not> P (xs ! i))"
  by (simp add: cnt_def filter_empty_conv all_set_conv_all_nth)

lemma cnt_other: "i < length xs \<Longrightarrow> j < length xs \<Longrightarrow> i \<noteq> j \<Longrightarrow> P (xs ! j) \<Longrightarrow> 1 + of_bool (P (xs ! i)) \<le> cnt P xs"
proof (cases "P (xs ! i)")
  assume a: "i < length xs" "j < length xs" "i \<noteq> j" "P (xs ! j)" and p: "P (xs ! i)"
  have "{i, j} \<subseteq> {k. k < length xs \<and> P (xs ! k)}" using a p by auto
  then have "card {i, j} \<le> card {k. k < length xs \<and> P (xs ! k)}" by (intro card_mono) auto
  then show ?thesis using a p by (simp add: cnt_def length_filter_conv_card)
qed (simp add: cnt_pos)

lemma cnt_pos_ex: "0 < cnt P xs \<Longrightarrow> \<exists>i<length xs. P (xs ! i)"
  by (metis cnt_zero less_irrefl)

section \<open>Invariant\<close>

fun is_awoke :: "mutex_pc \<Rightarrow> bool" where
  "is_awoke (M_load l) = awoke l"
| "is_awoke (M_slow l) = awoke l"
| "is_awoke pc = False"

abbreviation "n_own m \<equiv> cnt (\<lambda>pc. pc = M_own) (pcs m)"
abbreviation "n_posting m \<equiv> cnt (\<lambda>pc. pc = M_posting) (pcs m)"
abbreviation "n_woken m \<equiv> cnt is_M_woken (pcs m)"
abbreviation "n_handoff m \<equiv> cnt is_M_handoff (pcs m)"
abbreviation "n_awoke m \<equiv> cnt is_awoke (pcs m)"
abbreviation "n_wait m \<equiv> cnt is_M_wait (pcs m)"
abbreviation "n_waiting m \<equiv> cnt is_M_waiting (pcs m)"
abbreviation "d_wait m \<equiv> (of_bool (dontWait m) :: int)"

text \<open>
  The lock flag counts the owners.  In normal mode the woken flag counts the coroutines that are being
  woken or have been woken to compete for the lock; in starvation mode an unlocked mutex is on its way
  to exactly one coroutine.  The waiters are those that wait, less the wake-ups under way to them in
  normal mode, and including the one the lock is handed to in starvation mode.
\<close>

definition counts :: "bool \<Rightarrow> bool \<Rightarrow> bool \<Rightarrow> int \<Rightarrow> Mutex \<Rightarrow> bool" where
  "counts L W S w m \<longleftrightarrow> n_own m = of_bool L \<and> 0 \<le> w \<and>
     (if S then \<not> W \<and> n_awoke m = 0 \<and> n_posting m + d_wait m + n_woken m + n_handoff m = of_bool (\<not> L)
        \<and> w = n_wait m + n_waiting m + n_woken m + n_handoff m \<and> 1 \<le> w
      else n_handoff m = 0 \<and> n_posting m + d_wait m + n_woken m + n_awoke m = of_bool W
        \<and> w = n_wait m + n_waiting m - n_posting m - d_wait m)"

fun pc_ok :: "int \<Rightarrow> mutex_pc \<Rightarrow> bool" where
  "pc_ok w (M_load l) = (starving l \<longrightarrow> awoke l)"
| "pc_ok w (M_slow l) = ((starving l \<longrightarrow> awoke l) \<and> (awoke l \<longrightarrow> oldV l AND MUTEXWOKEN \<noteq> 0))"
| "pc_ok w (M_handoff d) = (d = -11 \<or> d = -7 \<and> 2 \<le> w)"
| "pc_ok w pc = True"

definition list_ok :: "Mutex \<Rightarrow> bool" where
  "list_ok m \<longleftrightarrow> distinct (waitRoutines m) \<and> (dontWait m \<longrightarrow> waitRoutines m = []) \<and>
     (\<forall>j. j \<in> set (waitRoutines m) \<longleftrightarrow> j < length (pcs m) \<and> is_M_waiting (pcs m ! j))"

text \<open>A free lock with waiters has an \<open>unlock\<close> under way that will wake one.\<close>

definition unlocker :: "Mutex \<Rightarrow> bool" where
  "unlocker m \<longleftrightarrow> (\<exists>i<length (pcs m). pcs m ! i = M_unlock_load \<or> pcs m ! i = M_unlocking (state m))"

definition mutex_inv :: "Mutex \<Rightarrow> bool" where
  "mutex_inv m \<longleftrightarrow> (\<exists>L W S w. state m = enc L W S w \<and> counts L W S w m \<and> (\<forall>i<length (pcs m). pc_ok w (pcs m ! i)) \<and>
     list_ok m \<and> (\<not> L \<and> \<not> W \<and> \<not> S \<and> 0 < w \<longrightarrow> unlocker m))"

lemma new_Mutex_inv: "mutex_inv (new_Mutex n)"
proof -
  have "cnt P (replicate n M_out) = 0" if "\<not> P M_out" for P using that by (simp add: cnt_zero)
  then show ?thesis
    unfolding mutex_inv_def by (intro exI [of _ False] exI [of _ 0]) (simp add: new_Mutex_def enc_def counts_def list_ok_def)
qed

section \<open>Every step keeps the invariant\<close>

lemma goto_simps [simp]:
  "state (goto i pc m) = state m" "dontWait (goto i pc m) = dontWait m" "waitRoutines (goto i pc m) = waitRoutines m"
  "pcs (goto i pc m) = (pcs m)[i := pc]"
  by (simp_all add: goto_def)

lemma mutex_inv_lastco [simp]: "mutex_inv (m\<lparr>lastco := c, beginTm := t\<rparr>) = mutex_inv m"
  by (simp add: mutex_inv_def counts_def list_ok_def unlocker_def)

lemma mutex_inv_note_owner [simp]: "mutex_inv (note_owner now i old m) = mutex_inv m"
  by (simp add: note_owner_def)

lemma pc_ok_mono: "pc_ok w pc \<Longrightarrow> (is_M_handoff pc \<Longrightarrow> w \<le> w') \<Longrightarrow> pc_ok w' pc"
  by (cases pc) auto

lemma list_ok_goto:
  assumes "list_ok m" "i < length (pcs m)" "\<not> is_M_waiting (pcs m ! i)" "\<not> is_M_waiting pc"
  shows "list_ok (goto i pc m)"
  using assms unfolding list_ok_def by (auto simp: nth_list_update)

lemma list_ok_pop:
  assumes "list_ok m" "waitRoutines m = j # q" "j < length (pcs m)"
  shows "list_ok (goto j (M_woken l) (m\<lparr>waitRoutines := q\<rparr>))"
proof -
  have q: "distinct q" "j \<notin> set q" "\<And>k. k \<in> set (j # q) \<longleftrightarrow> k < length (pcs m) \<and> is_M_waiting (pcs m ! k)" "\<not> dontWait m"
    using assms(1,2) unfolding list_ok_def by auto
  have "k \<in> set q \<longleftrightarrow> k < length (pcs m) \<and> is_M_waiting ((pcs m)[j := M_woken l] ! k)" for k
    using q(2) q(3) [of k] assms(3) by (cases "k = j") auto
  then show ?thesis using q unfolding list_ok_def by simp
qed

lemma unlocker_goto:
  assumes "unlocker m" "pcs m ! i \<noteq> M_unlock_load" "\<And>v. pcs m ! i \<noteq> M_unlocking v"
  shows "unlocker (goto i pc m)"
proof -
  obtain j where j: "j < length (pcs m)" "pcs m ! j = M_unlock_load \<or> pcs m ! j = M_unlocking (state m)"
    using assms(1) unfolding unlocker_def by blast
  then have "i \<noteq> j" using assms(2,3) by auto
  then show ?thesis unfolding unlocker_def using j by (intro exI [of _ j]) simp
qed

lemma unlocker_here: "i < length (pcs m) \<Longrightarrow> pc = M_unlock_load \<or> pc = M_unlocking (state m) \<Longrightarrow> unlocker (goto i pc m)"
  unfolding unlocker_def by (auto intro!: exI [of _ i])

text \<open>A step that leaves the list of waiting coroutines alone.\<close>

lemma move_inv:
  assumes ok: "\<forall>j<length (pcs m). pc_ok w (pcs m ! j)" "list_ok m" and i: "i < length (pcs m)"
    and w: "\<not> is_M_waiting (pcs m ! i)" "\<not> is_M_waiting pc" and pc: "pc_ok w' pc"
    and hand: "of_bool (is_M_handoff (pcs m ! i)) < n_handoff m \<Longrightarrow> w \<le> w'"
    and c: "counts L W S w' (goto i pc (m\<lparr>state := enc L W S w'\<rparr>))"
    and u: "\<not> L \<and> \<not> W \<and> \<not> S \<and> 0 < w' \<Longrightarrow> unlocker (goto i pc (m\<lparr>state := enc L W S w'\<rparr>))"
  shows "mutex_inv (goto i pc (m\<lparr>state := enc L W S w'\<rparr>))"
proof -
  have "pc_ok w' (pcs m ! j)" if "j < length (pcs m)" "j \<noteq> i" for j
  proof (rule pc_ok_mono)
    show "pc_ok w (pcs m ! j)" using ok that by simp
    show "w \<le> w'" if "is_M_handoff (pcs m ! j)"
      using hand cnt_other [of i "pcs m" j is_M_handoff] i that \<open>j < length (pcs m)\<close> \<open>j \<noteq> i\<close> by linarith
  qed
  then have "\<forall>j<length (pcs m). pc_ok w' ((pcs m)[i := pc] ! j)"
    using pc i by (auto simp: nth_list_update)
  moreover have "list_ok (goto i pc (m\<lparr>state := enc L W S w'\<rparr>))"
    using list_ok_goto [of "m\<lparr>state := enc L W S w'\<rparr>" i pc] ok(2) i w by (simp add: list_ok_def)
  ultimately show ?thesis
    unfolding mutex_inv_def using c u by (intro exI [of _ L] exI [of _ W] exI [of _ S] exI [of _ w']) simp
qed

lemma move_same:
  assumes st: "state m = enc L W S w" and ok: "\<forall>j<length (pcs m). pc_ok w (pcs m ! j)" "list_ok m" and i: "i < length (pcs m)"
    and w: "\<not> is_M_waiting (pcs m ! i)" "\<not> is_M_waiting pc" and pc: "pc_ok w pc"
    and c: "counts L W S w (goto i pc m)" and u: "\<not> L \<and> \<not> W \<and> \<not> S \<and> 0 < w \<Longrightarrow> unlocker (goto i pc m)"
  shows "mutex_inv (goto i pc m)"
proof -
  have eq: "m\<lparr>state := enc L W S w\<rparr> = m" using st by simp
  show ?thesis using move_inv [OF ok i w pc, of L W S] c u unfolding eq by simp
qed

lemma mutex_invE:
  assumes "mutex_inv m"
  obtains L W S w where "state m = enc L W S w" "counts L W S w m" "\<forall>i<length (pcs m). pc_ok w (pcs m ! i)" "list_ok m"
    "\<not> L \<and> \<not> W \<and> \<not> S \<and> 0 < w \<longrightarrow> unlocker m"
  using assms unfolding mutex_inv_def by blast

lemma call_lock_inv:
  assumes "mutex_inv m" and i: "i < length (pcs m)" and pc: "pcs m ! i = M_out"
  shows "mutex_inv (goto i M_lock m)"
proof -
  obtain L W S w where m: "state m = enc L W S w" "counts L W S w m" "\<forall>i<length (pcs m). pc_ok w (pcs m ! i)" "list_ok m"
    "\<not> L \<and> \<not> W \<and> \<not> S \<and> 0 < w \<longrightarrow> unlocker m" using assms(1) by (rule mutex_invE)
  show ?thesis
  proof (rule move_same [OF m(1,3,4) i])
    show "counts L W S w (goto i M_lock m)" using m(2) unfolding counts_def by (cases S) (simp_all add: cnt_update i pc)
  qed (use m(5) pc in \<open>auto intro: unlocker_goto\<close>)
qed

lemma lock_inv:
  assumes "mutex_inv m" and i: "i < length (pcs m)" and pc: "pcs m ! i = M_lock"
  shows "mutex_inv (mutex_lock ok i m)"
proof -
  obtain L W S w where m: "state m = enc L W S w" "counts L W S w m" "\<forall>i<length (pcs m). pc_ok w (pcs m ! i)" "list_ok m"
    "\<not> L \<and> \<not> W \<and> \<not> S \<and> 0 < w \<longrightarrow> unlocker m" using assms(1) by (rule mutex_invE)
  show ?thesis
  proof (cases "ok \<and> state m = 0")
    case True
    moreover have "0 = enc False False False 0" by (simp add: enc_def)
    ultimately have e: "L = False" "W = False" "S = False" "w = 0" using m(1) by (metis enc_eq_iff)+
    have "mutex_inv (goto i M_own (m\<lparr>state := enc True False False 0\<rparr>))"
    proof (rule move_inv [OF m(3,4) i])
      show "counts True False False 0 (goto i M_own (m\<lparr>state := enc True False False 0\<rparr>))"
        using m(2) unfolding counts_def e by (simp add: cnt_update i pc)
    qed (use pc e in auto)
    then show ?thesis using True by (simp add: mutex_lock_def enc_def mutex_consts)
  next
    case False
    let ?pc = "M_load \<lparr>oldV = 0, starving = False, awoke = False, waitStartTime = 0, iter = 0\<rparr>"
    have "mutex_inv (goto i ?pc m)"
    proof (rule move_same [OF m(1,3,4) i])
      show "counts L W S w (goto i ?pc m)" using m(2) unfolding counts_def by (cases S) (simp_all add: cnt_update i pc)
    qed (use m(5) pc in \<open>auto intro: unlocker_goto\<close>)
    then show ?thesis using False by (auto simp: mutex_lock_def)
  qed
qed

text \<open>A coroutine that carries the woken flag finds it set.\<close>

lemma awoke_flag:
  assumes "counts L W S w m" "i < length (pcs m)" "is_awoke (pcs m ! i)"
  shows "W" "\<not> S"
proof -
  have "1 \<le> n_awoke m" using assms(2,3) by (rule cnt_pos)
  then show "W" "\<not> S"
    using assms(1) cnt_nonneg [of _ "pcs m"] unfolding counts_def by (auto simp: of_bool_def split: if_splits) (smt (verit) cnt_nonneg)+
qed

lemma slow_load_inv:
  assumes "mutex_inv m" and i: "i < length (pcs m)" and pc: "pcs m ! i = M_load l"
  shows "mutex_inv (slow_load i l m)"
proof -
  obtain L W S w where m: "state m = enc L W S w" "counts L W S w m" "\<forall>i<length (pcs m). pc_ok w (pcs m ! i)" "list_ok m"
    "\<not> L \<and> \<not> W \<and> \<not> S \<and> 0 < w \<longrightarrow> unlocker m" using assms(1) by (rule mutex_invE)
  have "pc_ok w (M_load l)" using m(3) i pc by metis
  moreover have "awoke l \<Longrightarrow> W" using awoke_flag(1) [OF m(2) i] pc by simp
  ultimately have ok: "pc_ok w (M_slow (l\<lparr>oldV := state m\<rparr>))" by (auto simp: m(1) enc_and mutex_consts)
  show ?thesis
    unfolding slow_load_def
  proof (rule move_same [OF m(1,3,4) i _ _ ok])
    show "counts L W S w (goto i (M_slow (l\<lparr>oldV := state m\<rparr>)) m)" using m(2) unfolding counts_def by (cases S) (simp_all add: cnt_update i pc)
  qed (use m(5) pc in \<open>auto intro: unlocker_goto\<close>)
qed

lemma slow_spin_inv:
  assumes inv: "mutex_inv m" and i: "i < length (pcs m)" and pc: "pcs m ! i = M_slow l"
    and st: "state m = enc True False False w0" and w0: "w0 \<noteq> 0" and na: "\<not> awoke l"
  shows "mutex_inv (goto i (M_load (l\<lparr>awoke := True, iter := iter l + 1\<rparr>)) (m\<lparr>state := enc True True False w0\<rparr>))"
proof -
  obtain L W S w where m: "state m = enc L W S w" "counts L W S w m" "\<forall>i<length (pcs m). pc_ok w (pcs m ! i)" "list_ok m"
    using inv by (rule mutex_invE)
  have e: "L = True" "W = False" "S = False" "w = w0" using m(1) st by auto
  show ?thesis
  proof (rule move_inv [OF m(3,4) i])
    show "counts True True False w0 (goto i (M_load (l\<lparr>awoke := True, iter := iter l + 1\<rparr>)) (m\<lparr>state := enc True True False w0\<rparr>))"
      using m(2) na unfolding counts_def e by (simp add: cnt_update i pc)
  qed (use pc e in auto)
qed

lemma slow_back_inv:
  assumes inv: "mutex_inv m" and i: "i < length (pcs m)" and pc: "pcs m ! i = M_slow l"
    and l': "awoke l' = awoke l" "starving l' = starving l"
  shows "mutex_inv (goto i (M_load l') m)"
proof -
  obtain L W S w where m: "state m = enc L W S w" "counts L W S w m" "\<forall>i<length (pcs m). pc_ok w (pcs m ! i)" "list_ok m"
    "\<not> L \<and> \<not> W \<and> \<not> S \<and> 0 < w \<longrightarrow> unlocker m" using inv by (rule mutex_invE)
  have ok: "pc_ok w (M_slow l)" using m(3) i pc by metis
  show ?thesis
  proof (rule move_same [OF m(1,3,4) i])
    show "counts L W S w (goto i (M_load l') m)" using m(2) l' unfolding counts_def by (cases S) (simp_all add: cnt_update i pc)
  qed (use m(5) pc ok l' in \<open>auto intro: unlocker_goto\<close>)
qed

text \<open>The exchange succeeds: the coroutine takes the lock, or joins the waiters.\<close>

lemma slow_take_inv:
  assumes inv: "mutex_inv m" and i: "i < length (pcs m)" and pc: "pcs m ! i = M_slow l" and st: "state m = enc False W False w"
  shows "mutex_inv (goto i M_own (m\<lparr>state := enc True (W \<and> \<not> awoke l) False w\<rparr>))"
proof -
  obtain L' W' S' w' where m: "state m = enc L' W' S' w'" "counts L' W' S' w' m" "\<forall>i<length (pcs m). pc_ok w' (pcs m ! i)" "list_ok m"
    using inv by (rule mutex_invE)
  have e: "L' = False" "W' = W" "S' = False" "w' = w" using m(1) st by auto
  have "awoke l \<Longrightarrow> W" using awoke_flag(1) [OF m(2) i] pc e by simp
  then have c: "counts True (W \<and> \<not> awoke l) False w (goto i M_own (m\<lparr>state := enc True (W \<and> \<not> awoke l) False w\<rparr>))"
    using m(2) unfolding counts_def e by (cases "awoke l") (simp_all add: cnt_update i pc)
  show ?thesis by (rule move_inv [OF m(3,4) i _ _ _ _ c]) (use pc e in auto)
qed

lemma slow_join_inv:
  assumes inv: "mutex_inv m" and i: "i < length (pcs m)" and pc: "pcs m ! i = M_slow l" and st: "state m = enc L W S w" and LS: "L \<or> S"
  shows "mutex_inv (goto i (M_wait b l') (m\<lparr>state := enc L (W \<and> \<not> awoke l) (S \<or> starving l \<and> L) (w + 1)\<rparr>))"
proof -
  obtain L' W' S' w' where m: "state m = enc L' W' S' w'" "counts L' W' S' w' m" "\<forall>i<length (pcs m). pc_ok w' (pcs m ! i)" "list_ok m"
    using inv by (rule mutex_invE)
  have e: "L' = L" "W' = W" "S' = S" "w' = w" using m(1) st by auto
  have ok: "pc_ok w (M_slow l)" using m(3) i pc e by metis
  have aw: "awoke l \<Longrightarrow> W \<and> \<not> S" using awoke_flag [OF m(2) i] pc e by simp
  have one: "awoke l \<Longrightarrow> 1 \<le> n_awoke m" using cnt_pos [OF i, of is_awoke] pc by simp
  have nn: "0 \<le> n_posting m" "0 \<le> n_woken m" "0 \<le> n_wait m" "0 \<le> n_waiting m" by simp_all
  have c: "counts L (W \<and> \<not> awoke l) (S \<or> starving l \<and> L) (w + 1)
      (goto i (M_wait b l') (m\<lparr>state := enc L (W \<and> \<not> awoke l) (S \<or> starving l \<and> L) (w + 1)\<rparr>))"
  proof (cases S)
    case True
    then show ?thesis using m(2) aw unfolding counts_def e by (cases "awoke l") (simp_all add: cnt_update i pc)
  next
    case False
    then have "L" using LS by simp
    show ?thesis
    proof (cases "awoke l")
      case True
      then have sum: "n_posting m + d_wait m + n_woken m + n_awoke m = 1" using m(2) aw False unfolding counts_def e by simp
      have "d_wait m \<ge> 0" by simp
      then have "n_awoke m = 1" "n_posting m = 0" "n_woken m = 0" "d_wait m = 0" using sum one [OF True] nn by linarith+
      then have "n_awoke m = 1" "n_posting m = 0" "n_woken m = 0" "\<not> dontWait m" by simp_all
      then show ?thesis
        using m(2) True False \<open>L\<close> nn unfolding counts_def e by (cases "starving l") (simp_all add: cnt_update i pc)
    next
      case na: False
      then have "\<not> starving l" using ok by auto
      then show ?thesis using m(2) na False \<open>L\<close> unfolding counts_def e by (simp add: cnt_update i pc)
    qed
  qed
  show ?thesis by (rule move_inv [OF m(3,4) i _ _ _ _ c]) (use pc e LS in auto)
qed

lemma slow_turn_spins:
  assumes inv: "mutex_inv m" and i: "i < length (pcs m)" and pc: "pcs m ! i = M_slow l"
    and ov: "oldV l = enc L W S w" and True: "L \<and> \<not> S \<and> iter l < 4"
  shows "\<exists>m'. slow_turn ok now i l m = Some m' \<and> mutex_inv m'"
proof -
  have again: "mutex_inv (goto i (M_load (l\<lparr>iter := iter l + 1\<rparr>)) m)"
    using slow_back_inv [OF inv i pc] by simp
  have sp: "oldV l AND (MUTEXLOCKED OR MUTEXSTARVING) = MUTEXLOCKED \<and> iter l < 4"
    using ov True by (simp add: mutex_consts enc_and)
  have "mutex_inv (goto i (M_load (l\<lparr>awoke := True, iter := iter l + 1\<rparr>)) (m\<lparr>state := oldV l OR MUTEXWOKEN\<rparr>))"
    if "\<not> awoke l" "oldV l AND MUTEXWOKEN = 0" "drop_bit MUTEXWAITERSHIFT (oldV l) \<noteq> 0" "state m = oldV l"
  proof -
    have "\<not> W" "w \<noteq> 0" using that ov by (auto simp: mutex_consts enc_and enc_shift)
    then show ?thesis
      using slow_spin_inv [OF inv i pc, of w] that True ov by (simp add: mutex_consts enc_or)
  qed
  then show ?thesis
    using again sp by (simp add: slow_turn_def)
qed

lemma slow_turn_exchanges:
  assumes inv: "mutex_inv m" and i: "i < length (pcs m)" and pc: "pcs m ! i = M_slow l"
    and ov: "oldV l = enc L W S w" and W: "awoke l \<Longrightarrow> W"
    and sp: "\<not> (oldV l AND (MUTEXLOCKED OR MUTEXSTARVING) = MUTEXLOCKED \<and> iter l < 4)"
  shows "\<exists>m'. slow_turn ok now i l m = Some m' \<and> mutex_inv m'"
proof -
  have again: "mutex_inv (goto i (M_load l) m)" using slow_back_inv [OF inv i pc] by simp
  have new: "(if awoke l then slow_newV (oldV l) (starving l) AND NOT MUTEXWOKEN else slow_newV (oldV l) (starving l)) =
      enc (L \<or> \<not> S) (W \<and> \<not> awoke l) (S \<or> starving l \<and> L) (w + of_bool (L \<or> S))"
    by (simp add: ov slow_newV_enc enc_and_not mutex_consts)
  have no_abort: "\<not> (awoke l \<and> slow_newV (oldV l) (starving l) AND MUTEXWOKEN = 0)"
    using W by (auto simp: ov slow_newV_enc enc_and mutex_consts)
  have free: "oldV l AND (MUTEXLOCKED OR MUTEXSTARVING) = 0 \<longleftrightarrow> \<not> L \<and> \<not> S"
    using ov by (auto simp: mutex_consts enc_and of_bool_def split: if_splits)
  have owns: "mutex_inv (goto i M_own (m\<lparr>state := enc True (W \<and> \<not> awoke l) False w\<rparr>))" if "state m = oldV l" "\<not> L" "\<not> S"
    using slow_take_inv [OF inv i pc, of W w] that ov by simp
  have joins: "mutex_inv (goto i (M_wait b l') (m\<lparr>state := enc (L \<or> \<not> S) (W \<and> \<not> awoke l) (S \<or> starving l \<and> L) (w + 1)\<rparr>))"
    if "state m = oldV l" "L \<or> S" for b l'
  proof -
    have "(L \<or> \<not> S) = L" using that(2) by auto
    then show ?thesis using slow_join_inv [OF inv i pc _ that(2)] that ov by simp
  qed
  let ?pause = "\<not> awoke l \<and> oldV l AND MUTEXWOKEN \<noteq> 0 \<and> lastco m = Some i \<and> now - beginTm m > 1000"
  consider "?pause" | "\<not> ?pause" "\<not> (ok \<and> state m = oldV l)" | "\<not> ?pause" "ok \<and> state m = oldV l" "\<not> L \<and> \<not> S"
    | "\<not> ?pause" "ok \<and> state m = oldV l" "L \<or> S" by blast
  then show ?thesis
  proof cases
    case 1
    then show ?thesis unfolding slow_turn_def if_not_P [OF sp] if_P [OF 1] using inv by blast
  next
    case 2
    then show ?thesis
      unfolding slow_turn_def if_not_P [OF sp] if_not_P [OF 2(1)] Let_def if_not_P [OF no_abort] if_not_P [OF 2(2)] using again by blast
  next
    case 3
    then have f: "oldV l AND (MUTEXLOCKED OR MUTEXSTARVING) = 0" using free by blast
    show ?thesis
      unfolding slow_turn_def if_not_P [OF sp] if_not_P [OF 3(1)] Let_def if_not_P [OF no_abort] if_P [OF 3(2)] if_P [OF f] new
      using owns 3 by simp
  next
    case 4
    then have f: "\<not> oldV l AND (MUTEXLOCKED OR MUTEXSTARVING) = 0" using free by blast
    show ?thesis
      unfolding slow_turn_def if_not_P [OF sp] if_not_P [OF 4(1)] Let_def if_not_P [OF no_abort] if_P [OF 4(2)] if_not_P [OF f] new
      using joins 4 by simp
  qed
qed

lemma slow_turn_inv:
  assumes inv: "mutex_inv m" and i: "i < length (pcs m)" and pc: "pcs m ! i = M_slow l"
  shows "\<exists>m'. slow_turn ok now i l m = Some m' \<and> mutex_inv m'"
proof -
  obtain L W S w where ov: "oldV l = enc L W S w" by (rule enc_cases)
  have "pc_ok w' (M_slow l)" if "\<forall>i<length (pcs m). pc_ok w' (pcs m ! i)" for w' using that i pc by metis
  then have W: "awoke l \<Longrightarrow> W" using inv ov by (auto elim!: mutex_invE simp: enc_and mutex_consts)
  have "\<not> (oldV l AND (MUTEXLOCKED OR MUTEXSTARVING) = MUTEXLOCKED \<and> iter l < 4)" if "\<not> (L \<and> \<not> S \<and> iter l < 4)"
    using ov that by (auto simp: mutex_consts enc_and of_bool_def split: if_splits)
  then show ?thesis
    using slow_turn_spins [OF inv i pc ov] slow_turn_exchanges [OF inv i pc ov W] by blast
qed

lemma wait_inv:
  assumes inv: "mutex_inv m" and i: "i < length (pcs m)" and pc: "pcs m ! i = M_wait b l"
  shows "mutex_inv (mutex_wait i b l m)"
proof -
  obtain L W S w where m: "state m = enc L W S w" "counts L W S w m" "\<forall>i<length (pcs m). pc_ok w (pcs m ! i)" "list_ok m"
    "\<not> L \<and> \<not> W \<and> \<not> S \<and> 0 < w \<longrightarrow> unlocker m" using inv by (rule mutex_invE)
  have ok: "\<forall>j<length (pcs m). pc_ok w ((pcs m)[i := pc'] ! j)" if "pc_ok w pc'" for pc'
    using m(3) that i by (simp add: nth_list_update)
  have u: "unlocker (goto i pc' m)" if "\<not> L \<and> \<not> W \<and> \<not> S \<and> 0 < w" for pc'
    using m(5) that pc by (intro unlocker_goto) auto
  show ?thesis
  proof (cases "dontWait m")
    case True
    then have q: "waitRoutines m = []" using m(4) by (simp add: list_ok_def)
    let ?m = "goto i (M_woken l) (m\<lparr>dontWait := False\<rparr>)"
    have "counts L W S w ?m" using m(2) True unfolding counts_def by (cases S) (simp_all add: cnt_update i pc)
    moreover have "list_ok ?m" using m(4) q i pc unfolding list_ok_def by (auto simp: nth_list_update)
    moreover have "unlocker ?m" if "\<not> L \<and> \<not> W \<and> \<not> S \<and> 0 < w" using u [OF that] by (simp add: unlocker_def)
    ultimately have "mutex_inv ?m"
      unfolding mutex_inv_def using m(1) ok [of "M_woken l"] by (intro exI [of _ L] exI [of _ W] exI [of _ S] exI [of _ w]) simp
    then show ?thesis using True by (simp add: mutex_wait_def)
  next
    case False
    let ?q = "if b then i # waitRoutines m else waitRoutines m @ [i]"
    let ?m = "goto i (M_waiting l) (m\<lparr>waitRoutines := ?q\<rparr>)"
    have "i \<notin> set (waitRoutines m)" using m(4) pc by (auto simp: list_ok_def)
    then have "list_ok ?m" using m(4) False i unfolding list_ok_def by (auto simp: nth_list_update)
    moreover have "counts L W S w ?m" using m(2) unfolding counts_def by (cases S) (simp_all add: cnt_update i pc)
    moreover have "unlocker ?m" if "\<not> L \<and> \<not> W \<and> \<not> S \<and> 0 < w" using u [OF that] by (simp add: unlocker_def)
    ultimately have "mutex_inv ?m"
      unfolding mutex_inv_def using m(1) ok [of "M_waiting l"] by (intro exI [of _ L] exI [of _ W] exI [of _ S] exI [of _ w]) simp
    then show ?thesis using False by (simp add: mutex_wait_def)
  qed
qed

lemma post_inv:
  assumes inv: "mutex_inv m" and i: "i < length (pcs m)" and pc: "pcs m ! i = M_posting"
  shows "mutex_inv (mutex_post i m)"
proof -
  obtain L W S w where m: "state m = enc L W S w" "counts L W S w m" "\<forall>i<length (pcs m). pc_ok w (pcs m ! i)" "list_ok m"
    "\<not> L \<and> \<not> W \<and> \<not> S \<and> 0 < w \<longrightarrow> unlocker m" using inv by (rule mutex_invE)
  have one: "1 \<le> n_posting m" using cnt_pos [OF i, of "\<lambda>pc. pc = M_posting"] pc by simp
  have nn: "0 \<le> n_woken m" "0 \<le> n_handoff m" "0 \<le> n_awoke m" "0 \<le> n_posting m" by simp_all
  have sum: "n_posting m + d_wait m + (n_woken m + (if S then n_handoff m else n_awoke m)) \<le> 1"
    using m(2) unfolding counts_def by (cases S; cases L; cases W) simp_all
  have WS: "W \<or> S"
  proof (rule ccontr)
    assume "\<not> (W \<or> S)"
    then have "n_posting m + d_wait m + n_woken m + n_awoke m = 0" using m(2) unfolding counts_def by simp
    moreover have "0 \<le> d_wait m" by simp
    ultimately show False using one nn by linarith
  qed
  have dw: "\<not> dontWait m"
  proof
    assume "dontWait m"
    then have "d_wait m = 1" by simp
    then show False using sum one nn by (cases S) simp_all
  qed
  show ?thesis
  proof (cases "waitRoutines m")
    case Nil
    let ?m = "goto i M_out (m\<lparr>dontWait := True\<rparr>)"
    have "counts L W S w ?m" using m(2) dw unfolding counts_def by (cases S) (simp_all add: cnt_update i pc)
    moreover have "list_ok ?m" using m(4) Nil i pc unfolding list_ok_def by (auto simp: nth_list_update)
    moreover have "\<forall>j<length (pcs m). pc_ok w ((pcs m)[i := M_out] ! j)" using m(3) i by (simp add: nth_list_update)
    ultimately have "mutex_inv ?m"
      unfolding mutex_inv_def using m(1) WS by (intro exI [of _ L] exI [of _ W] exI [of _ S] exI [of _ w]) auto
    then show ?thesis using Nil by (simp add: mutex_post_def)
  next
    case (Cons j q)
    then have j: "j < length (pcs m)" "is_M_waiting (pcs m ! j)" using m(4) by (auto simp: list_ok_def)
    then obtain l where l: "pcs m ! j = M_waiting l" by (cases "pcs m ! j") auto
    have ij: "i \<noteq> j" using l pc by auto
    let ?m = "goto i M_out (goto j (M_woken l) (m\<lparr>waitRoutines := q\<rparr>))"
    have pi: "(pcs m)[j := M_woken l] ! i = M_posting" using pc ij by simp
    have c: "cnt P (pcs ?m) = cnt P (pcs m) - of_bool (P (M_waiting l)) + of_bool (P (M_woken l)) - of_bool (P M_posting) + of_bool (P M_out)" for P
      using cnt_update [of i "(pcs m)[j := M_woken l]" P M_out] cnt_update [of j "pcs m" P "M_woken l"] i j(1) by (simp add: pi l)
    have "counts L W S w ?m"
      using m(2) unfolding counts_def c by (cases S) simp_all
    moreover have "list_ok (goto j (M_woken l) (m\<lparr>waitRoutines := q\<rparr>))" using m(4) Cons j(1) by (rule list_ok_pop)
    then have "list_ok ?m" by (rule list_ok_goto) (use i pi in simp_all)
    moreover have "\<forall>k<length (pcs m). pc_ok w ((pcs m)[j := M_woken l, i := M_out] ! k)" 
      using m(3) i j(1) by (intro allI impI) (rename_tac k, case_tac "k = i"; case_tac "k = j"; simp)
    ultimately have "mutex_inv ?m"
      unfolding mutex_inv_def using m(1) WS by (intro exI [of _ L] exI [of _ W] exI [of _ S] exI [of _ w]) auto
    then show ?thesis using Cons l by (simp add: mutex_post_def)
  qed
qed

lemma woken_flags:
  assumes c: "counts L W S w m" and i: "i < length (pcs m)" and pc: "is_M_woken (pcs m ! i)"
  shows "\<not> S \<Longrightarrow> W" "S \<Longrightarrow> \<not> L \<and> \<not> W \<and> 1 \<le> w"
proof -
  have nn: "1 \<le> n_woken m" "0 \<le> n_posting m" "0 \<le> n_handoff m" "0 \<le> n_awoke m" "0 \<le> d_wait m"
    using cnt_pos [OF i, of is_M_woken] pc by simp_all
  show W if "\<not> S"
  proof (rule ccontr)
    assume "\<not> W"
    then have "n_posting m + d_wait m + n_woken m + n_awoke m = 0" using c that unfolding counts_def by simp
    then show False using nn by linarith
  qed
  show "\<not> L \<and> \<not> W \<and> 1 \<le> w" if S
  proof (intro conjI)
    show "\<not> L"
    proof
      assume L
      then have "n_posting m + d_wait m + n_woken m + n_handoff m = 0" using c that unfolding counts_def by simp
      then show False using nn by linarith
    qed
  qed (use c that in \<open>simp_all add: counts_def\<close>)
qed

lemma after_wait_inv:
  assumes inv: "mutex_inv m" and i: "i < length (pcs m)" and pc: "pcs m ! i = M_woken l"
  shows "\<exists>m'. after_wait now i l m = Some m' \<and> mutex_inv m'"
proof -
  obtain L W S w where m: "state m = enc L W S w" "counts L W S w m" "\<forall>i<length (pcs m). pc_ok w (pcs m ! i)" "list_ok m"
    "\<not> L \<and> \<not> W \<and> \<not> S \<and> 0 < w \<longrightarrow> unlocker m" using inv by (rule mutex_invE)
  note fl = woken_flags [OF m(2) i]
  let ?l = "if \<not> starving l then l\<lparr>starving := now - waitStartTime l > 1000\<rparr> else l"
  show ?thesis
  proof (cases S)
    case True
    then have s: "\<not> L" "\<not> W" "1 \<le> w" using fl(2) pc by auto
    let ?d = "if \<not> starving ?l \<or> w = 1 then -11 else -7 :: int"
    have "mutex_inv (goto i (M_handoff ?d) m)"
    proof (rule move_same [OF m(1,3,4) i])
      show "counts L W S w (goto i (M_handoff ?d) m)" using m(2) True unfolding counts_def by (simp add: cnt_update i pc)
      show "pc_ok w (M_handoff ?d)" using s by auto
    qed (use pc True in auto)
    then show ?thesis
      using True s m(1)
      by (cases "starving l"; cases "now - waitStartTime l > 1000"; cases "w = 1") (simp_all add: after_wait_def Let_def enc_and enc_shift mutex_consts)
  next
    case False
    then have W using fl(1) pc by simp
    let ?pc = "M_slow (?l\<lparr>oldV := state m, awoke := True, iter := 0\<rparr>)"
    have "mutex_inv (goto i ?pc m)"
    proof (rule move_same [OF m(1,3,4) i])
      show "counts L W S w (goto i ?pc m)" using m(2) False unfolding counts_def by (simp add: cnt_update i pc)
      show "pc_ok w ?pc" using \<open>W\<close> m(1) by (simp add: enc_and mutex_consts)
    qed (use pc \<open>W\<close> in auto)
    then show ?thesis
      using False m(1) by (simp add: after_wait_def Let_def enc_and enc_shift mutex_consts)
  qed
qed

lemma hand_off_inv:
  assumes inv: "mutex_inv m" and i: "i < length (pcs m)" and pc: "pcs m ! i = M_handoff d"
  shows "mutex_inv (hand_off i d m)"
proof -
  obtain L W S w where m: "state m = enc L W S w" "counts L W S w m" "\<forall>i<length (pcs m). pc_ok w (pcs m ! i)" "list_ok m"
    using inv by (rule mutex_invE)
  have nn: "1 \<le> n_handoff m" "0 \<le> n_posting m" "0 \<le> n_woken m" "0 \<le> d_wait m" "0 \<le> n_wait m" "0 \<le> n_waiting m"
    using cnt_pos [OF i, of is_M_handoff] pc by simp_all
  then have S: "S" using m(2) unfolding counts_def by (auto split: if_splits)
  then have sum: "n_posting m + d_wait m + n_woken m + n_handoff m = of_bool (\<not> L)" "\<not> W" "n_awoke m = 0"
    "w = n_wait m + n_waiting m + n_woken m + n_handoff m" "n_own m = of_bool L"
    using m(2) unfolding counts_def by simp_all
  have L: "\<not> L"
  proof
    assume L
    then have "n_posting m + d_wait m + n_woken m + n_handoff m = 0" using sum(1) by simp
    then show False using nn by linarith
  qed
  then have "n_posting m + d_wait m + n_woken m + n_handoff m = 1" using sum(1) by simp
  then have z: "n_handoff m = 1" "n_posting m = 0" "n_woken m = 0" "d_wait m = 0" using nn by linarith+
  have "pc_ok w (M_handoff d)" using m(3) i pc by metis
  then consider "d = -11" | "d = -7" "2 \<le> w" by auto
  then show ?thesis
  proof cases
    case 1
    have st: "state m + d = enc True False False (w - 1)" using 1 m(1) L S sum(2) by (simp add: enc_def)
    have "mutex_inv (goto i M_own (m\<lparr>state := enc True False False (w - 1)\<rparr>))"
    proof (rule move_inv [OF m(3,4) i])
      show "counts True False False (w - 1) (goto i M_own (m\<lparr>state := enc True False False (w - 1)\<rparr>))"
        unfolding counts_def using z sum L nn by (simp add: cnt_update i pc)
    qed (use pc z in auto)
    then show ?thesis by (simp add: hand_off_def Let_def st)
  next
    case 2
    have st: "state m + d = enc True False True (w - 1)" using 2 m(1) L S sum(2) by (simp add: enc_def)
    have "mutex_inv (goto i M_own (m\<lparr>state := enc True False True (w - 1)\<rparr>))"
    proof (rule move_inv [OF m(3,4) i])
      show "counts True False True (w - 1) (goto i M_own (m\<lparr>state := enc True False True (w - 1)\<rparr>))"
        unfolding counts_def using z sum L nn 2 by (simp add: cnt_update i pc)
    qed (use pc z in auto)
    then show ?thesis by (simp add: hand_off_def Let_def st)
  qed
qed

lemma unlock_inv:
  assumes inv: "mutex_inv m" and i: "i < length (pcs m)" and pc: "pcs m ! i = M_own"
  shows "\<exists>m'. mutex_unlock i m = Some m' \<and> mutex_inv m'"
proof -
  obtain L W S w where m: "state m = enc L W S w" "counts L W S w m" "\<forall>i<length (pcs m). pc_ok w (pcs m ! i)" "list_ok m"
    using inv by (rule mutex_invE)
  have "1 \<le> n_own m" using cnt_pos [OF i, of "\<lambda>pc. pc = M_own"] pc by simp
  then have L: "L" using m(2) unfolding counts_def by (cases L) auto
  have st: "state m - 1 = enc False W S w" using m(1) L by (simp add: enc_def)
  have st': "enc False W S w + 1 = enc True W S w" for W S w by (simp add: enc_def)
  note own = m(2) [unfolded counts_def]
  show ?thesis
  proof (cases S)
    case True
    have "mutex_inv (goto i M_posting (m\<lparr>state := enc False W S w\<rparr>))"
    proof (rule move_inv [OF m(3,4) i])
      show "counts False W S w (goto i M_posting (m\<lparr>state := enc False W S w\<rparr>))"
        using own L True unfolding counts_def by (simp add: cnt_update i pc)
    qed (use pc True in auto)
    moreover have "enc False W S w \<noteq> 0" using True own by (simp add: enc_def)
    ultimately show ?thesis
      using True by (simp add: mutex_unlock_def mutex_consts st st' enc_and Let_def)
  next
    case False
    have ok: "mutex_inv (goto i pc' (m\<lparr>state := enc False W S w\<rparr>))"
      if "pc' = M_unlocking (enc False W S w) \<or> pc' = M_out \<and> w = 0" for pc'
    proof (rule move_inv [OF m(3,4) i])
      show "counts False W S w (goto i pc' (m\<lparr>state := enc False W S w\<rparr>))"
        using own L False that unfolding counts_def by (auto simp: cnt_update i pc)
      show "unlocker (goto i pc' (m\<lparr>state := enc False W S w\<rparr>))" if "\<not> False \<and> \<not> W \<and> \<not> S \<and> 0 < w"
        using that \<open>pc' = _ \<or> _\<close> i by (intro unlocker_here) auto
    qed (use pc that in auto)
    have "w = 0" if "enc False W S w = 0" using own that by (auto simp: enc_def of_bool_def split: if_splits)
    then have "mutex_inv (goto i M_out (m\<lparr>state := 0\<rparr>))" if "enc False W S w = 0" using ok [of M_out] that by metis
    then show ?thesis
      using ok [of "M_unlocking (enc False W S w)"] False
      by (simp add: mutex_unlock_def mutex_consts st st' enc_and Let_def)
  qed
qed

lemma unlocker_leaves:
  assumes "unlocker m" "pcs m ! i = M_unlocking v" "v \<noteq> state m"
  shows "unlocker (goto i pc m)"
proof -
  obtain j where j: "j < length (pcs m)" "pcs m ! j = M_unlock_load \<or> pcs m ! j = M_unlocking (state m)"
    using assms(1) unfolding unlocker_def by blast
  then have "i \<noteq> j" using assms(2,3) by auto
  then show ?thesis unfolding unlocker_def using j by (intro exI [of _ j]) simp
qed

lemma unlock_turn_inv:
  assumes inv: "mutex_inv m" and i: "i < length (pcs m)" and pc: "pcs m ! i = M_unlocking old"
  shows "mutex_inv (unlock_turn ok i old m)"
proof -
  obtain L W S w where m: "state m = enc L W S w" "counts L W S w m" "\<forall>i<length (pcs m). pc_ok w (pcs m ! i)" "list_ok m"
    "\<not> L \<and> \<not> W \<and> \<not> S \<and> 0 < w \<longrightarrow> unlocker m" using inv by (rule mutex_invE)
  obtain L' W' S' w' where ov: "old = enc L' W' S' w'" by (rule enc_cases)
  have leave: "drop_bit MUTEXWAITERSHIFT old = 0 \<or> old AND (MUTEXLOCKED OR MUTEXWOKEN OR MUTEXSTARVING) \<noteq> 0 \<longleftrightarrow> w' = 0 \<or> L' \<or> W' \<or> S'"
    by (cases L'; cases W'; cases S') (simp_all add: ov mutex_consts enc_and enc_shift)
  have same: "counts L W S w (goto i pc' m)" if "pc' = M_out \<or> pc' = M_unlock_load" for pc'
    using m(2) that unfolding counts_def by (cases S) (auto simp: cnt_update i pc)
  show ?thesis
  proof (cases "w' = 0 \<or> L' \<or> W' \<or> S'")
    case True
    have "mutex_inv (goto i M_out m)"
    proof (rule move_same [OF m(1,3,4) i _ _ _ same])
      show "unlocker (goto i M_out m)" if "\<not> L \<and> \<not> W \<and> \<not> S \<and> 0 < w"
        using m(5) that True m(1) ov by (intro unlocker_leaves [OF _ pc]) auto
    qed (use pc in auto)
    then show ?thesis using True leave by (simp add: unlock_turn_def)
  next
    case False
    show ?thesis
    proof (cases "ok \<and> state m = old")
      case True
      then have e: "\<not> L" "\<not> W" "\<not> S" "w \<noteq> 0" using False m(1) ov by auto
      have w: "0 < w" using m(2) e(4) unfolding counts_def by simp
      have st: "(old - 8) OR 2 = enc False True False (w - 1)"
      proof -
        have "old - 8 = enc False False False (w - 1)" using True m(1) e by (simp add: enc_def)
        then show ?thesis by (simp add: enc_or)
      qed
      have "n_handoff m = 0" using m(2) e unfolding counts_def by simp
      moreover have "counts False True False (w - 1) (goto i M_posting (m\<lparr>state := enc False True False (w - 1)\<rparr>))"
        using m(2) e w unfolding counts_def by (simp add: cnt_update i pc)
      ultimately have "mutex_inv (goto i M_posting (m\<lparr>state := enc False True False (w - 1)\<rparr>))"
        by (intro move_inv [OF m(3,4) i]) (use pc in auto)
      then show ?thesis using True False leave st by (simp add: unlock_turn_def mutex_consts)
    next
      case fail: False
      have "mutex_inv (goto i M_unlock_load m)"
        by (rule move_same [OF m(1,3,4) i _ _ _ same]) (use pc i unlocker_here in auto)
      then show ?thesis using fail False leave by (auto simp: unlock_turn_def)
    qed
  qed
qed

lemma unlock_load_inv:
  assumes inv: "mutex_inv m" and i: "i < length (pcs m)" and pc: "pcs m ! i = M_unlock_load"
  shows "mutex_inv (unlock_load i m)"
proof -
  obtain L W S w where m: "state m = enc L W S w" "counts L W S w m" "\<forall>i<length (pcs m). pc_ok w (pcs m ! i)" "list_ok m"
    using inv by (rule mutex_invE)
  have "counts L W S w (goto i (M_unlocking (state m)) m)"
    using m(2) unfolding counts_def by (cases S) (simp_all add: cnt_update i pc)
  then show ?thesis
    unfolding unlock_load_def by (intro move_same [OF m(1,3,4) i]) (use pc i unlocker_here in auto)
qed

lemma mutex_step_inv:
  assumes "mutex_step i m r" and inv: "mutex_inv m" and i: "i < length (pcs m)"
  shows "\<exists>m'. r = Some m' \<and> mutex_inv m'"
  using assms(1)
proof (cases rule: mutex_step.cases)
  case 1
  then show ?thesis using call_lock_inv [OF inv i] by blast
next
  case (2 ok)
  then show ?thesis using lock_inv [OF inv i] by blast
next
  case (3 l)
  then show ?thesis using slow_load_inv [OF inv i] by blast
next
  case (4 l ok now)
  then show ?thesis using slow_turn_inv [OF inv i] by metis
next
  case (5 lifo l)
  then show ?thesis using wait_inv [OF inv i] by blast
next
  case (6 l now)
  then show ?thesis using after_wait_inv [OF inv i] by metis
next
  case (7 d)
  then show ?thesis using hand_off_inv [OF inv i] by blast
next
  case 8
  then show ?thesis using unlock_inv [OF inv i] by metis
next
  case 9
  then show ?thesis using unlock_load_inv [OF inv i] by blast
next
  case (10 old ok)
  then show ?thesis using unlock_turn_inv [OF inv i] by blast
next
  case 11
  then show ?thesis using post_inv [OF inv i] by blast
qed

lemma mutex_reachable_inv: "mutex_next\<^sup>*\<^sup>* m m' \<Longrightarrow> mutex_inv m \<Longrightarrow> mutex_inv m'"
proof (induction rule: rtranclp_induct)
  case (step m' m'')
  then show ?case using mutex_step_inv unfolding mutex_next_def by blast
qed simp

end
