(* ===== verification/MutexLock.thy ===== *)
theory MutexLock
  imports Mutex
begin

text \<open>
  What the coroutines that use a \<open>Mutex\<close> rely on: it excludes, its consistency checks never fail, and no
  wake-up is lost.
\<close>

section \<open>Properties\<close>

text \<open>The step of coroutine \<open>i\<close> when the environment decides as given; a waiting coroutine has none.\<close>

definition mutex_do :: "nat \<Rightarrow> bool \<Rightarrow> int \<Rightarrow> Mutex \<Rightarrow> Mutex option" where
  "mutex_do i ok now m =
     (case pcs m ! i of
        M_out \<Rightarrow> Some (goto i M_lock m)
      | M_lock \<Rightarrow> Some (mutex_lock ok i m)
      | M_load l \<Rightarrow> Some (slow_load i l m)
      | M_slow l \<Rightarrow> slow_turn ok now i l m
      | M_wait lifo l \<Rightarrow> Some (mutex_wait i lifo l m)
      | M_waiting l \<Rightarrow> Some m
      | M_woken l \<Rightarrow> after_wait now i l m
      | M_handoff d \<Rightarrow> Some (hand_off i d m)
      | M_own \<Rightarrow> mutex_unlock i m
      | M_unlock_load \<Rightarrow> Some (unlock_load i m)
      | M_unlocking old \<Rightarrow> Some (unlock_turn ok i old m)
      | M_posting \<Rightarrow> Some (mutex_post i m))"

lemma mutex_do_step: "\<not> is_M_waiting (pcs m ! i) \<Longrightarrow> mutex_step i m (mutex_do i ok now m)"
  by (cases "pcs m ! i") (auto simp: mutex_do_def intro: mutex_step.intros)

fun mutex_play :: "(nat \<times> bool \<times> int) list \<Rightarrow> Mutex \<Rightarrow> Mutex option" where
  "mutex_play [] m = Some m"
| "mutex_play ((i, ok, now) # cs) m =
     (if i < length (pcs m) then (case mutex_do i ok now m of None \<Rightarrow> None | Some m' \<Rightarrow> mutex_play cs m') else None)"

lemma mutex_play_reachable: "mutex_play cs m = Some m' \<Longrightarrow> mutex_next\<^sup>*\<^sup>* m m'"
proof (induction cs m rule: mutex_play.induct)
  case (2 i ok now cs m)
  then obtain v where v: "i < length (pcs m)" "mutex_do i ok now m = Some v" "mutex_play cs v = Some m'"
    by (auto split: if_splits option.splits)
  have "mutex_next\<^sup>*\<^sup>* m v"
  proof (cases "is_M_waiting (pcs m ! i)")
    case True
    then have "v = m" using v(2) by (cases "pcs m ! i") (auto simp: mutex_do_def)
    then show ?thesis by simp
  next
    case False
    then show ?thesis using mutex_do_step [of m i ok now] v(1,2) unfolding mutex_next_def by auto
  qed
  then show ?case using 2(1) [OF v(1,2,3)] by simp
qed simp

lemma active_coroutine:
  assumes c: "counts L W S w m" and d: "d_wait m = 0"
    and nn: "1 \<le> n_waiting m" "0 \<le> n_wait m" "0 \<le> n_woken m" "0 \<le> n_handoff m" "0 \<le> n_awoke m" "0 \<le> n_posting m"
    and u: "\<not> L \<and> \<not> W \<and> \<not> S \<and> 0 < w \<longrightarrow> unlocker m"
  shows "0 < n_own m \<or> 0 < n_handoff m \<or> 0 < n_woken m \<or> 0 < n_awoke m \<or> 0 < n_posting m \<or> unlocker m"
proof (cases L)
  case True
  then show ?thesis using c by (simp add: counts_def)
next
  case False
  show ?thesis
  proof (cases "S \<or> W")
    case True
    have "0 < n_handoff m \<or> 0 < n_woken m \<or> 0 < n_awoke m \<or> 0 < n_posting m"
    proof (cases S)
      case True
      then have "n_posting m + d_wait m + n_woken m + n_handoff m = 1" using c False unfolding counts_def by simp
      then show ?thesis using d nn by linarith
    next
      case ns: False
      then have "n_posting m + d_wait m + n_woken m + n_awoke m = 1" using c True unfolding counts_def by simp
      then show ?thesis using d nn by linarith
    qed
    then show ?thesis by blast
  next
    case nsw: False
    then have e: "n_posting m + d_wait m + n_woken m + n_awoke m = 0" "w = n_wait m + n_waiting m - n_posting m - d_wait m"
      using c unfolding counts_def by simp_all
    have "0 < w" using e d nn by linarith
    then show ?thesis using u False nsw by simp
  qed
qed

text \<open>A run of two coroutines: the first has the lock; the second has spun four times and waits.\<close>

definition mutex_example :: Mutex where
  "mutex_example = \<lparr>state = 9, dontWait = False, waitRoutines = [1], lastco = None, beginTm = 0,
     pcs = [M_own, M_waiting \<lparr>oldV = 1, starving = False, awoke = False, waitStartTime = 50, iter = 4\<rparr>]\<rparr>"

lemma mutex_example_reachable: "mutex_next\<^sup>*\<^sup>* (new_Mutex 2) mutex_example"
proof (rule mutex_play_reachable)
  show "mutex_play ([(0, True, 10), (0, True, 10)] @ replicate 13 (1, True, 50)) (new_Mutex 2) = Some mutex_example"
    by code_simp
qed

text \<open>
  C26: a mutex excludes.  For any number of coroutines, however their steps interleave and whatever the
  weak exchanges and the clock do, at most one of them is between \<open>lock\<close> and \<open>unlock\<close>, the lock flag tells
  whether there is one, and none of the consistency checks of \<open>lockSlow\<close> and \<open>unlockSlow\<close> fails.
\<close>
theorem Mutex_excludes:
  assumes "mutex_next\<^sup>*\<^sup>* (new_Mutex n) m"
  shows "(\<forall>i<length (pcs m). \<forall>j<length (pcs m). pcs m ! i = M_own \<longrightarrow> pcs m ! j = M_own \<longrightarrow> i = j) \<and>
    ((\<exists>i<length (pcs m). pcs m ! i = M_own) \<longleftrightarrow> state m AND MUTEXLOCKED \<noteq> 0) \<and>
    (\<forall>i<length (pcs m). \<not> mutex_step i m None)"
proof (intro conjI)
  have inv: "mutex_inv m" using mutex_reachable_inv [OF assms new_Mutex_inv] .
  then obtain L W S w where m: "state m = enc L W S w" "counts L W S w m" by (rule mutex_invE)
  then have own: "n_own m = of_bool L" by (simp add: counts_def)
  show "\<forall>i<length (pcs m). \<forall>j<length (pcs m). pcs m ! i = M_own \<longrightarrow> pcs m ! j = M_own \<longrightarrow> i = j"
  proof (intro allI impI, rule ccontr)
    fix i j
    assume "i < length (pcs m)" "j < length (pcs m)" "pcs m ! i = M_own" "pcs m ! j = M_own" "i \<noteq> j"
    then have "2 \<le> n_own m" using cnt_other [of i "pcs m" j "\<lambda>pc. pc = M_own"] by simp
    then show False using own by (cases L) auto
  qed
  show "(\<exists>i<length (pcs m). pcs m ! i = M_own) \<longleftrightarrow> state m AND MUTEXLOCKED \<noteq> 0"
    using own m(1) cnt_zero [of "\<lambda>pc. pc = M_own" "pcs m"] by (cases L) (auto simp: enc_and mutex_consts)
  show "\<forall>i<length (pcs m). \<not> mutex_step i m None"
    using mutex_step_inv [OF _ inv] by blast
qed

theorem Mutex_excludes_witness:
  "pcs mutex_example ! 0 = M_own \<and> pcs mutex_example ! 1 \<noteq> M_own \<and> state mutex_example AND MUTEXLOCKED \<noteq> 0 \<and>
   \<not> mutex_step 0 mutex_example None \<and> \<not> mutex_step 1 mutex_example None"
proof -
  have "pcs mutex_example ! 0 = M_own" "length (pcs mutex_example) = 2" by (simp_all add: mutex_example_def)
  then show ?thesis using Mutex_excludes [OF mutex_example_reachable] by (metis One_nat_def less_2_cases_iff zero_neq_one)
qed

text \<open>
  C27: no wake-up is lost.  While a coroutine waits in the list, some coroutine that does not wait will
  unlock the mutex or wake a waiting one: it holds the lock, hands it over, has been woken and competes
  for it, or is in \<open>unlock\<close> and has the right to wake someone; and a coroutine that does not wait can
  always make a step.
\<close>
theorem Mutex_no_lost_wakeup:
  assumes "mutex_next\<^sup>*\<^sup>* (new_Mutex n) m"
  shows "((\<exists>j<length (pcs m). is_M_waiting (pcs m ! j)) \<longrightarrow>
      (\<exists>i<length (pcs m). pcs m ! i = M_own \<or> is_M_handoff (pcs m ! i) \<or> is_M_woken (pcs m ! i) \<or> is_awoke (pcs m ! i) \<or>
        pcs m ! i = M_posting \<or> pcs m ! i = M_unlock_load \<or> pcs m ! i = M_unlocking (state m))) \<and>
    (\<forall>i<length (pcs m). \<not> is_M_waiting (pcs m ! i) \<longrightarrow> (\<exists>m'. mutex_step i m (Some m')))"
proof (intro conjI impI)
  have inv: "mutex_inv m" using mutex_reachable_inv [OF assms new_Mutex_inv] .
  then obtain L W S w where m: "state m = enc L W S w" "counts L W S w m" "list_ok m"
    "\<not> L \<and> \<not> W \<and> \<not> S \<and> 0 < w \<longrightarrow> unlocker m" by (rule mutex_invE)
  show "\<forall>i<length (pcs m). \<not> is_M_waiting (pcs m ! i) \<longrightarrow> (\<exists>m'. mutex_step i m (Some m'))"
    using mutex_do_step mutex_step_inv [OF _ inv] by metis
  assume "\<exists>j<length (pcs m). is_M_waiting (pcs m ! j)"
  then obtain j where j: "j < length (pcs m)" "is_M_waiting (pcs m ! j)" by blast
  then have "j \<in> set (waitRoutines m)" using m(3) by (simp add: list_ok_def)
  then have "waitRoutines m \<noteq> []" by (metis empty_iff empty_set)
  then have "\<not> dontWait m" using m(3) by (simp add: list_ok_def)
  then have d: "d_wait m = 0" by simp
  have wt: "1 \<le> n_waiting m" "0 \<le> n_wait m" "0 \<le> n_woken m" "0 \<le> n_handoff m" "0 \<le> n_awoke m" "0 \<le> n_posting m"
    using cnt_pos [OF j(1), of is_M_waiting] j(2) by simp_all
  have "0 < n_own m \<or> 0 < n_handoff m \<or> 0 < n_woken m \<or> 0 < n_awoke m \<or> 0 < n_posting m \<or> unlocker m"
    by (rule active_coroutine [OF m(2) d wt m(4)])
  then show "\<exists>i<length (pcs m). pcs m ! i = M_own \<or> is_M_handoff (pcs m ! i) \<or> is_M_woken (pcs m ! i) \<or> is_awoke (pcs m ! i) \<or>
        pcs m ! i = M_posting \<or> pcs m ! i = M_unlock_load \<or> pcs m ! i = M_unlocking (state m)"
    unfolding unlocker_def by (elim disjE) (blast dest: cnt_pos_ex)+
qed

theorem Mutex_no_lost_wakeup_witness:
  "is_M_waiting (pcs mutex_example ! 1) \<and>
   (\<exists>i<2. pcs mutex_example ! i = M_own \<or> is_M_handoff (pcs mutex_example ! i) \<or> is_M_woken (pcs mutex_example ! i) \<or>
      is_awoke (pcs mutex_example ! i) \<or> pcs mutex_example ! i = M_posting \<or> pcs mutex_example ! i = M_unlock_load \<or>
      pcs mutex_example ! i = M_unlocking (state mutex_example)) \<and>
   (\<exists>m'. mutex_step 0 mutex_example (Some m'))"
proof -
  have e: "length (pcs mutex_example) = 2" "is_M_waiting (pcs mutex_example ! 1)" "\<not> is_M_waiting (pcs mutex_example ! 0)"
    by (simp_all add: mutex_example_def)
  have "(0::nat) < 2" "(1::nat) < 2" by simp_all
  then show ?thesis using Mutex_no_lost_wakeup [OF mutex_example_reachable] e unfolding e(1) by blast
qed

end
