(* ===== verification/Handshake.thy ===== *)
theory Handshake
  imports Pipeline
begin

text \<open>
  The handshake of the UDP transports: \<open>UdpClient::connect\<close> of \<open>corpc_message_client.cpp\<close> against
  \<open>UdpAcceptor\<close> of \<open>corpc_io.cpp\<close>, which answers on the listening socket and runs one coroutine per
  client on a socket of its own.  System calls are arguments: what they return.

  The network keeps every datagram that was ever sent; a receiver gets any of them, or none, so that
  datagrams may be lost, repeated and overtake each other, but not be invented.
\<close>

section \<open>Addresses\<close>

datatype sockaddr_in = Sockaddr (s_addr: u32) (sin_port: u16)

instantiation sockaddr_in :: linorder
begin

definition less_sockaddr_in :: "sockaddr_in \<Rightarrow> sockaddr_in \<Rightarrow> bool" where
  "less_sockaddr_in s1 s2 =
     (if s_addr s1 \<noteq> s_addr s2 then s_addr s1 < s_addr s2
      else if sin_port s1 \<noteq> sin_port s2 then sin_port s1 < sin_port s2
      else False)"

definition less_eq_sockaddr_in :: "sockaddr_in \<Rightarrow> sockaddr_in \<Rightarrow> bool" where
  "less_eq_sockaddr_in s1 s2 \<longleftrightarrow> s1 = s2 \<or> s1 < s2"

instance
  by standard (auto simp: less_sockaddr_in_def less_eq_sockaddr_in_def sockaddr_in.expand split: if_splits)

end

section \<open>Messages\<close>

definition CORPC_MSG_TYPE_UDP_UNSHAKE :: u32 where "CORPC_MSG_TYPE_UDP_UNSHAKE = -110"

text \<open>\<open>tmp = htobe32(type); memcpy(buf, &tmp, sizeof(tmp))\<close> on a buffer of the handshake's size.\<close>

definition shakemsg :: "endian \<Rightarrow> u32 \<Rightarrow> byte list" where
  "shakemsg e t = host_bytes e 4 (htobe32 e t)"

abbreviation "shakemsg1 e \<equiv> shakemsg e CORPC_MSG_TYPE_UDP_HANDSHAKE_1"
abbreviation "shakemsg2 e \<equiv> shakemsg e CORPC_MSG_TYPE_UDP_HANDSHAKE_2"
abbreviation "shakemsg3 e \<equiv> shakemsg e CORPC_MSG_TYPE_UDP_HANDSHAKE_3"
abbreviation "shakemsg4 e \<equiv> shakemsg e CORPC_MSG_TYPE_UDP_HANDSHAKE_4"
abbreviation "unshakemsg e \<equiv> shakemsg e CORPC_MSG_TYPE_UDP_UNSHAKE"

text \<open>What \<open>read\<close> returns: the bytes of a datagram, or -1 with an \<open>errno\<close>.\<close>

datatype errno = EAGAIN | EINTR | EOTHER

datatype read_result = Read_bytes "byte list" | Read_error errno

fun read_ret :: "read_result \<Rightarrow> int" where
  "read_ret (Read_bytes bs) = int (length bs)"
| "read_ret (Read_error _) = -1"

fun read_buf :: "read_result \<Rightarrow> byte list" where
  "read_buf (Read_bytes bs) = bs"
| "read_buf (Read_error _) = []"

section \<open>The client\<close>

text \<open>
  Where \<open>connect\<close> is: about to write message 1 or 3, polling for the answer (until the time given), or
  back at the caller with the result.  \<open>uc_socket\<close> tells whether the socket is open.
\<close>

datatype client_pc = C_out | C_step1 | C_poll1 u64 | C_step2 | C_poll2 u64 | C_connected | C_failed

record UdpClient =
  uc_pc :: client_pc
  uc_socket :: bool

definition new_UdpClient :: UdpClient where
  "new_UdpClient = \<lparr>uc_pc = C_out, uc_socket = False\<rparr>"

definition close_fail :: "UdpClient \<Rightarrow> UdpClient" where
  "close_fail c = c\<lparr>uc_pc := C_failed, uc_socket := False\<rparr>"

text \<open>
  Up to the first message; the arguments are the results of \<open>socket\<close>, \<open>bind\<close> and \<open>::connect\<close>.  An earlier
  connection that is no longer open has closed its socket.
\<close>

definition udp_connect :: "bool \<Rightarrow> int \<Rightarrow> int \<Rightarrow> int \<Rightarrow> UdpClient \<Rightarrow> UdpClient" where
  "udp_connect isOpen s bound conn c =
     (if isOpen then c
      else if s = -1 then close_fail c
      else let c = c\<lparr>uc_socket := True\<rparr> in
        if bound = -1 then close_fail c
        else if conn = -1 then close_fail c
        else c\<lparr>uc_pc := C_step1\<rparr>)"

text \<open>Writing message 1 or 3: the datagram that leaves, if \<open>write\<close> returned its size.\<close>

definition udp_step1 :: "endian \<Rightarrow> int \<Rightarrow> u64 \<Rightarrow> UdpClient \<Rightarrow> UdpClient \<times> byte list list" where
  "udp_step1 e ret nowms c =
     (if ret \<noteq> int CORPC_UDP_HANDSHAKE_SIZE then (close_fail c, [])
      else (c\<lparr>uc_pc := C_poll1 (nowms + 1000)\<rparr>, [shakemsg1 e]))"

definition udp_step2 :: "endian \<Rightarrow> int \<Rightarrow> u64 \<Rightarrow> UdpClient \<Rightarrow> UdpClient \<times> byte list list" where
  "udp_step2 e ret nowms c =
     (if ret \<noteq> int CORPC_UDP_HANDSHAKE_SIZE then (close_fail c, [])
      else (c\<lparr>uc_pc := C_poll2 (nowms + 100)\<rparr>, [shakemsg3 e]))"

text \<open>\<open>poll\<close> failed (with the time afterwards), timed out, or there is something to read.\<close>

datatype poll_result = Poll_error errno u64 | Poll_timeout | Poll_ready read_result

definition udp_poll1 :: "endian \<Rightarrow> u64 \<Rightarrow> poll_result \<Rightarrow> UdpClient \<Rightarrow> UdpClient" where
  "udp_poll1 e pollEndAt r c =
     (case r of
        Poll_error err nowms \<Rightarrow>
          if err = EAGAIN \<or> err = EINTR then
            (if nowms < pollEndAt then c else c\<lparr>uc_pc := C_step1\<rparr>)
          else close_fail c
      | Poll_timeout \<Rightarrow> c\<lparr>uc_pc := C_step1\<rparr>
      | Poll_ready rd \<Rightarrow>
          if read_ret rd \<noteq> int CORPC_UDP_HANDSHAKE_SIZE then close_fail c
          else if get32 e (read_buf rd) 0 \<noteq> CORPC_MSG_TYPE_UDP_HANDSHAKE_2 then close_fail c
          else c\<lparr>uc_pc := C_step2\<rparr>)"

definition udp_poll2 :: "endian \<Rightarrow> u64 \<Rightarrow> poll_result \<Rightarrow> UdpClient \<Rightarrow> UdpClient" where
  "udp_poll2 e pollEndAt r c =
     (case r of
        Poll_error err nowms \<Rightarrow>
          if err = EAGAIN \<or> err = EINTR then
            (if nowms < pollEndAt then c else c\<lparr>uc_pc := C_step2\<rparr>)
          else close_fail c
      | Poll_timeout \<Rightarrow> c\<lparr>uc_pc := C_step2\<rparr>
      | Poll_ready rd \<Rightarrow>
          if read_ret rd \<noteq> int CORPC_UDP_HANDSHAKE_SIZE then close_fail c
          else if get32 e (read_buf rd) 0 = CORPC_MSG_TYPE_UDP_HANDSHAKE_2 then c\<lparr>uc_pc := C_step2\<rparr>
          else if get32 e (read_buf rd) 0 \<noteq> CORPC_MSG_TYPE_UDP_HANDSHAKE_4 then close_fail c
          else c\<lparr>uc_pc := C_connected\<rparr>)"

section \<open>The server\<close>

text \<open>
  A coroutine of \<open>handshakeRoutine\<close>: waiting for message 3, after message 4 and about to build the
  connection, or ended, with a connection, with the socket closed, or because of too many tries; and
  \<open>S_ended\<close> once the connection that it built has come to its end.
\<close>

datatype shake_pc = S_wait3 | S_shake4 | S_built | S_ended | S_closed | S_gaveup

record ShakeRoutine =
  sh_addr :: sockaddr_in
  sh_pc :: shake_pc
  trytimes :: nat
  waittime :: int
  sh_socket :: bool

record UdpAcceptor =
  shakingClient :: "sockaddr_in set"
  shakes :: "ShakeRoutine list"

definition new_UdpAcceptor :: UdpAcceptor where
  "new_UdpAcceptor = \<lparr>shakingClient = {}, shakes = []\<rparr>"

text \<open>The head of the loop: give up, or write message 2 (\<open>ret\<close>) and go on to read the answer.\<close>

definition shake_loop :: "endian \<Rightarrow> int \<Rightarrow> ShakeRoutine \<Rightarrow> ShakeRoutine \<times> byte list list" where
  "shake_loop e ret r =
     (if trytimes r > 0 then
        (if ret \<noteq> int CORPC_UDP_HANDSHAKE_SIZE then (r\<lparr>sh_pc := S_closed, sh_socket := False\<rparr>, [])
         else (r\<lparr>sh_pc := S_wait3\<rparr>, [shakemsg2 e]))
      else (r\<lparr>sh_pc := S_gaveup\<rparr>, []))"

text \<open>The answer; \<open>ret4\<close> is the result of writing message 4, \<open>ret2\<close> that of the next message 2.\<close>

definition shake_read :: "endian \<Rightarrow> read_result \<Rightarrow> int \<Rightarrow> int \<Rightarrow> ShakeRoutine \<Rightarrow> ShakeRoutine \<times> byte list list" where
  "shake_read e rd ret4 ret2 r =
     (if read_ret rd \<noteq> int CORPC_UDP_HANDSHAKE_SIZE then
        (if read_ret rd < 0 \<and> rd = Read_error EAGAIN then
           shake_loop e ret2 (r\<lparr>waittime := 2 * waittime r, trytimes := trytimes r - 1\<rparr>)
         else (r\<lparr>sh_pc := S_closed, sh_socket := False\<rparr>, []))
      else if get32 e (read_buf rd) 0 \<noteq> CORPC_MSG_TYPE_UDP_HANDSHAKE_3 then shake_loop e ret2 r
      else if ret4 \<noteq> int CORPC_UDP_HANDSHAKE_SIZE then (r\<lparr>sh_pc := S_closed, sh_socket := False\<rparr>, [])
      else (r\<lparr>sh_pc := S_shake4\<rparr>, [shakemsg4 e]))"

definition shake_build :: "ShakeRoutine \<Rightarrow> ShakeRoutine" where
  "shake_build r = r\<lparr>sh_pc := S_built\<rparr>"

text \<open>The end of the connection closes the socket.\<close>

definition end_conn :: "ShakeRoutine \<Rightarrow> ShakeRoutine" where
  "end_conn r = r\<lparr>sh_pc := S_ended, sh_socket := False\<rparr>"

definition shaking :: "shake_pc \<Rightarrow> bool" where
  "shaking pc \<longleftrightarrow> pc = S_wait3 \<or> pc = S_shake4"

text \<open>A coroutine that has ended removes its client from the set of clients in the handshake.\<close>

definition put_shake :: "nat \<Rightarrow> ShakeRoutine \<Rightarrow> UdpAcceptor \<Rightarrow> UdpAcceptor" where
  "put_shake i r a =
     a\<lparr>shakes := (shakes a)[i := r],
       shakingClient := (if shaking (sh_pc r) then shakingClient a else shakingClient a - {sh_addr r})\<rparr>"

text \<open>
  \<open>handshakeRoutine\<close> starts at once, in the middle of \<open>acceptRoutine\<close>, and runs up to its first \<open>read\<close>;
  so \<open>shake_fd_\<close>, which the acceptor overwrites, still is the socket made for this client.
\<close>

definition handshakeRoutine :: "endian \<Rightarrow> sockaddr_in \<Rightarrow> int \<Rightarrow> UdpAcceptor \<Rightarrow> UdpAcceptor \<times> byte list list" where
  "handshakeRoutine e client_addr ret a =
     (let (r, out) = shake_loop e ret \<lparr>sh_addr = client_addr, sh_pc = S_wait3, trytimes = 4, waittime = 1000, sh_socket = True\<rparr>;
          a = a\<lparr>shakes := shakes a @ [r]\<rparr>
      in (put_shake (length (shakes a) - 1) r a, out))"

text \<open>One turn of \<open>acceptRoutine\<close>; \<open>conn\<close> tells whether \<open>bind\<close> and \<open>connect\<close> of the new socket succeed.\<close>

definition acceptRoutine :: "endian \<Rightarrow> read_result \<Rightarrow> sockaddr_in \<Rightarrow> bool \<Rightarrow> int \<Rightarrow> UdpAcceptor \<Rightarrow> UdpAcceptor \<times> byte list list" where
  "acceptRoutine e rd client_addr conn ret a =
     (if read_ret rd \<noteq> int CORPC_UDP_HANDSHAKE_SIZE then (a, [unshakemsg e])
      else let msgType = get32 e (read_buf rd) 0 in
        if msgType \<noteq> CORPC_MSG_TYPE_UDP_HANDSHAKE_1 then
          (if msgType = CORPC_MSG_TYPE_UDP_HANDSHAKE_3 then (a, [shakemsg2 e]) else (a, []))
        else if client_addr \<in> shakingClient a then (a, [])
        else if \<not> conn then (a, [])
        else handshakeRoutine e client_addr ret (a\<lparr>shakingClient := insert client_addr (shakingClient a)\<rparr>))"

section \<open>Clients, server and network\<close>

record Udp =
  uclients :: "sockaddr_in \<Rightarrow> UdpClient"
  acceptor :: UdpAcceptor
  to_server :: "(sockaddr_in \<times> byte list) set"
  to_client :: "(sockaddr_in \<times> byte list) set"

definition new_Udp :: Udp where
  "new_Udp = \<lparr>uclients = (\<lambda>_. new_UdpClient), acceptor = new_UdpAcceptor, to_server = {}, to_client = {}\<rparr>"

definition client_does :: "sockaddr_in \<Rightarrow> UdpClient \<times> byte list list \<Rightarrow> Udp \<Rightarrow> Udp" where
  "client_does a r u = u\<lparr>uclients := (uclients u)(a := fst r), to_server := to_server u \<union> Pair a ` set (snd r)\<rparr>"

definition server_does :: "sockaddr_in \<Rightarrow> UdpAcceptor \<times> byte list list \<Rightarrow> Udp \<Rightarrow> Udp" where
  "server_does a r u = u\<lparr>acceptor := fst r, to_client := to_client u \<union> Pair a ` set (snd r)\<rparr>"

text \<open>What a socket may get to read: an error, or a datagram that was sent to it.\<close>

fun readable :: "(sockaddr_in \<times> byte list) set \<Rightarrow> sockaddr_in \<Rightarrow> read_result \<Rightarrow> bool" where
  "readable net a (Read_bytes bs) \<longleftrightarrow> (a, bs) \<in> net"
| "readable net a (Read_error _) \<longleftrightarrow> True"

definition pollable :: "(sockaddr_in \<times> byte list) set \<Rightarrow> sockaddr_in \<Rightarrow> poll_result \<Rightarrow> bool" where
  "pollable net a r \<longleftrightarrow> (\<forall>rd. r = Poll_ready rd \<longrightarrow> readable net a rd)"

text \<open>
  A socket with a connection is read by \<open>UdpPipeline::upflow\<close>, which answers message 3; whatever else it
  sends is a message with a head, longer than the handshake's.
\<close>

definition sent_by :: "byte list list \<Rightarrow> byte list \<Rightarrow> int \<times> byte list list" where
  "sent_by out bs = (int (length bs), out @ [bs])"

inductive udp_step :: "(sockaddr_in \<Rightarrow> endian) \<Rightarrow> endian \<Rightarrow> Udp \<Rightarrow> Udp \<Rightarrow> bool" for ec es where
  call_connect: "uc_pc (uclients u a) \<in> {C_out, C_failed, C_connected} \<Longrightarrow>
    udp_step ec es u (client_does a (udp_connect isOpen s bound conn (uclients u a), []) u)"
| write1: "uc_pc (uclients u a) = C_step1 \<Longrightarrow>
    udp_step ec es u (client_does a (udp_step1 (ec a) ret now (uclients u a)) u)"
| poll1: "uc_pc (uclients u a) = C_poll1 t \<Longrightarrow> pollable (to_client u) a r \<Longrightarrow>
    udp_step ec es u (client_does a (udp_poll1 (ec a) t r (uclients u a), []) u)"
| write3: "uc_pc (uclients u a) = C_step2 \<Longrightarrow>
    udp_step ec es u (client_does a (udp_step2 (ec a) ret now (uclients u a)) u)"
| poll2: "uc_pc (uclients u a) = C_poll2 t \<Longrightarrow> pollable (to_client u) a r \<Longrightarrow>
    udp_step ec es u (client_does a (udp_poll2 (ec a) t r (uclients u a), []) u)"
| client_talks: "uc_pc (uclients u a) = C_connected \<Longrightarrow> length bs \<noteq> CORPC_UDP_HANDSHAKE_SIZE \<Longrightarrow>
    udp_step ec es u (client_does a (uclients u a, [bs]) u)"
| client_upflow: "uc_pc (uclients u a) = C_connected \<Longrightarrow> (a, bs) \<in> to_client u \<Longrightarrow>
    length bs = CORPC_UDP_HANDSHAKE_SIZE \<Longrightarrow> udp_answer_handshake (ec a) sent_by bs [] = Some (out, ok) \<Longrightarrow>
    udp_step ec es u (client_does a (uclients u a, out) u)"
| accept: "readable (to_server u) a rd \<Longrightarrow>
    udp_step ec es u (server_does a (acceptRoutine es rd a conn ret (acceptor u)) u)"
| shake: "i < length (shakes (acceptor u)) \<Longrightarrow> r = shakes (acceptor u) ! i \<Longrightarrow> sh_pc r = S_wait3 \<Longrightarrow>
    readable (to_server u) (sh_addr r) rd \<Longrightarrow> shake_read es rd ret4 ret2 r = (r', out) \<Longrightarrow>
    udp_step ec es u (server_does (sh_addr r) (put_shake i r' (acceptor u), out) u)"
| build: "i < length (shakes (acceptor u)) \<Longrightarrow> r = shakes (acceptor u) ! i \<Longrightarrow> sh_pc r = S_shake4 \<Longrightarrow>
    udp_step ec es u (server_does (sh_addr r) (put_shake i (shake_build r) (acceptor u), []) u)"
| server_talks: "r \<in> set (shakes (acceptor u)) \<Longrightarrow> sh_pc r = S_built \<Longrightarrow> length bs \<noteq> CORPC_UDP_HANDSHAKE_SIZE \<Longrightarrow>
    udp_step ec es u (server_does (sh_addr r) (acceptor u, [bs]) u)"
| server_upflow: "r \<in> set (shakes (acceptor u)) \<Longrightarrow> sh_pc r = S_built \<Longrightarrow> (sh_addr r, bs) \<in> to_server u \<Longrightarrow>
    length bs = CORPC_UDP_HANDSHAKE_SIZE \<Longrightarrow> udp_answer_handshake es sent_by bs [] = Some (out, ok) \<Longrightarrow>
    udp_step ec es u (server_does (sh_addr r) (acceptor u, out) u)"
| client_end: "uc_pc (uclients u a) = C_connected \<Longrightarrow>
    udp_step ec es u (client_does a ((uclients u a)\<lparr>uc_pc := C_out, uc_socket := False\<rparr>, []) u)"
| server_end: "i < length (shakes (acceptor u)) \<Longrightarrow> r = shakes (acceptor u) ! i \<Longrightarrow> sh_pc r = S_built \<Longrightarrow>
    udp_step ec es u (server_does (sh_addr r) ((acceptor u)\<lparr>shakes := (shakes (acceptor u))[i := end_conn r]\<rparr>, []) u)"

section \<open>Lemmas\<close>

text \<open>A message of the handshake has the same bytes on every host.\<close>

lemmas handshake_types =
  CORPC_MSG_TYPE_UDP_HANDSHAKE_1_def CORPC_MSG_TYPE_UDP_HANDSHAKE_2_def CORPC_MSG_TYPE_UDP_HANDSHAKE_3_def
  CORPC_MSG_TYPE_UDP_HANDSHAKE_4_def CORPC_MSG_TYPE_UDP_UNSHAKE_def

lemma handshake_types_distinct [simp]:
  "distinct [CORPC_MSG_TYPE_UDP_HANDSHAKE_1, CORPC_MSG_TYPE_UDP_HANDSHAKE_2, CORPC_MSG_TYPE_UDP_HANDSHAKE_3,
     CORPC_MSG_TYPE_UDP_HANDSHAKE_4, CORPC_MSG_TYPE_UDP_UNSHAKE]"
  by (simp add: handshake_types)

lemma shakemsg_eq: "shakemsg e t = be_bytes 4 t"
  by (simp add: shakemsg_def wire_simps)

lemma length_shakemsg [simp]: "length (shakemsg e t) = CORPC_UDP_HANDSHAKE_SIZE"
  by (simp add: shakemsg_eq CORPC_UDP_HANDSHAKE_SIZE_def)

lemma get32_shakemsg [simp]: "get32 e (shakemsg e' t) 0 = t"
  by (simp add: shakemsg_eq get32_eq buf_read_def of_be_be_bytes)

lemma get32_any: "length bs = CORPC_UDP_HANDSHAKE_SIZE \<Longrightarrow> get32 e bs 0 = of_be_bytes bs"
  by (simp add: get32_eq buf_read_def CORPC_UDP_HANDSHAKE_SIZE_def)

lemma answer_handshake_eq:
  "udp_answer_handshake e sent_by bs [] =
     Some (if get32 e bs 0 = CORPC_MSG_TYPE_UDP_HANDSHAKE_3 then [shakemsg4 e] else [], True)"
  by (simp add: udp_answer_handshake_def put32_def memcpy_def shakemsg_def sent_by_def CORPC_UDP_HANDSHAKE_SIZE_def buf_write_def)

section \<open>Invariant\<close>

definition has_sent :: "(sockaddr_in \<times> byte list) set \<Rightarrow> sockaddr_in \<Rightarrow> u32 \<Rightarrow> bool" where
  "has_sent net a t \<longleftrightarrow> (\<exists>bs. (a, bs) \<in> net \<and> length bs = CORPC_UDP_HANDSHAKE_SIZE \<and> of_be_bytes bs = t)"

definition accepts :: "sockaddr_in \<Rightarrow> ShakeRoutine \<Rightarrow> bool" where
  "accepts a r \<longleftrightarrow> sh_addr r = a \<and> (sh_pc r = S_shake4 \<or> sh_pc r = S_built)"

definition accepted :: "UdpAcceptor \<Rightarrow> sockaddr_in \<Rightarrow> bool" where
  "accepted ac a \<longleftrightarrow> (\<exists>r\<in>set (shakes ac). accepts a r)"

text \<open>The coroutine has answered message 3, even if the connection it built has ended since.\<close>

definition answered :: "sockaddr_in \<Rightarrow> ShakeRoutine \<Rightarrow> bool" where
  "answered a r \<longleftrightarrow> sh_addr r = a \<and> (sh_pc r = S_shake4 \<or> sh_pc r = S_built \<or> sh_pc r = S_ended)"

definition was_accepted :: "UdpAcceptor \<Rightarrow> sockaddr_in \<Rightarrow> bool" where
  "was_accepted ac a \<longleftrightarrow> (\<exists>r\<in>set (shakes ac). answered a r)"

text \<open>Messages 4 go to accepted clients, messages 3 come from clients that were sent a message 2.\<close>

definition to_client_ok :: "Udp \<Rightarrow> bool" where
  "to_client_ok u \<longleftrightarrow> (\<forall>a t. has_sent (to_client u) a t \<longrightarrow>
     t = CORPC_MSG_TYPE_UDP_HANDSHAKE_2 \<or> t = CORPC_MSG_TYPE_UDP_UNSHAKE \<or>
     t = CORPC_MSG_TYPE_UDP_HANDSHAKE_4 \<and> was_accepted (acceptor u) a)"

definition to_server_ok :: "Udp \<Rightarrow> bool" where
  "to_server_ok u \<longleftrightarrow> (\<forall>a t. has_sent (to_server u) a t \<longrightarrow>
     t = CORPC_MSG_TYPE_UDP_HANDSHAKE_1 \<or>
     t = CORPC_MSG_TYPE_UDP_HANDSHAKE_3 \<and> has_sent (to_client u) a CORPC_MSG_TYPE_UDP_HANDSHAKE_2)"

fun client_ok :: "(u32 \<Rightarrow> bool) \<Rightarrow> client_pc \<Rightarrow> bool \<Rightarrow> bool" where
  "client_ok got C_out sock = (\<not> sock)"
| "client_ok got C_step1 sock = sock"
| "client_ok got (C_poll1 _) sock = sock"
| "client_ok got C_step2 sock = (sock \<and> got CORPC_MSG_TYPE_UDP_HANDSHAKE_2)"
| "client_ok got (C_poll2 _) sock = (sock \<and> got CORPC_MSG_TYPE_UDP_HANDSHAKE_2)"
| "client_ok got C_connected sock = (sock \<and> got CORPC_MSG_TYPE_UDP_HANDSHAKE_4)"
| "client_ok got C_failed sock = (\<not> sock)"

definition routine_ok :: "(sockaddr_in \<times> byte list) set \<Rightarrow> ShakeRoutine \<Rightarrow> bool" where
  "routine_ok net r \<longleftrightarrow>
     (answered (sh_addr r) r \<longrightarrow> has_sent net (sh_addr r) CORPC_MSG_TYPE_UDP_HANDSHAKE_3) \<and>
     (sh_socket r \<longleftrightarrow> sh_pc r \<noteq> S_closed \<and> sh_pc r \<noteq> S_ended) \<and> (sh_pc r = S_wait3 \<longrightarrow> trytimes r > 0) \<and> trytimes r \<le> 4 \<and> waittime r * 2 ^ trytimes r = 16000"

definition shaking_ok :: "UdpAcceptor \<Rightarrow> bool" where
  "shaking_ok ac \<longleftrightarrow>
     shakingClient ac = sh_addr ` {r \<in> set (shakes ac). shaking (sh_pc r)} \<and>
     (\<forall>i<length (shakes ac). \<forall>j<length (shakes ac). shaking (sh_pc (shakes ac ! i)) \<longrightarrow> shaking (sh_pc (shakes ac ! j)) \<longrightarrow>
        sh_addr (shakes ac ! i) = sh_addr (shakes ac ! j) \<longrightarrow> i = j)"

definition udp_inv :: "Udp \<Rightarrow> bool" where
  "udp_inv u \<longleftrightarrow> to_client_ok u \<and> to_server_ok u
     \<and> (\<forall>a. client_ok (has_sent (to_client u) a) (uc_pc (uclients u a)) (uc_socket (uclients u a)))
     \<and> (\<forall>r\<in>set (shakes (acceptor u)). routine_ok (to_server u) r) \<and> shaking_ok (acceptor u)"

lemma new_Udp_inv: "udp_inv new_Udp"
  by (simp add: udp_inv_def new_Udp_def to_client_ok_def to_server_ok_def has_sent_def new_UdpClient_def new_UdpAcceptor_def shaking_ok_def)

lemma has_sent_add:
  "has_sent (net \<union> Pair b ` set out) a t \<longleftrightarrow>
     has_sent net a t \<or> a = b \<and> (\<exists>bs\<in>set out. length bs = CORPC_UDP_HANDSHAKE_SIZE \<and> of_be_bytes bs = t)"
  by (auto simp: has_sent_def)

lemma of_be_shakemsg [simp]: "of_be_bytes (shakemsg e t) = t"
  by (simp add: shakemsg_eq of_be_be_bytes)

lemma client_ok_mono: "client_ok got pc sock \<Longrightarrow> (\<And>t. got t \<Longrightarrow> got' t) \<Longrightarrow> client_ok got' pc sock"
  by (cases pc) auto

lemma client_does_inv:
  assumes inv: "udp_inv u"
    and c: "client_ok (has_sent (to_client u) a) (uc_pc c) (uc_socket c)"
    and out: "\<And>bs. bs \<in> set out \<Longrightarrow> length bs = CORPC_UDP_HANDSHAKE_SIZE \<Longrightarrow>
      of_be_bytes bs = CORPC_MSG_TYPE_UDP_HANDSHAKE_1 \<or>
      of_be_bytes bs = CORPC_MSG_TYPE_UDP_HANDSHAKE_3 \<and> has_sent (to_client u) a CORPC_MSG_TYPE_UDP_HANDSHAKE_2"
  shows "udp_inv (client_does a (c, out) u)"
proof -
  have "to_server_ok (client_does a (c, out) u)"
    using inv out unfolding udp_inv_def to_server_ok_def client_does_def by (auto simp: has_sent_add)
  moreover have "routine_ok (to_server u \<union> Pair a ` set out) r" if "routine_ok (to_server u) r" for r
    using that unfolding routine_ok_def has_sent_add by blast
  ultimately show ?thesis
    using inv c unfolding udp_inv_def by (simp add: client_does_def to_client_ok_def)
qed

lemma server_does_inv:
  assumes inv: "udp_inv u"
    and ac: "\<forall>r\<in>set (shakes ac). routine_ok (to_server u) r" "shaking_ok ac"
    and mono: "\<And>b. was_accepted (acceptor u) b \<Longrightarrow> was_accepted ac b"
    and out: "\<And>bs. bs \<in> set out \<Longrightarrow> length bs = CORPC_UDP_HANDSHAKE_SIZE \<Longrightarrow>
      of_be_bytes bs = CORPC_MSG_TYPE_UDP_HANDSHAKE_2 \<or> of_be_bytes bs = CORPC_MSG_TYPE_UDP_UNSHAKE \<or>
      of_be_bytes bs = CORPC_MSG_TYPE_UDP_HANDSHAKE_4 \<and> was_accepted ac a"
  shows "udp_inv (server_does a (ac, out) u)"
proof -
  have "to_client_ok (server_does a (ac, out) u)"
    using inv out mono unfolding udp_inv_def to_client_ok_def server_does_def by (auto simp: has_sent_add)
  moreover have "to_server_ok (server_does a (ac, out) u)"
    using inv unfolding udp_inv_def to_server_ok_def server_does_def by (auto simp: has_sent_add)
  moreover have "client_ok (has_sent (to_client u \<union> Pair a ` set out) b) (uc_pc (uclients u b)) (uc_socket (uclients u b))" for b
    by (rule client_ok_mono [of "has_sent (to_client u) b"]) (use inv in \<open>auto simp: udp_inv_def has_sent_add\<close>)
  ultimately show ?thesis
    using ac unfolding udp_inv_def by (simp add: server_does_def)
qed

section \<open>Every step keeps the invariant\<close>

lemma udp_invD:
  assumes "udp_inv u"
  shows "to_client_ok u" "to_server_ok u"
    "client_ok (has_sent (to_client u) a) (uc_pc (uclients u a)) (uc_socket (uclients u a))"
    "r \<in> set (shakes (acceptor u)) \<Longrightarrow> routine_ok (to_server u) r" "shaking_ok (acceptor u)"
  using assms by (auto simp: udp_inv_def)

lemma readable_has_sent:
  "readable net a rd \<Longrightarrow> read_ret rd = int CORPC_UDP_HANDSHAKE_SIZE \<Longrightarrow> has_sent net a (get32 e (read_buf rd) 0)"
  by (cases rd) (auto simp: has_sent_def get32_any CORPC_UDP_HANDSHAKE_SIZE_def)

lemma poll1_ok:
  assumes "client_ok got (uc_pc c) (uc_socket c)" "uc_pc c = C_poll1 t" "pollable net a r"
    and "\<And>t. has_sent net a t \<Longrightarrow> got t"
  shows "client_ok got (uc_pc (udp_poll1 e t r c)) (uc_socket (udp_poll1 e t r c))"
  using assms readable_has_sent [of net a _ e]
  by (cases r) (fastforce simp: udp_poll1_def close_fail_def pollable_def)+

lemma poll2_ok:
  assumes "client_ok got (uc_pc c) (uc_socket c)" "uc_pc c = C_poll2 t" "pollable net a r"
    and "\<And>t. has_sent net a t \<Longrightarrow> got t"
  shows "client_ok got (uc_pc (udp_poll2 e t r c)) (uc_socket (udp_poll2 e t r c))"
  using assms readable_has_sent [of net a _ e]
  by (cases r) (fastforce simp: udp_poll2_def close_fail_def pollable_def)+

lemma put_shake_shaking_ok:
  assumes ok: "shaking_ok ac" and i: "i < length (shakes ac)" "shaking (sh_pc (shakes ac ! i))"
    and r: "sh_addr r = sh_addr (shakes ac ! i)"
  shows "shaking_ok (put_shake i r ac)"
proof -
  let ?xs = "shakes ac" and ?a = "sh_addr (shakes ac ! i)"
  have one: "j = i" if "j < length ?xs" "shaking (sh_pc (?xs ! j))" "sh_addr (?xs ! j) = ?a" for j
    using ok i that unfolding shaking_ok_def by blast
  have S: "x \<in> shakingClient ac \<longleftrightarrow> (\<exists>j<length ?xs. shaking (sh_pc (?xs ! j)) \<and> x = sh_addr (?xs ! j))" for x
    using ok unfolding shaking_ok_def by (auto simp: in_set_conv_nth)
  have S': "x \<in> sh_addr ` {q \<in> set (?xs[i := r]). shaking (sh_pc q)} \<longleftrightarrow>
      (\<exists>j<length ?xs. shaking (sh_pc (?xs[i := r] ! j)) \<and> x = sh_addr (?xs[i := r] ! j))" for x
    by (auto simp: in_set_conv_nth)
  have "x \<in> shakingClient (put_shake i r ac) \<longleftrightarrow> x \<in> sh_addr ` {q \<in> set (?xs[i := r]). shaking (sh_pc q)}" for x
  proof (cases "shaking (sh_pc r)")
    case True
    then show ?thesis
      unfolding S' put_shake_def using S r i by (auto simp: nth_list_update)
  next
    case False
    then show ?thesis
      unfolding S' put_shake_def using S r i one by (simp add: nth_list_update) metis
  qed
  then have "shakingClient (put_shake i r ac) = sh_addr ` {q \<in> set (shakes (put_shake i r ac)). shaking (sh_pc q)}"
    by (simp add: set_eq_iff put_shake_def)
  moreover have "\<forall>j<length ?xs. \<forall>k<length ?xs. shaking (sh_pc (?xs[i := r] ! j)) \<longrightarrow> shaking (sh_pc (?xs[i := r] ! k)) \<longrightarrow>
        sh_addr (?xs[i := r] ! j) = sh_addr (?xs[i := r] ! k) \<longrightarrow> j = k"
    using ok one r i unfolding shaking_ok_def by (simp add: nth_list_update) metis
  ultimately show ?thesis
    unfolding shaking_ok_def by (simp add: put_shake_def)
qed

lemma put_shake_accepted:
  assumes "was_accepted ac b" "i < length (shakes ac)" "sh_addr r = sh_addr (shakes ac ! i)"
    "answered b (shakes ac ! i) \<Longrightarrow> answered b r"
  shows "was_accepted (put_shake i r ac) b"
proof -
  obtain j where j: "j < length (shakes ac)" "answered b (shakes ac ! j)"
    using assms(1) by (auto simp: was_accepted_def in_set_conv_nth)
  then have "answered b ((shakes ac)[i := r] ! j)"
    using assms(2-4) by (auto simp: nth_list_update)
  then show ?thesis
    using j(1) nth_mem [of j "(shakes ac)[i := r]"] by (auto simp: was_accepted_def put_shake_def)
qed

lemma put_shake_routines:
  "\<forall>q\<in>set (shakes ac). routine_ok net q \<Longrightarrow> routine_ok net r \<Longrightarrow> \<forall>q\<in>set (shakes (put_shake i r ac)). routine_ok net q"
  using set_update_subset_insert [of "shakes ac" i r] by (auto simp: put_shake_def)

text \<open>What the loop and the answer leave behind.\<close>

lemma shake_loop_ok:
  assumes "shake_loop e ret r = (r', out)" "sh_socket r" "trytimes r \<le> 4" "waittime r * 2 ^ trytimes r = 16000"
  shows "sh_addr r' = sh_addr r" "routine_ok net r'" "\<not> answered b r'" "set out \<subseteq> {shakemsg2 e}"
  using assms by (auto simp: shake_loop_def routine_ok_def answered_def split: if_splits)

lemma power_step: "n > 0 \<Longrightarrow> (2 * w) * 2 ^ (n - 1) = w * (2::int) ^ n"
  by (cases n) auto

lemma shake_read_ok:
  assumes st: "shake_read e rd ret4 ret2 r = (r', out)" and ok: "routine_ok net r" and pc: "sh_pc r = S_wait3"
    and rd: "readable net (sh_addr r) rd"
  shows "sh_addr r' = sh_addr r" "routine_ok net r'"
    "bs \<in> set out \<Longrightarrow> bs = shakemsg2 e \<or> bs = shakemsg4 e \<and> answered (sh_addr r) r'"
proof -
  have r: "sh_socket r" "trytimes r \<le> 4" "waittime r * 2 ^ trytimes r = 16000" "trytimes r > 0"
    using ok pc by (simp_all add: routine_ok_def)
  have "sh_addr r' = sh_addr r \<and> routine_ok net r' \<and> (bs \<in> set out \<longrightarrow> bs = shakemsg2 e \<or> bs = shakemsg4 e \<and> answered (sh_addr r) r')"
  proof (cases "read_ret rd = int CORPC_UDP_HANDSHAKE_SIZE")
    case True
    then have h: "has_sent net (sh_addr r) (get32 e (read_buf rd) 0)"
      using rd by (rule readable_has_sent [rotated])
    show ?thesis
    proof (cases "get32 e (read_buf rd) 0 = CORPC_MSG_TYPE_UDP_HANDSHAKE_3")
      case True
      then show ?thesis
        using st r h \<open>read_ret rd = _\<close> by (auto simp: shake_read_def routine_ok_def answered_def split: if_splits)
    next
      case False
      then have "shake_loop e ret2 r = (r', out)"
        using st \<open>read_ret rd = _\<close> by (simp add: shake_read_def)
      from shake_loop_ok [OF this r(1-3)] show ?thesis by blast
    qed
  next
    case False
    show ?thesis
    proof (cases "rd = Read_error EAGAIN")
      case True
      let ?r = "r\<lparr>waittime := 2 * waittime r, trytimes := trytimes r - 1\<rparr>"
      have lp: "shake_loop e ret2 ?r = (r', out)"
        using st True by (simp add: shake_read_def CORPC_UDP_HANDSHAKE_SIZE_def)
      have "sh_socket ?r" "trytimes ?r \<le> 4" "waittime ?r * 2 ^ trytimes ?r = 16000"
        using r power_step [of "trytimes r" "waittime r"] by simp_all
      from shake_loop_ok [OF lp this] show ?thesis by auto
    next
      case False
      then show ?thesis
        using st \<open>read_ret rd \<noteq> _\<close> r by (auto simp: shake_read_def routine_ok_def answered_def)
    qed
  qed
  then show "sh_addr r' = sh_addr r" "routine_ok net r'"
    "bs \<in> set out \<Longrightarrow> bs = shakemsg2 e \<or> bs = shakemsg4 e \<and> answered (sh_addr r) r'"
    by blast+
qed

lemma shake_step_inv:
  assumes inv: "udp_inv u" and i: "i < length (shakes (acceptor u))" and pc: "sh_pc (shakes (acceptor u) ! i) = S_wait3"
    and rd: "readable (to_server u) (sh_addr (shakes (acceptor u) ! i)) rd"
    and st: "shake_read es rd ret4 ret2 (shakes (acceptor u) ! i) = (r', out)"
  shows "udp_inv (server_does (sh_addr (shakes (acceptor u) ! i)) (put_shake i r' (acceptor u), out) u)"
proof (rule server_does_inv [OF inv])
  let ?r = "shakes (acceptor u) ! i"
  have ok: "routine_ok (to_server u) ?r" using udp_invD(4) [OF inv] i by simp
  note r' = shake_read_ok [OF st ok pc rd]
  show "\<forall>r\<in>set (shakes (put_shake i r' (acceptor u))). routine_ok (to_server u) r"
    by (rule put_shake_routines) (use udp_invD(4) [OF inv] r'(2) in auto)
  show "shaking_ok (put_shake i r' (acceptor u))"
    using udp_invD(5) [OF inv] i _ r'(1) by (rule put_shake_shaking_ok) (simp add: pc shaking_def)
  show "was_accepted (acceptor u) b \<Longrightarrow> was_accepted (put_shake i r' (acceptor u)) b" for b
    by (rule put_shake_accepted [OF _ i r'(1)]) (use pc in \<open>auto simp: answered_def\<close>)
  have "answered a r' \<Longrightarrow> was_accepted (put_shake i r' (acceptor u)) a" for a
    using i by (auto simp: was_accepted_def put_shake_def intro: set_update_memI)
  then show "of_be_bytes bs = CORPC_MSG_TYPE_UDP_HANDSHAKE_2 \<or> of_be_bytes bs = CORPC_MSG_TYPE_UDP_UNSHAKE \<or>
      of_be_bytes bs = CORPC_MSG_TYPE_UDP_HANDSHAKE_4 \<and> was_accepted (put_shake i r' (acceptor u)) (sh_addr ?r)"
    if "bs \<in> set out" for bs
    using r'(3) [OF that] by auto
qed

lemma build_step_inv:
  assumes inv: "udp_inv u" and i: "i < length (shakes (acceptor u))" and pc: "sh_pc (shakes (acceptor u) ! i) = S_shake4"
  shows "udp_inv (server_does (sh_addr (shakes (acceptor u) ! i)) (put_shake i (shake_build (shakes (acceptor u) ! i)) (acceptor u), []) u)"
proof (rule server_does_inv [OF inv])
  let ?r = "shakes (acceptor u) ! i"
  have ok: "routine_ok (to_server u) ?r" using udp_invD(4) [OF inv] i by simp
  show "\<forall>r\<in>set (shakes (put_shake i (shake_build ?r) (acceptor u))). routine_ok (to_server u) r"
    by (rule put_shake_routines) (use udp_invD(4) [OF inv] ok pc in \<open>auto simp: routine_ok_def shake_build_def answered_def\<close>)
  show "shaking_ok (put_shake i (shake_build ?r) (acceptor u))"
    using udp_invD(5) [OF inv] i by (rule put_shake_shaking_ok) (simp_all add: pc shaking_def shake_build_def)
  show "was_accepted (acceptor u) b \<Longrightarrow> was_accepted (put_shake i (shake_build ?r) (acceptor u)) b" for b
    by (rule put_shake_accepted [OF _ i]) (use pc in \<open>auto simp: answered_def shake_build_def\<close>)
qed simp_all

lemma end_shaking_ok:
  assumes ok: "shaking_ok ac" and i: "i < length (shakes ac)" "\<not> shaking (sh_pc (shakes ac ! i))" and r: "\<not> shaking (sh_pc r)"
  shows "shaking_ok (ac\<lparr>shakes := (shakes ac)[i := r]\<rparr>)"
proof -
  let ?xs = "shakes ac"
  have same: "shaking (sh_pc (?xs[i := r] ! j)) \<longleftrightarrow> shaking (sh_pc (?xs ! j)) \<and> j \<noteq> i" if "j < length ?xs" for j
    using i r that by (auto simp: nth_list_update)
  have "x \<in> sh_addr ` {q \<in> set (?xs[i := r]). shaking (sh_pc q)} \<longleftrightarrow> x \<in> sh_addr ` {q \<in> set ?xs. shaking (sh_pc q)}" for x
    using i r by (simp add: in_set_conv_nth image_iff) (metis nth_list_update_eq nth_list_update_neq length_list_update)
  then show ?thesis
    using ok i r unfolding shaking_ok_def by (simp add: set_eq_iff nth_list_update)
qed

lemma end_step_inv:
  assumes inv: "udp_inv u" and i: "i < length (shakes (acceptor u))" and pc: "sh_pc (shakes (acceptor u) ! i) = S_built"
  shows "udp_inv (server_does (sh_addr (shakes (acceptor u) ! i))
    ((acceptor u)\<lparr>shakes := (shakes (acceptor u))[i := end_conn (shakes (acceptor u) ! i)]\<rparr>, []) u)"
proof (rule server_does_inv [OF inv])
  let ?r = "shakes (acceptor u) ! i"
  let ?ac = "(acceptor u)\<lparr>shakes := (shakes (acceptor u))[i := end_conn ?r]\<rparr>"
  have ok: "routine_ok (to_server u) ?r" using udp_invD(4) [OF inv] i by simp
  show "\<forall>r\<in>set (shakes ?ac). routine_ok (to_server u) r"
    using udp_invD(4) [OF inv] ok pc set_update_subset_insert [of "shakes (acceptor u)" i "end_conn ?r"]
    by (auto simp: routine_ok_def end_conn_def answered_def)
  show "shaking_ok ?ac"
    using udp_invD(5) [OF inv] i by (rule end_shaking_ok) (simp_all add: pc shaking_def end_conn_def)
  show "was_accepted (acceptor u) b \<Longrightarrow> was_accepted ?ac b" for b
    using put_shake_accepted [of "acceptor u" b i "end_conn ?r"] i pc
    by (auto simp: was_accepted_def put_shake_def end_conn_def answered_def)
qed simp_all

lemma append_shaking_ok:
  assumes ok: "shaking_ok ac" and r: "sh_addr r \<notin> shakingClient ac" and s: "shaking (sh_pc r)"
  shows "shaking_ok (ac\<lparr>shakes := shakes ac @ [r], shakingClient := insert (sh_addr r) (shakingClient ac)\<rparr>)"
proof -
  have "sh_addr q \<noteq> sh_addr r" if "q \<in> set (shakes ac)" "shaking (sh_pc q)" for q
    using ok r that unfolding shaking_ok_def by (metis (mono_tags, lifting) image_eqI mem_Collect_eq)
  then have n: "i < length (shakes ac) \<Longrightarrow> shaking (sh_pc (shakes ac ! i)) \<Longrightarrow> sh_addr (shakes ac ! i) \<noteq> sh_addr r" for i
    by simp
  have "insert (sh_addr r) (shakingClient ac) = sh_addr ` {q \<in> set (shakes ac @ [r]). shaking (sh_pc q)}"
    using ok s unfolding shaking_ok_def by auto
  moreover have "i = j" if "i < length (shakes ac @ [r])" "j < length (shakes ac @ [r])" "shaking (sh_pc ((shakes ac @ [r]) ! i))"
    "shaking (sh_pc ((shakes ac @ [r]) ! j))" "sh_addr ((shakes ac @ [r]) ! i) = sh_addr ((shakes ac @ [r]) ! j)" for i j
  proof -
    have "i < length (shakes ac) \<or> i = length (shakes ac)" "j < length (shakes ac) \<or> j = length (shakes ac)"
      using that(1,2) by auto
    then show ?thesis
      using that(3-5) n [of i] n [of j] ok unfolding shaking_ok_def by (auto simp: nth_append)
  qed
  ultimately show ?thesis
    unfolding shaking_ok_def by simp
qed

lemma accept_step_inv:
  assumes inv: "udp_inv u" and rd: "readable (to_server u) a rd"
  shows "udp_inv (server_does a (acceptRoutine es rd a conn ret (acceptor u)) u)"
proof -
  let ?ac = "acceptor u"
  have idle: "udp_inv (server_does a (?ac, out) u)" if "set out \<subseteq> {shakemsg2 es, unshakemsg es}" for out
    by (rule server_does_inv [OF inv]) (use udp_invD(4,5) [OF inv] that in auto)
  let ?start = "\<lparr>sh_addr = a, sh_pc = S_wait3, trytimes = 4, waittime = 1000, sh_socket = True\<rparr>"
  obtain r out where lp: "shake_loop es ret ?start = (r, out)" by fastforce
  have r: "sh_addr r = a" "routine_ok (to_server u) r" "\<And>b. \<not> answered b r" "set out \<subseteq> {shakemsg2 es}"
    using shake_loop_ok [OF lp] by auto
  have start: "udp_inv (server_does a (handshakeRoutine es a ret (?ac\<lparr>shakingClient := insert a (shakingClient ?ac)\<rparr>)) u)"
    if "a \<notin> shakingClient ?ac"
  proof -
    let ?before = "?ac\<lparr>shakes := shakes ?ac @ [?start], shakingClient := insert a (shakingClient ?ac)\<rparr>"
    let ?after = "put_shake (length (shakes ?ac)) r ?before"
    have eq: "handshakeRoutine es a ret (?ac\<lparr>shakingClient := insert a (shakingClient ?ac)\<rparr>) = (?after, out)"
      by (simp add: handshakeRoutine_def lp put_shake_def)
    have 0: "shaking_ok ?before"
      using append_shaking_ok [OF udp_invD(5) [OF inv], of ?start] that by (simp add: shaking_def)
    have "shaking_ok ?after"
      using 0 by (rule put_shake_shaking_ok) (simp_all add: shaking_def r(1))
    moreover have "\<forall>q\<in>set (shakes ?after). routine_ok (to_server u) q"
      using udp_invD(4) [OF inv] r(2) by (simp add: put_shake_def)
    moreover have "was_accepted ?ac b \<Longrightarrow> was_accepted ?after b" for b
      by (auto simp: was_accepted_def put_shake_def)
    ultimately show ?thesis
      unfolding eq using r(4) by (intro server_does_inv [OF inv]) auto
  qed
  show ?thesis
    using idle start by (auto simp: acceptRoutine_def Let_def)
qed

lemma udp_step_inv:
  assumes "udp_step ec es u u'" and inv: "udp_inv u"
  shows "udp_inv u'"
  using assms(1)
proof (cases rule: udp_step.cases)
  case (call_connect a isOpen s bound conn)
  then show ?thesis
    using udp_invD(3) [OF inv, of a]
    by (auto simp: udp_connect_def close_fail_def Let_def intro!: client_does_inv [OF inv])
next
  case (write1 a ret now)
  then show ?thesis
    using udp_invD(3) [OF inv, of a]
    by (auto simp: udp_step1_def close_fail_def intro!: client_does_inv [OF inv])
next
  case (poll1 a t r)
  then show ?thesis
    using poll1_ok [OF udp_invD(3) [OF inv, of a] poll1(2) poll1(3)] by (auto intro!: client_does_inv [OF inv])
next
  case (write3 a ret now)
  then show ?thesis
    using udp_invD(3) [OF inv, of a]
    by (auto simp: udp_step2_def close_fail_def intro!: client_does_inv [OF inv])
next
  case (poll2 a t r)
  then show ?thesis
    using poll2_ok [OF udp_invD(3) [OF inv, of a] poll2(2) poll2(3)] by (auto intro!: client_does_inv [OF inv])
next
  case (client_talks a bs)
  then show ?thesis
    using udp_invD(3) [OF inv, of a] by (auto intro!: client_does_inv [OF inv])
next
  case (client_upflow a bs out ok)
  then have "has_sent (to_client u) a (get32 (ec a) bs 0)"
    by (auto simp: has_sent_def get32_any)
  then have "get32 (ec a) bs 0 \<noteq> CORPC_MSG_TYPE_UDP_HANDSHAKE_3"
    using udp_invD(1) [OF inv] handshake_types_distinct unfolding to_client_ok_def by force
  then have "out = []"
    using client_upflow by (simp add: answer_handshake_eq)
  then show ?thesis
    using client_upflow udp_invD(3) [OF inv, of a] by (auto intro!: client_does_inv [OF inv])
next
  case (accept a rd conn ret)
  then show ?thesis using accept_step_inv [OF inv] by blast
next
  case (shake i r rd ret4 ret2 r' out)
  then show ?thesis using shake_step_inv [OF inv] by blast
next
  case (build i r)
  then show ?thesis using build_step_inv [OF inv] by blast
next
  case (server_talks r bs)
  then show ?thesis
    using udp_invD(4,5) [OF inv] by (auto intro!: server_does_inv [OF inv])
next
  case (server_upflow r bs out ok)
  then have "was_accepted (acceptor u) (sh_addr r)"
    by (auto simp: was_accepted_def answered_def)
  then show ?thesis
    using server_upflow udp_invD(4,5) [OF inv]
    by (auto simp: answer_handshake_eq split: if_splits intro!: server_does_inv [OF inv])
next
  case (client_end a)
  then show ?thesis
    by (auto intro!: client_does_inv [OF inv])
next
  case (server_end i r)
  then show ?thesis using end_step_inv [OF inv] by blast
qed

lemma udp_steps_inv: "(udp_step ec es)\<^sup>*\<^sup>* u u' \<Longrightarrow> udp_inv u \<Longrightarrow> udp_inv u'"
  by (induction rule: rtranclp_induct) (auto intro: udp_step_inv)

lemmas reachable_inv = udp_steps_inv [OF _ new_Udp_inv]

section \<open>The handshake can be completed\<close>

abbreviation pc_of :: "Udp \<Rightarrow> sockaddr_in \<Rightarrow> client_pc" where
  "pc_of u a \<equiv> uc_pc (uclients u a)"

definition routine_at :: "Udp \<Rightarrow> sockaddr_in \<Rightarrow> nat \<Rightarrow> shake_pc \<Rightarrow> bool" where
  "routine_at u a i pc \<longleftrightarrow> i < length (shakes (acceptor u)) \<and> sh_addr (shakes (acceptor u) ! i) = a \<and> sh_pc (shakes (acceptor u) ! i) = pc"

lemma client_does_simps [simp]:
  "uclients (client_does a (c, out) u) = (uclients u)(a := c)" "acceptor (client_does a (c, out) u) = acceptor u"
  "to_server (client_does a (c, out) u) = to_server u \<union> Pair a ` set out" "to_client (client_does a (c, out) u) = to_client u"
  by (simp_all add: client_does_def)

lemma server_does_simps [simp]:
  "uclients (server_does a (ac, out) u) = uclients u" "acceptor (server_does a (ac, out) u) = ac"
  "to_client (server_does a (ac, out) u) = to_client u \<union> Pair a ` set out" "to_server (server_does a (ac, out) u) = to_server u"
  by (simp_all add: server_does_def)

text \<open>The moves of one side, when the network and the system calls are kind to it.\<close>

lemma can_write1:
  assumes "pc_of u a = C_step1"
  shows "\<exists>u'. udp_step ec es u u' \<and> pc_of u' a = C_poll1 1000 \<and> (a, shakemsg1 (ec a)) \<in> to_server u' \<and> acceptor u' = acceptor u \<and> to_client u' = to_client u"
  using udp_step.write1 [OF assms, of ec es 4 0]
  by (intro exI [of _ "client_does a (udp_step1 (ec a) 4 0 (uclients u a)) u"]) (simp add: udp_step1_def CORPC_UDP_HANDSHAKE_SIZE_def)

lemma can_write3:
  assumes "pc_of u a = C_step2"
  shows "\<exists>u'. udp_step ec es u u' \<and> pc_of u' a = C_poll2 100 \<and> (a, shakemsg3 (ec a)) \<in> to_server u' \<and> acceptor u' = acceptor u \<and> to_client u' = to_client u"
  using udp_step.write3 [OF assms, of ec es 4 0]
  by (intro exI [of _ "client_does a (udp_step2 (ec a) 4 0 (uclients u a)) u"]) (simp add: udp_step2_def CORPC_UDP_HANDSHAKE_SIZE_def)

lemma can_read2:
  assumes "pc_of u a = C_poll1 t" "(a, shakemsg2 e) \<in> to_client u"
  shows "\<exists>u'. udp_step ec es u u' \<and> pc_of u' a = C_step2 \<and> acceptor u' = acceptor u \<and> to_client u' = to_client u"
  using udp_step.poll1 [OF assms(1), of "Poll_ready (Read_bytes (shakemsg2 e))" ec es] assms(2)
  by (intro exI [of _ "client_does a (udp_poll1 (ec a) t (Poll_ready (Read_bytes (shakemsg2 e))) (uclients u a), []) u"])
    (simp add: udp_poll1_def pollable_def)

lemma can_read4:
  assumes "pc_of u a = C_poll2 t" "(a, shakemsg4 e) \<in> to_client u"
  shows "\<exists>u'. udp_step ec es u u' \<and> pc_of u' a = C_connected \<and> acceptor u' = acceptor u \<and> to_client u' = to_client u \<and> to_server u' = to_server u"
  using udp_step.poll2 [OF assms(1), of "Poll_ready (Read_bytes (shakemsg4 e))" ec es] assms(2) handshake_types_distinct
  by (intro exI [of _ "client_does a (udp_poll2 (ec a) t (Poll_ready (Read_bytes (shakemsg4 e))) (uclients u a), []) u"])
    (auto simp: udp_poll2_def pollable_def)

lemma can_timeout1:
  assumes "pc_of u a = C_poll1 t"
  shows "\<exists>u'. udp_step ec es u u' \<and> pc_of u' a = C_step1 \<and> acceptor u' = acceptor u \<and> to_client u' = to_client u"
  using udp_step.poll1 [OF assms(1), of "Poll_timeout" ec es]
  by (intro exI [of _ "client_does a (udp_poll1 (ec a) t Poll_timeout (uclients u a), []) u"]) (simp add: udp_poll1_def pollable_def)

lemma can_timeout2:
  assumes "pc_of u a = C_poll2 t"
  shows "\<exists>u'. udp_step ec es u u' \<and> pc_of u' a = C_step2 \<and> acceptor u' = acceptor u \<and> to_client u' = to_client u"
  using udp_step.poll2 [OF assms(1), of "Poll_timeout" ec es]
  by (intro exI [of _ "client_does a (udp_poll2 (ec a) t Poll_timeout (uclients u a), []) u"]) (simp add: udp_poll2_def pollable_def)

lemma can_shake4:
  assumes "routine_at u a i S_wait3" "(a, shakemsg3 e) \<in> to_server u"
  shows "\<exists>u'. udp_step ec es u u' \<and> uclients u' = uclients u \<and> (a, shakemsg4 es) \<in> to_client u'"
  using assms udp_step.shake [where i = i and u = u and rd = "Read_bytes (shakemsg3 e)" and ec = ec and es = es and ?ret4.0 = 4 and ?ret2.0 = 4, OF _ refl]
  by (intro exI [of _ "server_does a (put_shake i (fst (shake_read es (Read_bytes (shakemsg3 e)) 4 4 (shakes (acceptor u) ! i))) (acceptor u), [shakemsg4 es]) u"])
    (auto simp: routine_at_def shake_read_def CORPC_UDP_HANDSHAKE_SIZE_def split: prod.splits)

lemma can_build:
  assumes "routine_at u a i S_shake4"
  shows "\<exists>u'. udp_step ec es u u' \<and> uclients u' = uclients u \<and> to_client u' = to_client u \<and> routine_at u' a i S_built \<and> a \<notin> shakingClient (acceptor u')"
  using assms udp_step.build [where i = i and u = u and ec = ec and es = es, OF _ refl]
  by (intro exI [of _ "server_does a (put_shake i (shake_build (shakes (acceptor u) ! i)) (acceptor u), []) u"])
    (auto simp: routine_at_def put_shake_def shake_build_def shaking_def)

lemma can_answer:
  assumes "routine_at u a i S_built" "(a, shakemsg3 e) \<in> to_server u"
  shows "\<exists>u'. udp_step ec es u u' \<and> uclients u' = uclients u \<and> (a, shakemsg4 es) \<in> to_client u'"
  using assms udp_step.server_upflow [of "shakes (acceptor u) ! i" u "shakemsg3 e" es "[shakemsg4 es]" True ec]
  by (intro exI [of _ "server_does a (acceptor u, [shakemsg4 es]) u"]) (auto simp: routine_at_def answer_handshake_eq)

lemma can_resend2:
  assumes inv: "udp_inv u" and r: "routine_at u a i S_wait3" and m: "(a, shakemsg1 e) \<in> to_server u"
  shows "\<exists>u'. udp_step ec es u u' \<and> uclients u' = uclients u \<and> (a, shakemsg2 es) \<in> to_client u' \<and> routine_at u' a i S_wait3"
proof -
  let ?r = "shakes (acceptor u) ! i"
  have i: "i < length (shakes (acceptor u))" "sh_addr ?r = a" "sh_pc ?r = S_wait3"
    using r by (auto simp: routine_at_def)
  then have "trytimes ?r > 0"
    using udp_invD(4) [OF inv, of ?r] by (simp add: routine_ok_def)
  then have st: "shake_read es (Read_bytes (shakemsg1 e)) 4 4 ?r = (?r\<lparr>sh_pc := S_wait3\<rparr>, [shakemsg2 es])"
    using handshake_types_distinct by (auto simp: shake_read_def shake_loop_def CORPC_UDP_HANDSHAKE_SIZE_def)
  let ?v = "server_does (sh_addr ?r) (put_shake i (?r\<lparr>sh_pc := S_wait3\<rparr>) (acceptor u), [shakemsg2 es]) u"
  have "udp_step ec es u ?v"
    using i m by (intro udp_step.shake [OF i(1) refl i(3) _ st]) simp
  moreover have "uclients ?v = uclients u" "(a, shakemsg2 es) \<in> to_client ?v" "routine_at ?v a i S_wait3"
    using i by (simp_all add: routine_at_def put_shake_def)
  ultimately show ?thesis by blast
qed

lemma can_accept:
  assumes a: "a \<notin> shakingClient (acceptor u)" and m: "(a, shakemsg1 e) \<in> to_server u"
  shows "\<exists>u' i. udp_step ec es u u' \<and> uclients u' = uclients u \<and> (a, shakemsg2 es) \<in> to_client u' \<and> routine_at u' a i S_wait3"
proof -
  let ?start = "\<lparr>sh_addr = a, sh_pc = S_wait3, trytimes = 4, waittime = 1000, sh_socket = True\<rparr>"
  let ?ac = "(acceptor u)\<lparr>shakingClient := insert a (shakingClient (acceptor u))\<rparr>"
  let ?after = "put_shake (length (shakes (acceptor u))) ?start (?ac\<lparr>shakes := shakes ?ac @ [?start]\<rparr>)"
  have "acceptRoutine es (Read_bytes (shakemsg1 e)) a True 4 (acceptor u) = (?after, [shakemsg2 es])"
    using a by (simp add: acceptRoutine_def handshakeRoutine_def shake_loop_def CORPC_UDP_HANDSHAKE_SIZE_def)
  then have "udp_step ec es u (server_does a (?after, [shakemsg2 es]) u)"
    using udp_step.accept [of u a "Read_bytes (shakemsg1 e)" ec es True 4] m by simp
  moreover have "uclients (server_does a (?after, [shakemsg2 es]) u) = uclients u"
    "(a, shakemsg2 es) \<in> to_client (server_does a (?after, [shakemsg2 es]) u)"
    "routine_at (server_does a (?after, [shakemsg2 es]) u) a (length (shakes (acceptor u))) S_wait3"
    by (simp_all add: routine_at_def put_shake_def)
  ultimately show ?thesis by blast
qed

text \<open>From the second stage on, as long as the server works for the client.\<close>

lemma step2_completes:
  assumes pc: "pc_of u a = C_step2" and r: "routine_at u a i S_wait3 \<or> routine_at u a i S_shake4 \<or> routine_at u a i S_built"
  shows "\<exists>u'. (udp_step ec es)\<^sup>*\<^sup>* u u' \<and> pc_of u' a = C_connected"
proof -
  obtain v where v: "udp_step ec es u v" "pc_of v a = C_poll2 100" "(a, shakemsg3 (ec a)) \<in> to_server v" "acceptor v = acceptor u"
    using can_write3 [OF pc] by blast
  have rv: "routine_at v a i S_wait3 \<or> routine_at v a i S_shake4 \<or> routine_at v a i S_built"
    using r v(4) by (simp add: routine_at_def)
  have answered: "\<exists>w. (udp_step ec es)\<^sup>*\<^sup>* v w \<and> uclients w = uclients v \<and> (a, shakemsg4 es) \<in> to_client w"
    using rv
  proof (elim disjE)
    assume "routine_at v a i S_wait3"
    then show ?thesis using can_shake4 v(3) by blast
  next
    assume "routine_at v a i S_built"
    then show ?thesis using can_answer v(3) by blast
  next
    assume "routine_at v a i S_shake4"
    from can_build [OF this] obtain x where x: "udp_step ec es v x" "uclients x = uclients v" "routine_at x a i S_built"
      by blast
    have "(a, shakemsg3 (ec a)) \<in> to_server x"
      using x(1) v(3) by (cases rule: udp_step.cases) (auto simp: client_does_def server_does_def)
    from can_answer [OF x(3) this] x show ?thesis
      by (metis (no_types, opaque_lifting) converse_rtranclp_into_rtranclp r_into_rtranclp)
  qed
  then obtain w where w: "(udp_step ec es)\<^sup>*\<^sup>* v w" "pc_of w a = C_poll2 100" "(a, shakemsg4 es) \<in> to_client w"
    using v(2) by auto
  from can_read4 [OF w(2,3)] obtain z where "udp_step ec es w z" "pc_of z a = C_connected" by blast
  then show ?thesis
    using v(1) w(1) by (meson converse_rtranclp_into_rtranclp rtranclp.rtrancl_into_rtrancl)
qed

lemma step1_completes:
  assumes inv: "udp_inv u" and pc: "pc_of u a = C_step1"
  shows "\<exists>u'. (udp_step ec es)\<^sup>*\<^sup>* u u' \<and> pc_of u' a = C_connected"
proof -
  obtain v where v: "udp_step ec es u v" "pc_of v a = C_poll1 1000" "(a, shakemsg1 (ec a)) \<in> to_server v"
    using can_write1 [OF pc] by blast
  have inv_v: "udp_inv v" using v(1) inv by (rule udp_step_inv)
  have "\<exists>w i. (udp_step ec es)\<^sup>*\<^sup>* v w \<and> uclients w = uclients v \<and> (a, shakemsg2 es) \<in> to_client w \<and> routine_at w a i S_wait3"
  proof (cases "a \<in> shakingClient (acceptor v)")
    case False
    then show ?thesis using can_accept [OF _ v(3), of ec es] by blast
  next
    case True
    then obtain r where r: "r \<in> set (shakes (acceptor v))" "shaking (sh_pc r)" "sh_addr r = a"
      using udp_invD(5) [OF inv_v] by (auto simp: shaking_ok_def)
    then obtain i where "routine_at v a i S_wait3 \<or> routine_at v a i S_shake4"
      by (auto simp: routine_at_def shaking_def in_set_conv_nth)
    then show ?thesis
    proof
      assume "routine_at v a i S_wait3"
      then show ?thesis using can_resend2 [OF inv_v _ v(3), of i ec es] by blast
    next
      assume "routine_at v a i S_shake4"
      from can_build [OF this, of ec es] obtain x
        where x: "udp_step ec es v x" "uclients x = uclients v" "a \<notin> shakingClient (acceptor x)" by blast
      have "(a, shakemsg1 (ec a)) \<in> to_server x"
        using x(1) v(3) by (cases rule: udp_step.cases) (auto simp: client_does_def server_does_def)
      from can_accept [OF x(3) this, of ec es] obtain w i
        where "udp_step ec es x w" "uclients w = uclients x" "(a, shakemsg2 es) \<in> to_client w" "routine_at w a i S_wait3" by blast
      then show ?thesis using x by (metis (no_types, opaque_lifting) converse_rtranclp_into_rtranclp r_into_rtranclp)
    qed
  qed
  then obtain w i where w: "(udp_step ec es)\<^sup>*\<^sup>* v w" "pc_of w a = C_poll1 1000" "(a, shakemsg2 es) \<in> to_client w" "routine_at w a i S_wait3"
    using v(2) by auto
  from can_read2 [OF w(2,3), of ec es] obtain x where x: "udp_step ec es w x" "pc_of x a = C_step2" "acceptor x = acceptor w" by blast
  have "routine_at x a i S_wait3" using w(4) x(3) by (simp add: routine_at_def)
  then obtain z where "(udp_step ec es)\<^sup>*\<^sup>* x z" "pc_of z a = C_connected"
    using step2_completes [OF x(2), of i ec es] by blast
  then show ?thesis
    using v(1) w(1) x(1) by (meson converse_rtranclp_into_rtranclp rtranclp_trans rtranclp.rtrancl_into_rtrancl)
qed

definition in_stage1 :: "client_pc \<Rightarrow> bool" where
  "in_stage1 pc \<longleftrightarrow> pc = C_step1 \<or> (\<exists>t. pc = C_poll1 t)"

definition in_stage2 :: "client_pc \<Rightarrow> bool" where
  "in_stage2 pc \<longleftrightarrow> pc = C_step2 \<or> (\<exists>t. pc = C_poll2 t)"

lemma handshake_completes:
  assumes inv: "udp_inv u"
    and st: "in_stage1 (pc_of u a) \<or> in_stage2 (pc_of u a) \<and> (a \<in> shakingClient (acceptor u) \<or> accepted (acceptor u) a)"
  shows "\<exists>u'. (udp_step ec es)\<^sup>*\<^sup>* u u' \<and> pc_of u' a = C_connected"
proof -
  have serves: "\<exists>i. routine_at v a i S_wait3 \<or> routine_at v a i S_shake4 \<or> routine_at v a i S_built"
    if eq: "acceptor v = acceptor u" and works: "a \<in> shakingClient (acceptor u) \<or> accepted (acceptor u) a" for v
  proof -
    obtain r where "r \<in> set (shakes (acceptor u))" "sh_addr r = a" "sh_pc r = S_wait3 \<or> sh_pc r = S_shake4 \<or> sh_pc r = S_built"
      using works udp_invD(5) [OF inv] by (auto simp: shaking_ok_def shaking_def accepted_def accepts_def)
    then show ?thesis
      using eq by (auto simp: routine_at_def in_set_conv_nth)
  qed
  consider "pc_of u a = C_step1" | t where "pc_of u a = C_poll1 t"
    | "pc_of u a = C_step2" "a \<in> shakingClient (acceptor u) \<or> accepted (acceptor u) a"
    | t where "pc_of u a = C_poll2 t" "a \<in> shakingClient (acceptor u) \<or> accepted (acceptor u) a"
    using st by (auto simp: in_stage1_def in_stage2_def)
  then show ?thesis
  proof cases
    case 1
    then show ?thesis by (rule step1_completes [OF inv])
  next
    case 2
    then obtain v where "udp_step ec es u v" "pc_of v a = C_step1" using can_timeout1 by blast
    then show ?thesis
      using step1_completes [of v] udp_step_inv [OF _ inv] by (meson converse_rtranclp_into_rtranclp)
  next
    case 3
    then show ?thesis using serves [OF refl] step2_completes by blast
  next
    case 4
    from can_timeout2 [OF 4(1), of ec es] obtain v where v: "udp_step ec es u v" "pc_of v a = C_step2" "acceptor v = acceptor u"
      by blast
    then obtain w where "(udp_step ec es)\<^sup>*\<^sup>* v w" "pc_of w a = C_connected"
      using serves [OF v(3) 4(2)] step2_completes [OF v(2)] by blast
    then show ?thesis using v(1) by (meson converse_rtranclp_into_rtranclp)
  qed
qed

text \<open>A client that has just called \<open>connect\<close>.\<close>

definition calling :: "sockaddr_in \<Rightarrow> Udp" where
  "calling a = client_does a (udp_connect False 3 0 0 new_UdpClient, []) new_Udp"

lemma calling_reachable: "(udp_step ec es)\<^sup>*\<^sup>* new_Udp (calling a)"
  using udp_step.call_connect [of new_Udp a ec es False 3 0 0] by (auto simp: calling_def new_Udp_def new_UdpClient_def)

lemma pc_calling: "pc_of (calling a) a = C_step1"
  by (simp add: calling_def udp_connect_def)

lemma connected_reachable: "\<exists>u. (udp_step ec es)\<^sup>*\<^sup>* new_Udp u \<and> pc_of u a = C_connected"
proof -
  have "udp_inv (calling a)" using calling_reachable by (rule reachable_inv)
  then obtain u where "(udp_step ec es)\<^sup>*\<^sup>* (calling a) u" "pc_of u a = C_connected"
    using handshake_completes pc_calling by (metis in_stage1_def)
  then show ?thesis using calling_reachable rtranclp_trans by metis
qed

lemma distinct_addrs:
  assumes "\<forall>i<length xs. \<forall>j<length xs. shaking (sh_pc (xs ! i)) \<longrightarrow> shaking (sh_pc (xs ! j)) \<longrightarrow> sh_addr (xs ! i) = sh_addr (xs ! j) \<longrightarrow> i = j"
  shows "distinct (map sh_addr (filter (\<lambda>r. shaking (sh_pc r)) xs))"
  using assms
proof (induction xs rule: rev_induct)
  case (snoc x xs)
  have "\<forall>i<length xs. \<forall>j<length xs. shaking (sh_pc (xs ! i)) \<longrightarrow> shaking (sh_pc (xs ! j)) \<longrightarrow> sh_addr (xs ! i) = sh_addr (xs ! j) \<longrightarrow> i = j"
    using snoc.prems by (metis length_append_singleton less_Suc_eq nth_append)
  moreover have "sh_addr x \<notin> sh_addr ` {r \<in> set xs. shaking (sh_pc r)}" if "shaking (sh_pc x)"
  proof
    assume "sh_addr x \<in> sh_addr ` {r \<in> set xs. shaking (sh_pc r)}"
    then obtain i where "i < length xs" "shaking (sh_pc (xs ! i))" "sh_addr (xs ! i) = sh_addr x"
      by (auto simp: in_set_conv_nth)
    then show False
      using snoc.prems [rule_format, of i "length xs"] that by (simp add: nth_append)
  qed
  ultimately show ?case using snoc.IH by auto
qed simp

lemma waittime_values:
  assumes "trytimes r > 0" "trytimes r \<le> 4" "waittime r * 2 ^ trytimes r = 16000"
  shows "waittime r \<in> {1000, 2000, 4000, 8000}"
proof -
  have "trytimes r = 1 \<or> trytimes r = 2 \<or> trytimes r = 3 \<or> trytimes r = 4" using assms(1,2) by linarith
  then show ?thesis using assms(3) by auto
qed

section \<open>A repeated message 4\<close>

text \<open>
  Messages do not tell which session they belong to.  When the connection has ended on both sides and the
  client connects again from the same address, messages 2 and 4 of the first session are enough for
  \<open>connect\<close> to succeed, while the server works for no client.
\<close>

abbreviation one_shake :: "sockaddr_in \<Rightarrow> shake_pc \<Rightarrow> UdpAcceptor" where
  "one_shake a pc \<equiv> \<lparr>shakingClient = (if shaking pc then {a} else {}),
     shakes = [\<lparr>sh_addr = a, sh_pc = pc, trytimes = 4, waittime = 1000, sh_socket = (pc \<noteq> S_ended)\<rparr>]\<rparr>"

lemma first_session:
  "\<exists>u. (udp_step ec es)\<^sup>*\<^sup>* new_Udp u \<and> pc_of u a = C_connected \<and> acceptor u = one_shake a S_ended \<and>
     (a, shakemsg2 es) \<in> to_client u \<and> (a, shakemsg4 es) \<in> to_client u"
proof -
  have 0: "acceptor (calling a) = new_UdpAcceptor" by (simp add: calling_def new_Udp_def)
  from can_write1 [OF pc_calling, of ec es a] 0 obtain u1 where u1: "udp_step ec es (calling a) u1" "pc_of u1 a = C_poll1 1000"
    "(a, shakemsg1 (ec a)) \<in> to_server u1" "acceptor u1 = new_UdpAcceptor" by auto
  let ?u2 = "server_does a (one_shake a S_wait3, [shakemsg2 es]) u1"
  have u2: "udp_step ec es u1 ?u2"
    using udp_step.accept [of u1 a "Read_bytes (shakemsg1 (ec a))" ec es True 4] u1(3,4)
    by (simp add: acceptRoutine_def handshakeRoutine_def shake_loop_def CORPC_UDP_HANDSHAKE_SIZE_def put_shake_def new_UdpAcceptor_def shaking_def)
  obtain u3 where u3: "udp_step ec es ?u2 u3" "pc_of u3 a = C_step2" "acceptor u3 = one_shake a S_wait3" "(a, shakemsg2 es) \<in> to_client u3"
    using can_read2 [of ?u2 a 1000 es ec es] u1(2) by auto
  obtain u4 where u4: "udp_step ec es u3 u4" "pc_of u4 a = C_poll2 100" "acceptor u4 = one_shake a S_wait3"
    "(a, shakemsg3 (ec a)) \<in> to_server u4" "(a, shakemsg2 es) \<in> to_client u4"
    using can_write3 [OF u3(2), of ec es] u3(3,4) by auto
  let ?u5 = "server_does a (one_shake a S_shake4, [shakemsg4 es]) u4"
  have u5: "udp_step ec es u4 ?u5"
    using udp_step.shake [where u = u4 and i = 0 and rd = "Read_bytes (shakemsg3 (ec a))" and ec = ec and es = es and ?ret4.0 = 4 and ?ret2.0 = 4, OF _ refl] u4(3,4)
    by (simp add: shake_read_def CORPC_UDP_HANDSHAKE_SIZE_def put_shake_def shaking_def)
  let ?u6 = "server_does a (one_shake a S_built, []) ?u5"
  have u6: "udp_step ec es ?u5 ?u6"
    using udp_step.build [where u = ?u5 and i = 0 and ec = ec and es = es, OF _ refl] by (simp add: put_shake_def shake_build_def shaking_def)
  obtain u7 where u7: "udp_step ec es ?u6 u7" "pc_of u7 a = C_connected" "acceptor u7 = one_shake a S_built"
    "(a, shakemsg2 es) \<in> to_client u7" "(a, shakemsg4 es) \<in> to_client u7"
    using can_read4 [of ?u6 a 100 es ec es] u4(2,5) by auto
  let ?u8 = "server_does a (one_shake a S_ended, []) u7"
  have "udp_step ec es u7 ?u8"
    using udp_step.server_end [where u = u7 and i = 0 and ec = ec and es = es, OF _ refl] u7(3) by (simp add: end_conn_def shaking_def)
  then have "(udp_step ec es)\<^sup>*\<^sup>* (calling a) ?u8"
    using u1(1) u2 u3(1) u4(1) u5 u6 u7(1) by (meson converse_rtranclp_into_rtranclp r_into_rtranclp)
  then have "(udp_step ec es)\<^sup>*\<^sup>* new_Udp ?u8" using calling_reachable by (rule rtranclp_trans [rotated])
  then show ?thesis using u7 by (intro exI [of _ ?u8]) simp
qed

lemma stale_handshake4:
  "\<exists>u. (udp_step ec es)\<^sup>*\<^sup>* new_Udp u \<and> pc_of u a = C_connected \<and> (\<forall>r\<in>set (shakes (acceptor u)). sh_pc r = S_ended)"
proof -
  obtain u where u: "(udp_step ec es)\<^sup>*\<^sup>* new_Udp u" "pc_of u a = C_connected" "acceptor u = one_shake a S_ended"
    "(a, shakemsg2 es) \<in> to_client u" "(a, shakemsg4 es) \<in> to_client u" using first_session by blast
  let ?u1 = "client_does a ((uclients u a)\<lparr>uc_pc := C_out, uc_socket := False\<rparr>, []) u"
  have u1: "udp_step ec es u ?u1" using u(2) by (rule udp_step.client_end)
  let ?u2 = "client_does a (udp_connect False 3 0 0 (uclients ?u1 a), []) ?u1"
  have u2: "udp_step ec es ?u1 ?u2" by (rule udp_step.call_connect) simp
  obtain u3 where u3: "udp_step ec es ?u2 u3" "pc_of u3 a = C_poll1 1000" "acceptor u3 = acceptor u" "to_client u3 = to_client u"
    using can_write1 [of ?u2 a ec es] by (auto simp: udp_connect_def)
  obtain u4 where u4: "udp_step ec es u3 u4" "pc_of u4 a = C_step2" "acceptor u4 = acceptor u" "to_client u4 = to_client u"
    using can_read2 [OF u3(2), of es ec es] u3(3,4) u(4) by auto
  obtain u5 where u5: "udp_step ec es u4 u5" "pc_of u5 a = C_poll2 100" "acceptor u5 = acceptor u" "to_client u5 = to_client u"
    using can_write3 [OF u4(2), of ec es] u4(3,4) by auto
  obtain u6 where u6: "udp_step ec es u5 u6" "pc_of u6 a = C_connected" "acceptor u6 = acceptor u"
    using can_read4 [OF u5(2), of es ec es] u5(3,4) u(5) by auto
  have "(udp_step ec es)\<^sup>*\<^sup>* u u6"
    using u1 u2 u3(1) u4(1) u5(1) u6(1) by (meson converse_rtranclp_into_rtranclp r_into_rtranclp)
  then have "(udp_step ec es)\<^sup>*\<^sup>* new_Udp u6" using u(1) by (rule rtranclp_trans [rotated])
  then show ?thesis using u6(2,3) u(3) by (intro exI [of _ u6]) simp
qed

section \<open>Properties\<close>

text \<open>
  C7: when \<open>connect\<close> succeeds the server has accepted the client.  For any number of clients, whatever the
  network loses, repeats or reorders, and whichever connections end and are made again, a client that
  has got message 4 was sent a message 2, and a coroutine of the acceptor has read its message 3 on a
  socket of its own and has answered it.  That socket is open, and the coroutine builds or has built the
  connection, unless the connection has ended on the server.
\<close>
theorem udp_handshake_agreement:
  assumes "(udp_step ec es)\<^sup>*\<^sup>* new_Udp u" and "uc_pc (uclients u a) = C_connected"
  shows "has_sent (to_client u) a CORPC_MSG_TYPE_UDP_HANDSHAKE_2 \<and> has_sent (to_server u) a CORPC_MSG_TYPE_UDP_HANDSHAKE_3 \<and>
    (\<exists>r\<in>set (shakes (acceptor u)). sh_addr r = a \<and>
       ((sh_pc r = S_shake4 \<or> sh_pc r = S_built) \<and> sh_socket r \<or> sh_pc r = S_ended \<and> \<not> sh_socket r))"
proof -
  have inv: "udp_inv u" using assms(1) by (rule reachable_inv)
  have "has_sent (to_client u) a CORPC_MSG_TYPE_UDP_HANDSHAKE_4"
    using udp_invD(3) [OF inv, of a] assms(2) by simp
  then have "was_accepted (acceptor u) a"
    using udp_invD(1) [OF inv] handshake_types_distinct unfolding to_client_ok_def by force
  then obtain r where r: "r \<in> set (shakes (acceptor u))" "answered a r"
    by (auto simp: was_accepted_def)
  then have ok: "has_sent (to_server u) a CORPC_MSG_TYPE_UDP_HANDSHAKE_3" "sh_socket r \<longleftrightarrow> sh_pc r \<noteq> S_closed \<and> sh_pc r \<noteq> S_ended"
    using udp_invD(4) [OF inv r(1)] by (auto simp: routine_ok_def answered_def)
  moreover have "has_sent (to_client u) a CORPC_MSG_TYPE_UDP_HANDSHAKE_2"
    using ok(1) udp_invD(2) [OF inv] handshake_types_distinct unfolding to_server_ok_def by force
  ultimately show ?thesis
    using r by (auto simp: answered_def)
qed

theorem udp_handshake_agreement_witness:
  "\<exists>u. (udp_step (\<lambda>_. LittleEndian) BigEndian)\<^sup>*\<^sup>* new_Udp u \<and> uc_pc (uclients u (Sockaddr 1 7)) = C_connected \<and>
     (\<exists>r\<in>set (shakes (acceptor u)). sh_addr r = Sockaddr 1 7)"
  using connected_reachable [of "\<lambda>_. LittleEndian" BigEndian "Sockaddr 1 7"] udp_handshake_agreement by blast

text \<open>
  C23: the handshake can always be completed from its first stage, and from its second as long as the
  server still works for the client: whatever has happened so far, there is a way on in which
  \<open>connect\<close> succeeds.
\<close>
theorem udp_handshake_completes:
  assumes "(udp_step ec es)\<^sup>*\<^sup>* new_Udp u"
    and "in_stage1 (uc_pc (uclients u a)) \<or>
      in_stage2 (uc_pc (uclients u a)) \<and> (a \<in> shakingClient (acceptor u) \<or> accepted (acceptor u) a)"
  shows "\<exists>u'. (udp_step ec es)\<^sup>*\<^sup>* u u' \<and> uc_pc (uclients u' a) = C_connected"
  using handshake_completes [OF reachable_inv [OF assms(1)] assms(2)] .

theorem udp_handshake_completes_witness:
  "\<exists>u'. (udp_step (\<lambda>_. LittleEndian) BigEndian)\<^sup>*\<^sup>* (calling (Sockaddr 1 7)) u' \<and> uc_pc (uclients u' (Sockaddr 1 7)) = C_connected"
  using udp_handshake_completes [OF calling_reachable] pc_calling by (simp add: in_stage1_def)

text \<open>
  C24: the datagrams of the size of a handshake message are handshake messages: the server only sends
  messages 2 and 4 and refusals, the clients only messages 1 and 3, and message 4 goes to no client
  that has not been accepted, message 3 comes from none that has not been sent message 2.
\<close>
theorem udp_handshake_datagrams:
  assumes "(udp_step ec es)\<^sup>*\<^sup>* new_Udp u"
  shows "(has_sent (to_client u) a t \<longrightarrow>
      t = CORPC_MSG_TYPE_UDP_HANDSHAKE_2 \<or> t = CORPC_MSG_TYPE_UDP_UNSHAKE \<or>
      t = CORPC_MSG_TYPE_UDP_HANDSHAKE_4 \<and> was_accepted (acceptor u) a) \<and>
    (has_sent (to_server u) a t \<longrightarrow>
      t = CORPC_MSG_TYPE_UDP_HANDSHAKE_1 \<or>
      t = CORPC_MSG_TYPE_UDP_HANDSHAKE_3 \<and> has_sent (to_client u) a CORPC_MSG_TYPE_UDP_HANDSHAKE_2)"
  using udp_invD(1,2) [OF reachable_inv [OF assms]] unfolding to_client_ok_def to_server_ok_def by blast

theorem udp_handshake_datagrams_witness:
  "\<exists>u. (udp_step (\<lambda>_. LittleEndian) BigEndian)\<^sup>*\<^sup>* new_Udp u \<and> uc_pc (uclients u (Sockaddr 1 7)) = C_connected \<and>
     (\<forall>t. has_sent (to_server u) (Sockaddr 1 7) t \<longrightarrow> t = CORPC_MSG_TYPE_UDP_HANDSHAKE_1 \<or> t = CORPC_MSG_TYPE_UDP_HANDSHAKE_3)"
  using connected_reachable [of "\<lambda>_. LittleEndian" BigEndian "Sockaddr 1 7"] udp_handshake_datagrams by blast

text \<open>
  C25: at any time at most one coroutine of the acceptor is in the handshake with a client, and
  \<open>shakingClient_\<close> holds exactly these clients; a coroutine waits 1, 2, 4 and 8 seconds at most.  A
  client whose \<open>connect\<close> fails has closed its socket, and so has a coroutine that ends with an error, or
  a connection that has ended; a coroutine that gives up after its four tries has not.
\<close>
theorem udp_acceptor_invariant:
  assumes "(udp_step ec es)\<^sup>*\<^sup>* new_Udp u"
  shows "shakingClient (acceptor u) = sh_addr ` {r \<in> set (shakes (acceptor u)). shaking (sh_pc r)} \<and>
    distinct (map sh_addr (filter (\<lambda>r. shaking (sh_pc r)) (shakes (acceptor u)))) \<and>
    (\<forall>a. uc_pc (uclients u a) = C_failed \<longrightarrow> \<not> uc_socket (uclients u a)) \<and>
    (\<forall>r\<in>set (shakes (acceptor u)). (sh_socket r \<longleftrightarrow> sh_pc r \<noteq> S_closed \<and> sh_pc r \<noteq> S_ended) \<and> (sh_pc r = S_wait3 \<longrightarrow> waittime r \<in> {1000, 2000, 4000, 8000}))"
proof (intro conjI)
  have inv: "udp_inv u" using assms by (rule reachable_inv)
  show "shakingClient (acceptor u) = sh_addr ` {r \<in> set (shakes (acceptor u)). shaking (sh_pc r)}"
    using udp_invD(5) [OF inv] by (simp add: shaking_ok_def)
  show "distinct (map sh_addr (filter (\<lambda>r. shaking (sh_pc r)) (shakes (acceptor u))))"
    by (rule distinct_addrs) (use udp_invD(5) [OF inv] in \<open>auto simp: shaking_ok_def\<close>)
  show "\<forall>a. uc_pc (uclients u a) = C_failed \<longrightarrow> \<not> uc_socket (uclients u a)"
    using udp_invD(3) [OF inv] by (metis client_ok.simps(7))
  show "\<forall>r\<in>set (shakes (acceptor u)). (sh_socket r \<longleftrightarrow> sh_pc r \<noteq> S_closed \<and> sh_pc r \<noteq> S_ended) \<and> (sh_pc r = S_wait3 \<longrightarrow> waittime r \<in> {1000, 2000, 4000, 8000})"
    using udp_invD(4) [OF inv] waittime_values by (auto simp: routine_ok_def)
qed

theorem udp_acceptor_invariant_witness:
  "\<exists>u. (udp_step (\<lambda>_. LittleEndian) BigEndian)\<^sup>*\<^sup>* new_Udp u \<and> uc_pc (uclients u (Sockaddr 1 7)) = C_connected \<and>
     shakingClient (acceptor u) = sh_addr ` {r \<in> set (shakes (acceptor u)). shaking (sh_pc r)}"
  using connected_reachable [of "\<lambda>_. LittleEndian" BigEndian "Sockaddr 1 7"] udp_acceptor_invariant by blast

end
