(* ===== verification/ConnLife.thy ===== *)
theory ConnLife
  imports Handshake "HOL-Library.Sublist"
begin

text \<open>
  The life of a connection in \<open>corpc_io.cpp\<close>: the sender's thread, which takes the tasks off its queue and
  runs one coroutine per connection (\<open>Sender::taskQueueRoutine\<close>, \<open>Sender::connectionRoutine\<close>), the receiver's
  coroutine (\<open>Receiver::connectionRoutine\<close>), and the calls of \<open>Connection::send\<close> and \<open>Connection::close\<close> from
  other threads.

  The state is that of one connection; the sender's queue holds its tasks, in their order.  The
  coroutines of a thread interleave where they yield: when the sender's coroutine hangs, and while a
  \<open>write\<close> or \<open>read\<close> is under way.  The pipeline is an argument, what its \<open>downflow\<close> makes of its state and
  the list of data: the new state, the data it leaves, the bytes to write, and its result.
  \<open>None\<close> is a crash: a coroutine resumed that does not hang.
\<close>

section \<open>\<open>Connection::write\<close>\<close>

text \<open>What a call of \<open>::write\<close> does; a call that succeeds leaves \<open>errno\<close> as it was.\<close>

datatype write_result = Wrote nat | Write_error errno

fun conn_write :: "write_result list \<Rightarrow> errno \<Rightarrow> nat \<Rightarrow> nat \<Rightarrow> (nat \<times> int) option" where
  "conn_write [] err sentNum leftNum = None"
| "conn_write (r # rs) err sentNum leftNum =
     (let (err, n) = (case r of Wrote n \<Rightarrow> (err, n) | Write_error e \<Rightarrow> (e, 0))
      in if n > leftNum then None
         else if leftNum - n > 0 \<and> (err = EAGAIN \<or> err = EINTR) then conn_write rs err (sentNum + n) (leftNum - n)
         else Some (sentNum + n, if leftNum - n > 0 then -1 else int (sentNum + n)))"

section \<open>State\<close>

datatype 'd SenderTask = INIT | CLOSE | DATA 'd

text \<open>\<open>R_write\<close>: in \<open>Connection::write\<close> with the bytes given to it.\<close>

datatype sender_pc = R_none | R_hang | R_write "byte list" | R_ended

text \<open>The receiver's coroutine: reading (after so many retries), and the stages of its end.\<close>

datatype receiver_pc = V_none | V_read nat | V_shutdown | V_wait | V_close | V_ended

datatype HeartbeatTask = START | STOP

record ('d, 'p) Conn =
  sc_queue :: "'d SenderTask list"
  sc_isClosing :: bool
  sc_closed :: bool
  sc_routineHang :: bool
  sc_datas :: "'d list"
  sc_pipe :: 'p
  sc_pc :: sender_pc
  rc_pc :: receiver_pc
  closeSem :: nat
  fd_open :: bool
  isHBing :: bool
  hb_queue :: "HeartbeatTask list"
  closes :: nat
  onCloses :: nat
  given :: "'d list"
  taken :: "'d list"
  cleaned :: "'d list"
  offered :: "byte list"
  wire :: "byte list"

text \<open>
  The last seven are history: how often \<open>close(fd)\<close> and \<open>onClose\<close> were called, the data given to \<open>send\<close>,
  those the pipeline took, those given to \<open>cleanDataOnClosing\<close>, the bytes the pipeline made and those
  written to the socket.
\<close>

definition new_Conn :: "bool \<Rightarrow> 'p \<Rightarrow> ('d, 'p) Conn" where
  "new_Conn hb p = \<lparr>sc_queue = [], sc_isClosing = False, sc_closed = False, sc_routineHang = False, sc_datas = [],
     sc_pipe = p, sc_pc = R_none, rc_pc = V_none, closeSem = 0, fd_open = True, isHBing = hb,
     hb_queue = (if hb then [START] else []), closes = 0, onCloses = 0, given = [], taken = [], cleaned = [], offered = [], wire = []\<rparr>"

definition sc_isOpen :: "('d, 'p) Conn \<Rightarrow> bool" where
  "sc_isOpen s \<longleftrightarrow> \<not> (sc_isClosing s \<or> sc_closed s)"

section \<open>Operations of other threads\<close>

definition sender_addConnection :: "('d, 'p) Conn \<Rightarrow> ('d, 'p) Conn" where
  "sender_addConnection s = s\<lparr>sc_queue := sc_queue s @ [INIT]\<rparr>"

text \<open>\<open>IO::addConnection\<close>; the receiver's task is in its queue as long as its coroutine is at \<open>V_none\<close>.\<close>

definition io_addConnection :: "('d, 'p) Conn \<Rightarrow> ('d, 'p) Conn" where
  "io_addConnection s = (sender_addConnection s)\<lparr>rc_pc := V_none\<rparr>"

definition sender_removeConnection :: "('d, 'p) Conn \<Rightarrow> ('d, 'p) Conn" where
  "sender_removeConnection s = s\<lparr>sc_queue := sc_queue s @ [CLOSE]\<rparr>"

definition conn_send :: "'d \<Rightarrow> ('d, 'p) Conn \<Rightarrow> ('d, 'p) Conn" where
  "conn_send d s = s\<lparr>sc_queue := sc_queue s @ [DATA d], given := given s @ [d]\<rparr>"

definition hb_removeConnection :: "('d, 'p) Conn \<Rightarrow> ('d, 'p) Conn" where
  "hb_removeConnection s = s\<lparr>isHBing := False, hb_queue := hb_queue s @ [STOP]\<rparr>"

definition conn_close :: "('d, 'p) Conn \<Rightarrow> ('d, 'p) Conn" where
  "conn_close s =
     (if sc_isOpen s then
        let s = sender_removeConnection s in (if isHBing s then hb_removeConnection s else s)
      else s)"

section \<open>The sender\<close>

type_synonym ('d, 'p) downflow_fun = "'p \<Rightarrow> 'd list \<Rightarrow> 'p \<times> 'd list \<times> byte list \<times> bool"

definition sender_end :: "('d, 'p) Conn \<Rightarrow> ('d, 'p) Conn" where
  "sender_end s = s\<lparr>sc_isClosing := True, closeSem := closeSem s + 1, sc_pc := R_ended\<rparr>"

text \<open>The loop of \<open>Sender::connectionRoutine\<close> up to where it yields or ends.\<close>

definition sender_loop :: "('d, 'p) downflow_fun \<Rightarrow> ('d, 'p) Conn \<Rightarrow> ('d, 'p) Conn" where
  "sender_loop df s =
     (let (p, ds, bs, ok) = df (sc_pipe s) (sc_datas s);
          s = s\<lparr>sc_pipe := p, sc_datas := ds, taken := taken s @ take (length (sc_datas s) - length ds) (sc_datas s)\<rparr>
      in if \<not> ok then sender_end s
         else if bs = [] then
           (if sc_isClosing s then sender_end s else s\<lparr>sc_routineHang := True, sc_pc := R_hang\<rparr>)
         else s\<lparr>offered := offered s @ bs, sc_pc := R_write bs\<rparr>)"

definition co_resume_sender :: "('d, 'p) downflow_fun \<Rightarrow> ('d, 'p) Conn \<Rightarrow> ('d, 'p) Conn option" where
  "co_resume_sender df s =
     (if sc_pc s = R_hang then Some (sender_loop df (s\<lparr>sc_routineHang := False\<rparr>)) else None)"

text \<open>\<open>write\<close> returns after the calls of \<open>::write\<close> given; it wrote a part of its bytes, or all.\<close>

definition sender_written :: "('d, 'p) downflow_fun \<Rightarrow> nat \<Rightarrow> int \<Rightarrow> byte list \<Rightarrow> ('d, 'p) Conn \<Rightarrow> ('d, 'p) Conn option" where
  "sender_written df sent ret bs s =
     (let s = s\<lparr>wire := wire s @ take sent bs\<rparr>
      in if ret < 0 then Some (sender_end s)
         else if ret = int (length bs) then Some (sender_loop df s) else None)"

text \<open>One task of \<open>Sender::taskQueueRoutine\<close>.\<close>

definition sender_task :: "('d, 'p) downflow_fun \<Rightarrow> 'd SenderTask \<Rightarrow> ('d, 'p) Conn \<Rightarrow> ('d, 'p) Conn option" where
  "sender_task df t s =
     (case t of
        INIT \<Rightarrow> Some (sender_loop df (s\<lparr>sc_routineHang := False\<rparr>))
      | CLOSE \<Rightarrow>
          (if \<not> sc_isClosing s then
             let s = s\<lparr>sc_isClosing := True\<rparr> in (if sc_routineHang s then co_resume_sender df s else Some s)
           else Some s)
      | DATA d \<Rightarrow>
          (if \<not> sc_isClosing s then
             let s = s\<lparr>sc_datas := sc_datas s @ [d]\<rparr> in (if sc_routineHang s then co_resume_sender df s else Some s)
           else Some (s\<lparr>cleaned := cleaned s @ [d]\<rparr>)))"

section \<open>The receiver\<close>

text \<open>
  What \<open>read\<close> returned and, when it returned bytes, what \<open>upflow\<close> made of them.
\<close>

definition receiver_read :: "read_result \<Rightarrow> bool \<Rightarrow> nat \<Rightarrow> ('d, 'p) Conn \<Rightarrow> ('d, 'p) Conn" where
  "receiver_read rd upflow retryTimes s =
     (if read_ret rd \<le> 0 then
        (if read_ret rd < 0 \<and> rd = Read_error EAGAIN \<and> retryTimes < 5 then s\<lparr>rc_pc := V_read (retryTimes + 1)\<rparr>
         else s\<lparr>rc_pc := V_shutdown\<rparr>)
      else if \<not> upflow then s\<lparr>rc_pc := V_shutdown\<rparr>
      else s)"

text \<open>
  The end of \<open>Receiver::connectionRoutine\<close>: the sender is told to close and the socket is shut down, the
  coroutine waits for the sender's, and closes.
\<close>

definition receiver_shutdown :: "('d, 'p) Conn \<Rightarrow> ('d, 'p) Conn" where
  "receiver_shutdown s = (sender_removeConnection s)\<lparr>rc_pc := V_wait\<rparr>"

definition receiver_wait :: "('d, 'p) Conn \<Rightarrow> ('d, 'p) Conn option" where
  "receiver_wait s = (if closeSem s > 0 then Some (s\<lparr>closeSem := closeSem s - 1, rc_pc := V_close\<rparr>) else None)"

definition receiver_close :: "('d, 'p) Conn \<Rightarrow> ('d, 'p) Conn" where
  "receiver_close s =
     (let s = s\<lparr>fd_open := False, closes := closes s + 1, sc_closed := True\<rparr>;
          s = (if isHBing s then hb_removeConnection s else s)
      in s\<lparr>onCloses := onCloses s + 1, rc_pc := V_ended\<rparr>)"

section \<open>Steps\<close>

inductive conn_step :: "('d, 'p) downflow_fun \<Rightarrow> ('d, 'p) Conn \<Rightarrow> ('d, 'p) Conn option \<Rightarrow> bool" for df where
  step_send: "conn_step df s (Some (conn_send d s))"
| step_close: "conn_step df s (Some (conn_close s))"
| step_start: "rc_pc s = V_none \<Longrightarrow> conn_step df s (Some (s\<lparr>rc_pc := V_read 0\<rparr>))"
| step_read: "rc_pc s = V_read n \<Longrightarrow> conn_step df s (Some (receiver_read rd up n s))"
| step_shutdown: "rc_pc s = V_shutdown \<Longrightarrow> conn_step df s (Some (receiver_shutdown s))"
| step_wait: "rc_pc s = V_wait \<Longrightarrow> receiver_wait s = Some s' \<Longrightarrow> conn_step df s (Some s')"
| step_end: "rc_pc s = V_close \<Longrightarrow> conn_step df s (Some (receiver_close s))"
| step_task: "sc_queue s = t # q \<Longrightarrow> conn_step df s (sender_task df t (s\<lparr>sc_queue := q\<rparr>))"
| step_write: "sc_pc s = R_write bs \<Longrightarrow> conn_write rs err 0 (length bs) = Some (sent, ret) \<Longrightarrow>
    conn_step df s (sender_written df sent ret bs s)"

definition conn_next :: "('d, 'p) downflow_fun \<Rightarrow> ('d, 'p) Conn \<Rightarrow> ('d, 'p) Conn \<Rightarrow> bool" where
  "conn_next df s s' \<longleftrightarrow> conn_step df s (Some s')"

text \<open>A connection that has just been given to the sender and the receiver.\<close>

definition started :: "bool \<Rightarrow> 'p \<Rightarrow> ('d, 'p) Conn" where
  "started hb p = io_addConnection (new_Conn hb p)"

section \<open>Invariant\<close>

fun datas_of :: "'d SenderTask list \<Rightarrow> 'd list" where
  "datas_of [] = []"
| "datas_of (DATA d # ts) = d # datas_of ts"
| "datas_of (t # ts) = datas_of ts"

lemma datas_of_append [simp]: "datas_of (ts @ us) = datas_of ts @ datas_of us"
  by (induction ts rule: datas_of.induct) auto

text \<open>The queue, the flags and the coroutines.\<close>

definition queue_ok :: "('d, 'p) Conn \<Rightarrow> bool" where
  "queue_ok s \<longleftrightarrow>
     (if sc_pc s = R_none then \<exists>q. sc_queue s = INIT # q \<and> INIT \<notin> set q \<and> \<not> sc_isClosing s \<and> sc_datas s = []
      else INIT \<notin> set (sc_queue s))"

definition flags_ok :: "('d, 'p) Conn \<Rightarrow> bool" where
  "flags_ok s \<longleftrightarrow>
     (sc_routineHang s \<longleftrightarrow> sc_pc s = R_hang) \<and> (sc_pc s = R_ended \<longrightarrow> sc_isClosing s) \<and> (sc_pc s = R_hang \<longrightarrow> \<not> sc_isClosing s) \<and>
     sc_pc s \<noteq> R_write [] \<and> (rc_pc s = V_wait \<longrightarrow> CLOSE \<in> set (sc_queue s) \<or> sc_isClosing s)"

definition close_ok :: "('d, 'p) Conn \<Rightarrow> bool" where
  "close_ok s \<longleftrightarrow>
     closeSem s + of_bool (rc_pc s = V_close \<or> rc_pc s = V_ended) = of_bool (sc_pc s = R_ended) \<and>
     (fd_open s \<longleftrightarrow> rc_pc s \<noteq> V_ended) \<and> (sc_closed s \<longleftrightarrow> rc_pc s = V_ended) \<and>
     closes s = of_bool (rc_pc s = V_ended) \<and> onCloses s = of_bool (rc_pc s = V_ended)"

definition life_inv :: "('d, 'p) Conn \<Rightarrow> bool" where
  "life_inv s \<longleftrightarrow> queue_ok s \<and> flags_ok s \<and> close_ok s"

lemma started_inv: "life_inv (started hb p)"
  by (simp add: life_inv_def queue_ok_def flags_ok_def close_ok_def started_def io_addConnection_def sender_addConnection_def new_Conn_def)

text \<open>What the loop of the sender's coroutine keeps, and where it stops.\<close>

lemma sender_loop_frame [simp]:
  "sc_queue (sender_loop df s) = sc_queue s" "rc_pc (sender_loop df s) = rc_pc s" "fd_open (sender_loop df s) = fd_open s"
  "sc_closed (sender_loop df s) = sc_closed s" "closes (sender_loop df s) = closes s" "onCloses (sender_loop df s) = onCloses s"
  "given (sender_loop df s) = given s" "cleaned (sender_loop df s) = cleaned s" "wire (sender_loop df s) = wire s"
  by (simp_all add: sender_loop_def sender_end_def Let_def split: prod.split)

lemma sender_loop_pc:
  "sc_pc (sender_loop df s) \<noteq> R_none" "sc_pc (sender_loop df s) \<noteq> R_write []" "sc_pc (sender_loop df s) = R_hang \<Longrightarrow> \<not> sc_isClosing s"
  by (auto simp: sender_loop_def sender_end_def Let_def split: prod.splits if_splits)

lemma sender_loop_flags:
  "closeSem (sender_loop df s) = closeSem s + of_bool (sc_pc (sender_loop df s) = R_ended)"
  "sc_isClosing (sender_loop df s) \<longleftrightarrow> sc_isClosing s \<or> sc_pc (sender_loop df s) = R_ended"
  "\<not> sc_routineHang s \<Longrightarrow> sc_routineHang (sender_loop df s) \<longleftrightarrow> sc_pc (sender_loop df s) = R_hang"
  by (auto simp: sender_loop_def sender_end_def Let_def split: prod.splits if_splits)

text \<open>The coroutine runs on from a point where it has neither ended nor posted.\<close>

lemma sender_loop_inv:
  assumes "INIT \<notin> set (sc_queue s)" "\<not> sc_routineHang s"
    and "rc_pc s = V_wait \<longrightarrow> CLOSE \<in> set (sc_queue s) \<or> sc_isClosing s"
    and "closeSem s = 0" "rc_pc s \<noteq> V_close" "rc_pc s \<noteq> V_ended"
    and "fd_open s" "\<not> sc_closed s" "closes s = 0" "onCloses s = 0"
  shows "life_inv (sender_loop df s)"
  using assms sender_loop_pc [where df = df and s = s] sender_loop_flags [where df = df and s = s]
  unfolding life_inv_def queue_ok_def flags_ok_def close_ok_def by auto

lemma running_facts:
  assumes "life_inv s" "sc_pc s \<noteq> R_ended"
  shows "closeSem s = 0" "rc_pc s \<noteq> V_close" "rc_pc s \<noteq> V_ended" "fd_open s" "\<not> sc_closed s" "closes s = 0" "onCloses s = 0"
  using assms unfolding life_inv_def close_ok_def by (auto split: if_splits)

lemma task_inv:
  assumes inv: "life_inv s" and q: "sc_queue s = t # q"
  shows "\<exists>s'. sender_task df t (s\<lparr>sc_queue := q\<rparr>) = Some s' \<and> life_inv s'"
proof (cases "sc_pc s = R_none")
  case True
  then have t: "t = INIT" "INIT \<notin> set q" using inv q by (auto simp: life_inv_def queue_ok_def)
  note r = running_facts [OF inv]
  have "life_inv (sender_loop df (s\<lparr>sc_queue := q, sc_routineHang := False\<rparr>))"
    by (rule sender_loop_inv) (use t q inv True r in \<open>auto simp: life_inv_def flags_ok_def\<close>)
  then show ?thesis by (simp add: sender_task_def t)
next
  case False
  then have n: "INIT \<notin> set (t # q)" using inv q by (auto simp: life_inv_def queue_ok_def)
  have wait: "rc_pc s = V_wait \<longrightarrow> CLOSE \<in> set (t # q) \<or> sc_isClosing s" using inv q by (auto simp: life_inv_def flags_ok_def)
  show ?thesis
  proof (cases "sc_isClosing s")
    case True
    then show ?thesis
      using inv q n False by (cases t) (auto simp: sender_task_def life_inv_def queue_ok_def flags_ok_def close_ok_def)
  next
    case opn: False
    show ?thesis
    proof (cases "sc_pc s = R_hang")
      case True
      then have h: "sc_routineHang s" using inv by (simp add: life_inv_def flags_ok_def)
      note r = running_facts [OF inv]
      have "life_inv (sender_loop df (s\<lparr>sc_queue := q, sc_isClosing := True, sc_routineHang := False\<rparr>))" if "t = CLOSE"
        by (rule sender_loop_inv) (use n r True in auto)
      moreover have "life_inv (sender_loop df (s\<lparr>sc_queue := q, sc_datas := sc_datas s @ [d], sc_routineHang := False\<rparr>))" if "t = DATA d" for d
        by (rule sender_loop_inv) (use n r True wait that in auto)
      ultimately show ?thesis
        using n h opn True by (cases t) (auto simp: sender_task_def co_resume_sender_def)
    next
      case running: False
      then have "\<not> sc_routineHang s" using inv by (simp add: life_inv_def flags_ok_def)
      then show ?thesis
        using inv q n False opn wait by (cases t) (auto simp: sender_task_def life_inv_def queue_ok_def flags_ok_def close_ok_def)
    qed
  qed
qed

lemma conn_write_result:
  "conn_write rs err sent left = Some (n, ret) \<Longrightarrow> if ret < 0 then n < sent + left else n = sent + left \<and> ret = int n"
  by (induction rs err sent left rule: conn_write.induct)
    (fastforce simp: Let_def split: if_splits write_result.splits)+

lemma written_inv:
  assumes inv: "life_inv s" and pc: "sc_pc s = R_write bs" and w: "conn_write rs err 0 (length bs) = Some (n, ret)"
  shows "\<exists>s'. sender_written df n ret bs s = Some s' \<and> life_inv s'"
proof (cases "ret < 0")
  case True
  then show ?thesis
    using inv pc running_facts [OF inv]
    by (auto simp: sender_written_def Let_def sender_end_def life_inv_def queue_ok_def flags_ok_def close_ok_def)
next
  case False
  then have "ret = int (length bs)" using conn_write_result [OF w] by simp
  moreover have "life_inv (sender_loop df (s\<lparr>wire := wire s @ take n bs\<rparr>))"
    by (rule sender_loop_inv)
      (use inv pc running_facts [OF inv] in \<open>auto simp: life_inv_def queue_ok_def flags_ok_def close_ok_def\<close>)
  ultimately show ?thesis by (simp add: sender_written_def)
qed

lemma conn_step_inv:
  assumes "conn_step df s r" and inv: "life_inv s"
  shows "\<exists>s'. r = Some s' \<and> life_inv s'"
  using assms(1)
proof (cases rule: conn_step.cases)
  case (step_send d)
  then show ?thesis
    using inv by (auto simp: conn_send_def life_inv_def queue_ok_def flags_ok_def close_ok_def)
next
  case step_close
  then show ?thesis
    using inv by (auto simp: conn_close_def sender_removeConnection_def hb_removeConnection_def Let_def
        life_inv_def queue_ok_def flags_ok_def close_ok_def)
next
  case step_start
  then show ?thesis
    using inv by (auto simp: life_inv_def queue_ok_def flags_ok_def close_ok_def)
next
  case (step_read n rd up)
  then show ?thesis
    using inv by (auto simp: receiver_read_def life_inv_def queue_ok_def flags_ok_def close_ok_def)
next
  case step_shutdown
  then show ?thesis
    using inv by (auto simp: receiver_shutdown_def sender_removeConnection_def life_inv_def queue_ok_def flags_ok_def close_ok_def)
next
  case (step_wait s')
  then show ?thesis
    using inv by (auto simp: receiver_wait_def life_inv_def queue_ok_def flags_ok_def close_ok_def split: if_splits)
next
  case step_end
  then show ?thesis
    using inv by (auto simp: receiver_close_def hb_removeConnection_def Let_def life_inv_def queue_ok_def flags_ok_def close_ok_def)
next
  case (step_task t q)
  then show ?thesis using task_inv [OF inv] by blast
next
  case (step_write bs rs err sent ret)
  then show ?thesis using written_inv [OF inv] by blast
qed

lemma conn_next_inv: "(conn_next df)\<^sup>*\<^sup>* s s' \<Longrightarrow> life_inv s \<Longrightarrow> life_inv s'"
  by (induction rule: rtranclp_induct) (auto simp: conn_next_def dest: conn_step_inv)

section \<open>The data\<close>

fun wire_ok :: "sender_pc \<Rightarrow> byte list \<Rightarrow> byte list \<Rightarrow> bool" where
  "wire_ok (R_write bs) out w \<longleftrightarrow> out = w @ bs"
| "wire_ok R_ended out w \<longleftrightarrow> prefix w out"
| "wire_ok _ out w \<longleftrightarrow> out = w"

definition data_inv :: "('d, 'p) Conn \<Rightarrow> bool" where
  "data_inv s \<longleftrightarrow>
     given s = taken s @ sc_datas s @ cleaned s @ datas_of (sc_queue s) \<and> (cleaned s \<noteq> [] \<longrightarrow> sc_isClosing s) \<and>
     wire_ok (sc_pc s) (offered s) (wire s)"

text \<open>The contract of a pipeline: it takes the data from the front of the list.\<close>

locale front_pipeline =
  fixes df :: "('d, 'p) downflow_fun"
  assumes takes_front: "df p ds = (p', ds', bs, ok) \<Longrightarrow> suffix ds' ds"
begin

lemma sender_loop_data:
  assumes "given s = taken s @ sc_datas s @ cleaned s @ datas_of (sc_queue s)"
    "cleaned s \<noteq> [] \<longrightarrow> sc_isClosing s" "offered s = wire s"
  shows "data_inv (sender_loop df s)"
proof -
  obtain p ds bs ok where df: "df (sc_pipe s) (sc_datas s) = (p, ds, bs, ok)" by (metis prod_cases4)
  then have "suffix ds (sc_datas s)" using takes_front by blast
  then obtain us where us: "sc_datas s = us @ ds" by (auto simp: suffix_def)
  have g: "given s = (taken s @ us) @ ds @ cleaned s @ datas_of (sc_queue s)" using assms(1) us by simp
  show ?thesis
    using assms(2,3) df us g by (auto simp add: sender_loop_def sender_end_def data_inv_def Let_def)
qed

lemma conn_step_data:
  assumes "conn_step df s (Some s')" and inv: "life_inv s" and d: "data_inv s"
  shows "data_inv s'"
  using assms(1)
proof (cases rule: conn_step.cases)
  case (step_task t q)
  show ?thesis
  proof (cases t)
    case INIT
    then have "sc_pc s = R_none" using inv step_task by (auto simp: life_inv_def queue_ok_def split: if_splits)
    moreover have "data_inv (sender_loop df (s\<lparr>sc_queue := q, sc_routineHang := False\<rparr>))"
      by (rule sender_loop_data) (use d step_task INIT \<open>sc_pc s = R_none\<close> in \<open>auto simp: data_inv_def\<close>)
    ultimately show ?thesis using step_task INIT by (simp add: sender_task_def)
  next
    case CLOSE
    have "data_inv (sender_loop df (s\<lparr>sc_queue := q, sc_isClosing := True, sc_routineHang := False\<rparr>))" if "sc_pc s = R_hang"
      by (rule sender_loop_data) (use d step_task CLOSE that in \<open>auto simp: data_inv_def\<close>)
    moreover have "data_inv (s\<lparr>sc_queue := q\<rparr>)" "data_inv (s\<lparr>sc_queue := q, sc_isClosing := True\<rparr>)"
      using d step_task CLOSE by (auto simp: data_inv_def)
    ultimately show ?thesis
      using step_task CLOSE by (auto simp: sender_task_def co_resume_sender_def Let_def split: if_splits)
  next
    case (DATA x)
    have "data_inv (sender_loop df (s\<lparr>sc_queue := q, sc_datas := sc_datas s @ [x], sc_routineHang := False\<rparr>))"
      if "sc_pc s = R_hang" "\<not> sc_isClosing s"
      by (rule sender_loop_data) (use d step_task DATA that in \<open>auto simp: data_inv_def\<close>)
    moreover have "\<not> sc_isClosing s \<Longrightarrow> data_inv (s\<lparr>sc_queue := q, sc_datas := sc_datas s @ [x]\<rparr>)"
      "sc_isClosing s \<Longrightarrow> data_inv (s\<lparr>sc_queue := q, cleaned := cleaned s @ [x]\<rparr>)"
      using d step_task DATA by (auto simp: data_inv_def)
    ultimately show ?thesis
      using step_task DATA by (auto simp: sender_task_def co_resume_sender_def Let_def split: if_splits)
  qed
next
  case (step_write bs rs err sent ret)
  have w: "offered s = wire s @ bs" using d step_write by (simp add: data_inv_def)
  show ?thesis
  proof (cases "ret < 0")
    case True
    then have "s' = sender_end (s\<lparr>wire := wire s @ take sent bs\<rparr>)"
      using step_write by (simp add: sender_written_def)
    moreover have "prefix (wire s @ take sent bs) (wire s @ bs)" by (simp add: take_is_prefix)
    ultimately show ?thesis using d w by (simp add: data_inv_def sender_end_def)
  next
    case False
    then have "sent = length bs" "s' = sender_loop df (s\<lparr>wire := wire s @ bs\<rparr>)"
      using step_write conn_write_result [OF step_write(3)] by (auto simp: sender_written_def)
    moreover have "data_inv (sender_loop df (s\<lparr>wire := wire s @ bs\<rparr>))"
      by (rule sender_loop_data) (use d w in \<open>auto simp: data_inv_def\<close>)
    ultimately show ?thesis by simp
  qed
qed (use d in \<open>auto simp: data_inv_def conn_send_def conn_close_def sender_removeConnection_def hb_removeConnection_def Let_def
    receiver_read_def receiver_shutdown_def receiver_wait_def receiver_close_def split: if_splits sender_pc.splits\<close>)

lemma conn_next_data:
  "(conn_next df)\<^sup>*\<^sup>* s s' \<Longrightarrow> life_inv s \<Longrightarrow> data_inv s \<Longrightarrow> data_inv s'"
  by (induction rule: rtranclp_induct) (auto simp: conn_next_def intro: conn_step_data conn_next_inv [unfolded conn_next_def])

end

section \<open>The pipelines of the library\<close>

definition CORPC_MAX_BUFFER_SIZE :: nat where "CORPC_MAX_BUFFER_SIZE = 0x10000"

text \<open>
  \<open>getPipeline()->downflow(buf, CORPC_MAX_BUFFER_SIZE, dataSize)\<close> and the \<open>dataSize\<close> bytes that are written; a
  codec that crashes is not followed further.
\<close>

fun flow_out :: "'p \<Rightarrow> 'd list \<Rightarrow> ('p \<times> 'd list \<times> byte list \<times> nat \<times> bool) option \<Rightarrow> 'p \<times> 'd list \<times> byte list \<times> bool" where
  "flow_out p ds None = (p, ds, [], False)"
| "flow_out p ds (Some (p', ds', buf, sz, ok)) = (p', ds', take sz buf, ok)"

definition message_flow :: "('c, 'd) encode_fun \<Rightarrow> 'c \<Rightarrow> ('d, 'p MessagePipeline_scheme) downflow_fun" where
  "message_flow enc c p ds = flow_out p ds (downflow enc c p ds (replicate CORPC_MAX_BUFFER_SIZE 0))"

definition datagram_flow :: "('c, 'd) encode_fun \<Rightarrow> 'c \<Rightarrow> ('d, MessagePipeline) downflow_fun" where
  "datagram_flow enc c p ds = flow_out p ds (udp_downflow enc c p ds (replicate CORPC_MAX_BUFFER_SIZE 0))"

lemma downflow_loop_suffix: "downflow_loop enc c p ds buf sz = Some (p', ds', buf', sz', ok) \<Longrightarrow> suffix ds' ds"
proof (induction enc c p ds buf sz rule: downflow_loop.induct)
  case (2 enc c p d ds buf sz)
  obtain okd sl tmp df sent where e: "enc c d (drop sz buf) (downflowBuf p) (downflowBufSentNum p) = Some (okd, sl, tmp, df, sent)"
    using 2(2) by (auto simp: bind_eq_Some_conv)
  show ?case
    using 2 e by (auto simp: Let_def split: if_splits intro: suffix_ConsI)
qed simp

lemma downflow_suffix: "downflow enc c p ds buf = Some (p', ds', buf', sz', ok) \<Longrightarrow> suffix ds' ds"
  by (auto simp: downflow_def bind_eq_Some_conv split: if_splits prod.splits dest: downflow_loop_suffix)

lemma udp_downflow_suffix: "udp_downflow enc c p ds buf = Some (p', ds', buf', sz', ok) \<Longrightarrow> suffix ds' ds"
  by (auto simp: udp_downflow_def bind_eq_Some_conv Let_def split: list.splits if_splits prod.splits intro: suffix_ConsI)

lemma flow_out_suffix:
  assumes "flow_out p ds r = (p', ds', bs, ok)" "\<And>p' ds' buf sz ok. r = Some (p', ds', buf, sz, ok) \<Longrightarrow> suffix ds' ds"
  shows "suffix ds' ds"
  using assms by (cases r) auto

interpretation message_pipe: front_pipeline "message_flow enc c"
  by unfold_locales (auto simp: message_flow_def intro: flow_out_suffix downflow_suffix)

interpretation datagram_pipe: front_pipeline "datagram_flow enc c"
  by unfold_locales (auto simp: datagram_flow_def intro: flow_out_suffix udp_downflow_suffix)

section \<open>A connection can always be brought to its end\<close>

lemma conn_nextI: "conn_step df s r \<Longrightarrow> life_inv s \<Longrightarrow> \<exists>s'. r = Some s' \<and> conn_next df s s' \<and> life_inv s'"
  unfolding conn_next_def using conn_step_inv by blast

text \<open>While the receiver waits the sender has something to do until its coroutine has ended.\<close>

lemma sender_ends:
  assumes "life_inv s" "rc_pc s = V_wait"
  shows "\<exists>s'. (conn_next df)\<^sup>*\<^sup>* s s' \<and> rc_pc s' = V_wait \<and> sc_pc s' = R_ended \<and> life_inv s'"
  using assms
proof (induction "length (sc_queue s)" arbitrary: s rule: less_induct)
  case less
  consider "sc_pc s = R_ended" | bs where "sc_pc s = R_write bs" | t q where "sc_queue s = t # q" "sc_pc s = R_none \<or> sc_pc s = R_hang"
    using less.prems by (cases "sc_pc s"; cases "sc_queue s") (auto simp: life_inv_def queue_ok_def flags_ok_def)
  then show ?case
  proof cases
    case 1
    then show ?thesis using less.prems by blast
  next
    case 2
    then have "bs \<noteq> []" using less.prems by (auto simp: life_inv_def flags_ok_def)
    then have w: "conn_write [Write_error EOTHER] EOTHER 0 (length bs) = Some (0, -1)" by simp
    from conn_nextI [OF step_write [OF 2 w] less.prems(1)] obtain s'
      where "sender_written df 0 (-1) bs s = Some s'" "conn_next df s s'" "life_inv s'" by blast
    then show ?thesis
      using less.prems(2) by (intro exI [of _ s']) (auto simp: sender_written_def sender_end_def)
  next
    case 3
    from conn_nextI [OF step_task [OF 3(1)] less.prems(1), of df] obtain s'
      where s': "sender_task df t (s\<lparr>sc_queue := q\<rparr>) = Some s'" "conn_next df s s'" "life_inv s'" by blast
    then have "sc_queue s' = q" "rc_pc s' = V_wait"
      using less.prems(2) by (cases t; auto simp: sender_task_def co_resume_sender_def Let_def split: if_splits)+
    then show ?thesis
      using less.hyps [of s'] s'(2,3) 3(1) by (auto intro: converse_rtranclp_into_rtranclp)
  qed
qed

lemma wait_ends:
  assumes "life_inv s" "rc_pc s = V_wait"
  shows "\<exists>s'. (conn_next df)\<^sup>*\<^sup>* s s' \<and> rc_pc s' = V_ended"
proof -
  obtain v where v: "(conn_next df)\<^sup>*\<^sup>* s v" "rc_pc v = V_wait" "sc_pc v = R_ended" "life_inv v"
    using sender_ends [OF assms] by blast
  let ?w = "v\<lparr>closeSem := closeSem v - 1, rc_pc := V_close\<rparr>"
  have "closeSem v = 1" using v by (simp add: life_inv_def close_ok_def)
  then have "conn_next df v ?w" unfolding conn_next_def by (intro step_wait) (simp_all add: v(2) receiver_wait_def)
  moreover have "conn_next df ?w (receiver_close ?w)" unfolding conn_next_def by (rule step_end) simp
  ultimately have "(conn_next df)\<^sup>*\<^sup>* s (receiver_close ?w)" using v(1) by auto
  moreover have "rc_pc (receiver_close ?w) = V_ended" by (simp add: receiver_close_def Let_def)
  ultimately show ?thesis by blast
qed

lemma can_end:
  assumes "life_inv s"
  shows "\<exists>s'. (conn_next df)\<^sup>*\<^sup>* s s' \<and> rc_pc s' = V_ended"
proof -
  have wait: "\<exists>s'. (conn_next df)\<^sup>*\<^sup>* s s' \<and> rc_pc s' = V_ended" if "(conn_next df)\<^sup>*\<^sup>* s v" "rc_pc v = V_wait" for v
    using wait_ends [of v df] that conn_next_inv [OF that(1) assms] by (meson rtranclp_trans)
  have down: "\<exists>s'. (conn_next df)\<^sup>*\<^sup>* s s' \<and> rc_pc s' = V_ended" if "(conn_next df)\<^sup>*\<^sup>* s v" "rc_pc v = V_shutdown" for v
  proof -
    have "conn_next df v (receiver_shutdown v)" using that(2) by (simp add: conn_next_def step_shutdown)
    then have "(conn_next df)\<^sup>*\<^sup>* s (receiver_shutdown v)" using that(1) by auto
    then show ?thesis using wait by (simp add: receiver_shutdown_def)
  qed
  have read: "\<exists>s'. (conn_next df)\<^sup>*\<^sup>* s s' \<and> rc_pc s' = V_ended" if "(conn_next df)\<^sup>*\<^sup>* s v" "rc_pc v = V_read n" for v n
  proof -
    have "conn_next df v (receiver_read (Read_bytes []) False n v)" using that(2) by (simp add: conn_next_def step_read)
    then have "(conn_next df)\<^sup>*\<^sup>* s (receiver_read (Read_bytes []) False n v)" using that(1) by auto
    then show ?thesis using down by (simp add: receiver_read_def)
  qed
  show ?thesis
  proof (cases "rc_pc s")
    case V_none
    then have "conn_next df s (s\<lparr>rc_pc := V_read 0\<rparr>)" by (simp add: conn_next_def step_start)
    then show ?thesis using read [of "s\<lparr>rc_pc := V_read 0\<rparr>" 0] by auto
  next
    case V_close
    then have "conn_next df s (receiver_close s)" by (simp add: conn_next_def step_end)
    moreover have "rc_pc (receiver_close s) = V_ended" by (simp add: receiver_close_def Let_def)
    ultimately show ?thesis by blast
  qed (use read [OF rtranclp.rtrancl_refl] down [OF rtranclp.rtrancl_refl] wait [OF rtranclp.rtrancl_refl] in auto)
qed

section \<open>Properties\<close>

lemma started_data: "data_inv (started hb p)"
  by (simp add: data_inv_def started_def io_addConnection_def sender_addConnection_def new_Conn_def)

text \<open>
  C8: the socket of a connection is closed once, and only when nothing uses it any more.  Whatever
  data are sent, whoever calls \<open>close\<close>, and however reads and writes end, \<open>close(fd)\<close> and \<open>onClose\<close> are called
  at most once, and when they are both coroutines have ended; no step resumes a coroutine that does not
  hang or fails an assertion.
\<close>
theorem connection_closed_once:
  assumes "(conn_next df)\<^sup>*\<^sup>* (started hb p) s"
  shows "closes s \<le> 1 \<and> onCloses s = closes s \<and> (fd_open s \<longleftrightarrow> closes s = 0) \<and>
    (\<not> fd_open s \<longrightarrow> sc_pc s = R_ended \<and> rc_pc s = V_ended) \<and> \<not> conn_step df s None"
proof -
  have inv: "life_inv s" using conn_next_inv [OF assms started_inv] .
  have "\<not> conn_step df s None" using conn_step_inv [OF _ inv] by fastforce
  moreover have "close_ok s" using inv by (simp add: life_inv_def)
  then have "closes s \<le> 1 \<and> onCloses s = closes s \<and> (fd_open s \<longleftrightarrow> closes s = 0) \<and> (\<not> fd_open s \<longrightarrow> sc_pc s = R_ended \<and> rc_pc s = V_ended)"
    by (cases "sc_pc s = R_ended"; cases "rc_pc s = V_ended") (simp_all add: close_ok_def)
  ultimately show ?thesis by simp
qed

text \<open>A codec for single bytes, and a connection that has sent one.\<close>

fun byte_encode :: "(unit, byte) encode_fun" where
  "byte_encode c d [] over n = Some (True, [], 0, over, n)"
| "byte_encode c d (x # xs) over n = Some (True, d # xs, 1, over, n)"

lemma byte_flow:
  fixes p :: MessagePipeline
  assumes "p = new_MessagePipeline 22 540"
  shows "message_flow byte_encode () p [] = (p, [], [], True)" "message_flow byte_encode () p [d] = (p, [], [d], True)"
proof -
  obtain n where "CORPC_MAX_BUFFER_SIZE = Suc n" by (metis CORPC_MAX_BUFFER_SIZE_def not0_implies_Suc zero_neq_numeral)
  then have buf: "replicate CORPC_MAX_BUFFER_SIZE (0 :: byte) = 0 # replicate n 0" by (metis replicate_Suc)
  show "message_flow byte_encode () p [] = (p, [], [], True)" "message_flow byte_encode () p [d] = (p, [], [d], True)"
    unfolding message_flow_def buf by (simp_all add: downflow_def assms new_MessagePipeline_def Let_def)
qed

lemma sent_reachable:
  "\<exists>s. (conn_next (message_flow byte_encode ()))\<^sup>*\<^sup>* (started False (new_MessagePipeline 22 540)) s \<and> given s = [7] \<and> wire s = [7]"
proof -
  define p where "p = new_MessagePipeline 22 540"
  let ?df = "message_flow byte_encode ()"
  note flow = byte_flow [OF p_def]
  let ?a = "(started False p :: (byte, MessagePipeline) Conn)\<lparr>sc_queue := [], sc_routineHang := True, sc_pc := R_hang\<rparr>"
  let ?b = "conn_send 7 ?a"
  let ?c = "?b\<lparr>sc_queue := [], sc_routineHang := False, taken := [7], offered := [7], sc_pc := R_write [7]\<rparr>"
  let ?d = "?c\<lparr>wire := [7], sc_routineHang := True, sc_pc := R_hang\<rparr>"
  note defs = started_def io_addConnection_def sender_addConnection_def new_Conn_def conn_send_def sender_task_def sender_loop_def flow
  have "conn_next ?df (started False p) ?a"
    using step_task [of "started False p :: (byte, MessagePipeline) Conn" INIT "[]" ?df] by (simp add: conn_next_def defs)
  moreover have "conn_next ?df ?a ?b" by (simp add: conn_next_def step_send)
  moreover have "conn_next ?df ?b ?c"
    using step_task [of ?b "DATA 7" "[]" ?df] by (simp add: conn_next_def defs co_resume_sender_def)
  moreover have "conn_next ?df ?c ?d"
    using step_write [of ?c "[7]" "[Wrote 1]" EOTHER 1 1 ?df] by (simp add: conn_next_def defs sender_written_def)
  moreover have "given ?d = [7]" "wire ?d = [7]" by (simp_all add: defs)
  ultimately have "(conn_next ?df)\<^sup>*\<^sup>* (started False p) ?d" "given ?d = [7]" "wire ?d = [7]"
    by (auto intro: rtranclp.rtrancl_into_rtrancl)
  then show ?thesis unfolding p_def by blast
qed

lemma ended_reachable: "\<exists>s. (conn_next df)\<^sup>*\<^sup>* (started hb p) s \<and> rc_pc s = V_ended"
  by (rule can_end [OF started_inv])

theorem connection_closed_once_witness:
  "\<exists>s. (conn_next (message_flow byte_encode ()))\<^sup>*\<^sup>* (started True (new_MessagePipeline 22 540)) s \<and> closes s \<le> 1 \<and> rc_pc s = V_ended"
proof -
  obtain s where s: "(conn_next (message_flow byte_encode ()))\<^sup>*\<^sup>* (started True (new_MessagePipeline 22 540)) s" "rc_pc s = V_ended"
    using ended_reachable [of "message_flow byte_encode ()" True "new_MessagePipeline 22 540"] by auto
  then have "closes s \<le> 1" using connection_closed_once [OF s(1)] by simp
  then show ?thesis using s by blast
qed

text \<open>
  C9: data are sent in the order in which they are given to \<open>send\<close>, and none is lost or sent twice, by
  every pipeline that takes its data from the front of the list, as those of TCP and UDP do
  whatever the codec (\<open>message_pipe\<close>, \<open>datagram_pipe\<close>): the data given are those the pipeline has taken,
  then those in the connection's list, those that came after the close and were given to
  \<open>cleanDataOnClosing\<close>, and those still in the sender's queue; the bytes on the wire are those the pipeline
  made, but for those of the \<open>write\<close> under way or of the one that failed and ended the connection.
\<close>
theorem connection_data_in_order:
  assumes "front_pipeline df" and "(conn_next df)\<^sup>*\<^sup>* (started hb p) s"
  shows "given s = taken s @ sc_datas s @ cleaned s @ datas_of (sc_queue s) \<and> (cleaned s \<noteq> [] \<longrightarrow> sc_isClosing s) \<and>
    prefix (wire s) (offered s) \<and> (sc_pc s \<noteq> R_ended \<longrightarrow> (\<exists>bs. offered s = wire s @ bs \<and> (bs = [] \<or> sc_pc s = R_write bs)))"
proof -
  have "data_inv s"
    using assms(1,2) started_inv started_data by (rule front_pipeline.conn_next_data)
  then show ?thesis
    by (cases "sc_pc s") (simp_all add: data_inv_def)
qed

theorem connection_data_in_order_witness:
  "\<exists>s. (conn_next (message_flow byte_encode ()))\<^sup>*\<^sup>* (started False (new_MessagePipeline 22 540)) s \<and> wire s = [7] \<and>
     [7] = taken s @ sc_datas s @ cleaned s @ datas_of (sc_queue s)"
proof -
  obtain s where "(conn_next (message_flow byte_encode ()))\<^sup>*\<^sup>* (started False (new_MessagePipeline 22 540)) s" "given s = [7]" "wire s = [7]"
    using sent_reachable by blast
  then show ?thesis
    using connection_data_in_order [OF message_pipe.front_pipeline_axioms, of byte_encode "()" False "new_MessagePipeline 22 540" s] by metis
qed

text \<open>
  C22: no connection is stuck on its way to the end: from every state there is a way to the end of the
  receiver's coroutine, and while that waits for the sender's, either the semaphore has been posted
  or the sender has a task to handle or a \<open>write\<close> to finish.
\<close>
theorem connection_can_end:
  assumes "(conn_next df)\<^sup>*\<^sup>* (started hb p) s"
  shows "(\<exists>s'. (conn_next df)\<^sup>*\<^sup>* s s' \<and> rc_pc s' = V_ended) \<and>
    (rc_pc s = V_wait \<longrightarrow> closeSem s > 0 \<or> sc_queue s \<noteq> [] \<or> (\<exists>bs. sc_pc s = R_write bs))"
proof
  have inv: "life_inv s" using conn_next_inv [OF assms started_inv] .
  then show "\<exists>s'. (conn_next df)\<^sup>*\<^sup>* s s' \<and> rc_pc s' = V_ended" by (rule can_end)
  show "rc_pc s = V_wait \<longrightarrow> closeSem s > 0 \<or> sc_queue s \<noteq> [] \<or> (\<exists>bs. sc_pc s = R_write bs)"
    using inv by (cases "sc_pc s") (auto simp: life_inv_def queue_ok_def flags_ok_def close_ok_def)
qed

theorem connection_can_end_witness:
  "\<exists>s. (conn_next (message_flow byte_encode ()))\<^sup>*\<^sup>* (started False (new_MessagePipeline 22 540)) s \<and> wire s = [7] \<and>
     (\<exists>s'. (conn_next (message_flow byte_encode ()))\<^sup>*\<^sup>* s s' \<and> rc_pc s' = V_ended)"
proof -
  obtain s where s: "(conn_next (message_flow byte_encode ()))\<^sup>*\<^sup>* (started False (new_MessagePipeline 22 540)) s" "wire s = [7]"
    using sent_reachable by blast
  then show ?thesis using connection_can_end [OF s(1)] by auto
qed

end
