(* ===== verification/Spec2Isabelle.thy ===== *)
theory Spec2Isabelle
  imports Resend Datagram RpcRoundTrip RpcDelivery Pool Semaphore MutexLock ConnLife
begin

text \<open>
  A verification development for libcorpc, a C++ framework for remote procedure calls and messages between
  processes that runs on coroutines.  This theory imports the others; their properties carry the
  identifiers C1 to C34.

  \<^bold>\<open>The program.\<close>  An application sends a message through a terminal (\<open>corpc_message_terminal.cpp\<close>), which
  numbers it, keeps a copy until the peer acknowledges it (\<open>corpc_message_buffer.cpp\<close>) and encodes it: a head
  of 22 bytes in network byte order and a body that may be encrypted (\<open>corpc_crypter.cpp\<close>) and protected by
  a checksum (\<open>corpc_crc.cpp\<close>).  A connection's pipeline (\<open>corpc_io.cpp\<close>) moves the bytes: its \<open>downflow\<close> fills
  the send buffer, its \<open>upflow\<close> cuts what arrives into messages and hands them to the worker.  The sender's
  and receiver's coroutines of \<open>corpc_io.cpp\<close> drive the pipeline and end the connection.  A connection over
  UDP starts with a handshake (\<open>corpc_message_client.cpp\<close> and \<open>UdpAcceptor\<close>).  The RPC client and server
  (\<open>corpc_rpc_client.cpp\<close>, \<open>corpc_rpc_server.cpp\<close>) use the same pipelines with codecs of their own; a caller
  waits as a coroutine, and its environment (\<open>corpc_routine_env.cpp\<close>) wakes it when the answer is there or
  its time is up, which a skip list of expiry times decides (\<open>corpc_timeout_list.h\<close>).  Coroutines of
  several threads synchronise with \<open>corpc_semaphore.cpp\<close> and \<open>corpc_mutex.cpp\<close>.  The pools of connections to
  Redis, MySQL, MongoDB and Memcached are services of this framework.

  \<^bold>\<open>The theories.\<close>
  \<^item> \<open>Prelude\<close>: machine integers, byte buffers with bounds-checked copies, lemmas on lists and options.
  \<^item> \<open>ByteOrder\<close>: the byte order macros of \<open>corpc_define.h\<close> and the fields of the wire format; a field stored on
    one host loads with the same value on any other.
  \<^item> \<open>Crc\<close>: \<open>CRC::CheckSum\<close>, \<open>Reverse\<close>, \<open>InitTable\<close>; the table-driven sum is the bit-serial CRC-16 and detects every
    error within two adjacent bytes.
  \<^item> \<open>Crypter\<close>: \<open>SimpleXORCrypter\<close>; encryption in place is undone by decryption and stays in bounds.  The locale
    \<open>crypter_class\<close> is the contract of the abstract class.
  \<^item> \<open>Link\<close>: \<open>NormalLink\<close> of \<open>corpc_define.h\<close> on an explicit heap refines lists.
  \<^item> \<open>MsgBuffer\<close>: \<open>MessageBuffer\<close>, a link and a map, refines a list of messages without leaks; what an
    acknowledgement removes.
  \<^item> \<open>Pipeline\<close>: \<open>TcpPipeline::upflow\<close>, \<open>UdpPipeline::upflow\<close> and the two \<open>downflow\<close> operations; the locales \<open>decoder\<close> and
    \<open>encoder\<close> are the contracts of the codecs they call.
  \<^item> \<open>Protobuf\<close>: the operations of Protocol Buffers that the codecs call, as a record, and what is relied on.
  \<^item> \<open>Transport\<close>: the locale \<open>transport\<close>, an encoder and a decoder that fit together; streams of messages pass
    through \<open>downflow\<close>, any way of cutting the bytes, and \<open>upflow\<close>.
  \<^item> \<open>Terminal\<close>: \<open>MessageTerminal\<close>: registry, ban list, \<open>encode\<close>, \<open>decode\<close>, \<open>send\<close>, \<open>resend\<close>, \<open>doTask\<close>, reconnection.
  \<^item> \<open>Delivery\<close>: messages given to \<open>send\<close> reach the peer's worker once, in order, unchanged.
  \<^item> \<open>Resend\<close>: when the buffer stays intact over disconnections and reconnections; when the peer accepts the bytes
    of a resend; corrupted bodies and banned messages.
  \<^item> \<open>Datagram\<close>: messages over UDP, and the size up to which the copy of a datagram stays in bounds.
  \<^item> \<open>RpcCodec\<close>: requests and responses on the wire, the registry of services, the server's dispatch.
  \<^item> \<open>TimeoutList\<close>, \<open>TimeoutQueue\<close>: the skip list on an explicit heap refines a map from calls to expiry times;
    its destructor ends and frees every node; the locale \<open>timeout_queue\<close> is the contract for its client.
  \<^item> \<open>RoutineEnv\<close>: the resume queue and the timeouts of a thread; a waiting call is woken exactly once.
  \<^item> \<open>RpcClient\<close>, \<open>RpcCalls\<close>, \<open>RpcDelivery\<close>: the RPC client, the invariant of its state, and that no call is lost or
    answered twice, with connections that fail, are lost and are replaced; exactly when the client's thread
    crashes, with channels that are destroyed at any time.
  \<^item> \<open>RpcRoundTrip\<close>: a call from the request to the caller's response object.
  \<^item> \<open>Handshake\<close>: \<open>UdpClient::connect\<close> against \<open>UdpAcceptor\<close> over a network that loses, repeats and reorders,
    with connections that end and are made again.
  \<^item> \<open>ConnLife\<close>: sender, receiver, \<open>send\<close> and \<open>close\<close>; the socket is closed once, after its last use, and data keep
    their order.  The locale \<open>front_pipeline\<close> is the contract of the pipeline.
  \<^item> \<open>Pool\<close>: the four connection pools, bounded and fair to their waiters, by one locale \<open>connection_pool\<close>.
  \<^item> \<open>Semaphore\<close>: refines a first-come-first-served semaphore and loses no wake-up, while its permits fit in an \<open>int\<close>.
  \<^item> \<open>Mutex\<close>, \<open>MutexLock\<close>: the mutex excludes, its consistency checks never abort, and no wake-up is lost.

  \<^bold>\<open>Conventions.\<close>  Definitions have the names of the code.  An object is a record with the fields of its
  class; objects that the code shares by pointer live in a map from addresses.  \<open>None\<close> as the result of an
  operation is undefined behaviour, a failing assertion or a crash, so that a result \<open>Some\<close> says that the
  code runs through.  System calls, the clock, \<open>rand\<close>, allocated addresses, Protocol Buffers, the client
  libraries of the databases and the application's handlers are arguments.  Code of several coroutines or
  threads is a step relation between the points where it can be interrupted: the atomic accesses of
  \<open>Semaphore\<close> and \<open>Mutex\<close>, the yields of coroutines elsewhere.

  \<^bold>\<open>Bounds and termination.\<close>  There is no fuel.  Loops are structural or have a termination proof; those
  that follow pointers are \<open>partial_function (option)\<close>, where not ending is \<open>None\<close>, and the theorems show that
  they return.  Serials, lengths and fields of the wire format are words of their width.  The count of
  \<open>Semaphore\<close> wraps around at 32 bits, and its theorems assume that the permits never exceed the largest \<open>int\<close>.
  The counter of \<open>Mutex\<close> is an unbounded integer; that of the code has 32 bits, 28 of them for its waiting
  coroutines.

  \<^bold>\<open>Not modelled.\<close>
  \<^item> The coroutine runtime (\<open>co/src\<close>): stack switching in assembly, hooked system calls, epoll.  A coroutine is a
    program counter here.
  \<^item> KCP (\<open>kcp/ikcp.c\<close>, \<open>corpc_kcp.cpp\<close>): a retransmission protocol with its own windows and timers.
  \<^item> \<open>corpc_inner_rpc.cpp\<close>: calls between threads of one process, which are not encoded.
  \<^item> \<open>corpc_queue.h\<close>: the queues between threads; their users have lists.  \<open>corpc_rwmutex.cpp\<close> and
    \<open>corpc_condition.cpp\<close>, which build on the mutex and the semaphore.
  \<^item> \<open>TcpAcceptor\<close>, \<open>TcpClient::connect\<close> but for what it hands on to a new connection, the heartbeat coroutine and
    the start of threads in \<open>corpc_io.cpp\<close>: socket calls and thread creation.  The second half of \<open>corpc_message_client.cpp\<close>, an implementation that the
    preprocessor removes.
  \<^item> \<open>corpc_utils.cpp\<close>, \<open>corpc_timer.cpp\<close>, \<open>corpc_rand.cpp\<close>, \<open>corpc_cond.cpp\<close>: logging, clock, random numbers, pthread
    condition variables.  \<open>corpc_pubsub.cpp\<close>: Redis channels.  Generated message code, examples, tests.
\<close>

end
